(* ===== verification/Prelude.thy ===== *)
theory Prelude
  imports Main "HOL-Library.Word" "HOL-Library.Sublist"
begin

text \<open>
  Shared vocabulary of the development: Rust's unsigned integers as words, byte strings, the
  \<open>outcome\<close> of a call (it returns \<open>Ok\<close>, returns \<open>Err\<close>, or does not return at all), the
  integer operations of the standard library that the sources use, and the iteration of hash
  based containers.

  Machine arithmetic follows the release profile of the workspace (the manifest sets no
  \<open>overflow-checks\<close>): plain \<open>+\<close>, \<open>-\<close>, \<open>*\<close> wrap, which is what \<open>+\<close>, \<open>-\<close>, \<open>*\<close> on words do.
  Explicit panics (\<open>expect\<close>, \<open>unwrap\<close>, \<open>assert!\<close>, indexing a map) are modelled.
\<close>

type_synonym u8 = "8 word"
type_synonym u16 = "16 word"
type_synonym u32 = "32 word"
type_synonym u64 = "64 word"
type_synonym bytes = "u8 list"

subsection \<open>Outcomes of fallible calls\<close>

text \<open>
  \<open>Abort\<close> stands for a call that gives its caller no value: it panics, or it loops for ever.
  A call that returns no \<open>Result\<close> but may abort has an \<open>option\<close> type, with \<open>None\<close> for that.
\<close>

datatype ('e, 'a) outcome = Abort | Err 'e | Ok 'a

primrec bind_outcome :: "('e, 'a) outcome \<Rightarrow> ('a \<Rightarrow> ('e, 'b) outcome) \<Rightarrow> ('e, 'b) outcome" where
  "bind_outcome Abort f = Abort"
| "bind_outcome (Err e) f = Err e"
| "bind_outcome (Ok a) f = f a"

primrec map_err :: "('e \<Rightarrow> 'f) \<Rightarrow> ('e, 'a) outcome \<Rightarrow> ('f, 'a) outcome" where
  "map_err f Abort = Abort"
| "map_err f (Err e) = Err (f e)"
| "map_err f (Ok a) = Ok a"

text \<open>The value of a call that may abort, as an outcome.\<close>

definition expect :: "'a option \<Rightarrow> ('e, 'a) outcome" where
  "expect x = (case x of None \<Rightarrow> Abort | Some a \<Rightarrow> Ok a)"

definition ok_or :: "'a option \<Rightarrow> 'e \<Rightarrow> ('e, 'a) outcome" where
  "ok_or x e = (case x of None \<Rightarrow> Err e | Some a \<Rightarrow> Ok a)"

definition assert_that :: "bool \<Rightarrow> ('e, unit) outcome" where
  "assert_that b = (if b then Ok () else Abort)"

subsection \<open>Integer operations of the standard library\<close>

definition saturating_add :: "'w::len word \<Rightarrow> 'w word \<Rightarrow> 'w word" where
  "saturating_add a b = (if unat a + unat b < 2 ^ LENGTH('w) then a + b else - 1)"

definition saturating_mul :: "'w::len word \<Rightarrow> 'w word \<Rightarrow> 'w word" where
  "saturating_mul a b = (if unat a * unat b < 2 ^ LENGTH('w) then a * b else - 1)"

definition saturating_sub :: "'w::len word \<Rightarrow> 'w word \<Rightarrow> 'w word" where
  "saturating_sub a b = (if b \<le> a then a - b else 0)"

definition checked_add :: "'w::len word \<Rightarrow> 'w word \<Rightarrow> 'w word option" where
  "checked_add a b = (if unat a + unat b < 2 ^ LENGTH('w) then Some (a + b) else None)"

definition checked_div :: "'w::len word \<Rightarrow> 'w word \<Rightarrow> 'w word option" where
  "checked_div a b = (if b = 0 then None else Some (a div b))"

text \<open>\<open>to_le_bytes\<close> and \<open>to_be_bytes\<close> on 64, 32 and 16 bit integers.\<close>

definition le_bytes :: "nat \<Rightarrow> 'w::len word \<Rightarrow> bytes" where
  "le_bytes n w = map (\<lambda>i. ucast (drop_bit (8 * i) w)) [0..<n]"

definition be_bytes :: "nat \<Rightarrow> 'w::len word \<Rightarrow> bytes" where
  "be_bytes n w = rev (le_bytes n w)"

text \<open>Byte string literals.\<close>

definition ascii :: "string \<Rightarrow> bytes" where
  "ascii s = map of_char s"

subsection \<open>Iteration of hash based containers\<close>

text \<open>
  The order in which a \<open>HashSet\<close> or a \<open>HashMap\<close> yields its elements is not specified: an
  iteration order is a function from the set to a list of exactly its elements, each once.
  Definitions that iterate take the order as an argument.
\<close>

definition iterates :: "('a set \<Rightarrow> 'a list) \<Rightarrow> bool" where
  "iterates iter \<longleftrightarrow> (\<forall>S. finite S \<longrightarrow> set (iter S) = S \<and> distinct (iter S))"

subsection \<open>Fixed point numbers and random choice\<close>

text \<open>\<open>U57F7\<close> of the crate \<open>fixed\<close>: a 64 bit word whose unit is 128; a product drops the bits below it.\<close>

type_synonym u57f7 = u64

definition fixed_one :: u57f7 where "fixed_one = 128"

definition fixed_mul :: "u57f7 \<Rightarrow> u57f7 \<Rightarrow> u57f7" where
  "fixed_mul a b = of_nat (unat a * unat b div 128)"

text \<open>What the random choice promises: that many of the candidates, each once, or all of them.\<close>

definition picks :: "('p list \<Rightarrow> nat \<Rightarrow> 'p list) \<Rightarrow> bool" where
  "picks pick \<longleftrightarrow> (\<forall>xs n. distinct xs \<longrightarrow> set (pick xs n) \<subseteq> set xs \<and> distinct (pick xs n) \<and>
     length (pick xs n) = min n (length xs))"

section \<open>Lemmas\<close>

named_theorems outcome_simps \<open>unfolding of the outcome combinators\<close>

lemma bind_outcome_Ok_iff [simp]:
  "bind_outcome m f = Ok b \<longleftrightarrow> (\<exists>a. m = Ok a \<and> f a = Ok b)"
  by (cases m) auto

lemma bind_outcome_Err_iff:
  "bind_outcome m f = Err e \<longleftrightarrow> m = Err e \<or> (\<exists>a. m = Ok a \<and> f a = Err e)"
  by (cases m) auto

lemma bind_outcome_Abort_iff:
  "bind_outcome m f = Abort \<longleftrightarrow> m = Abort \<or> (\<exists>a. m = Ok a \<and> f a = Abort)"
  by (cases m) auto

lemma bind_outcome_assoc:
  "bind_outcome (bind_outcome m f) g = bind_outcome m (\<lambda>a. bind_outcome (f a) g)"
  by (cases m) auto

lemma expect_Ok_iff [simp]: "expect x = Ok a \<longleftrightarrow> x = Some a"
  by (simp add: expect_def split: option.split)

lemma expect_not_Err [simp]: "expect x \<noteq> Err e"
  by (simp add: expect_def split: option.split)

lemma expect_Abort_iff [simp]: "expect x = Abort \<longleftrightarrow> x = None"
  by (simp add: expect_def split: option.split)

lemma expect_simps [simp]: "expect (Some a) = Ok a" "expect None = Abort"
  by (simp_all add: expect_def)

lemma ok_or_Ok_iff [simp]: "ok_or x e = Ok a \<longleftrightarrow> x = Some a"
  by (simp add: ok_or_def split: option.split)

lemma ok_or_Err_iff [simp]: "ok_or x e = Err e' \<longleftrightarrow> x = None \<and> e' = e"
  by (auto simp: ok_or_def split: option.split)

lemma ok_or_not_Abort [simp]: "ok_or x e \<noteq> Abort"
  by (simp add: ok_or_def split: option.split)

lemma ok_or_simps [simp]: "ok_or (Some a) e = Ok a" "ok_or None e = Err e"
  by (simp_all add: ok_or_def)

lemma assert_that_iff [simp]:
  "assert_that b = Ok u \<longleftrightarrow> b" "assert_that b = Abort \<longleftrightarrow> \<not> b" "assert_that b \<noteq> Err e"
  by (simp_all add: assert_that_def)

lemma map_err_iff [simp]:
  "map_err f m = Ok a \<longleftrightarrow> m = Ok a"
  "map_err f m = Abort \<longleftrightarrow> m = Abort"
  "map_err f m = Err e \<longleftrightarrow> (\<exists>e'. m = Err e' \<and> e = f e')"
  by (cases m; auto)+

lemmas [outcome_simps] =
  bind_outcome_Err_iff bind_outcome_Abort_iff expect_def ok_or_def assert_that_def

subsubsection \<open>Integers\<close>

lemma unat_le_max: "unat (w :: 'w::len word) \<le> 2 ^ LENGTH('w) - 1"
  using unsigned_less [of w, where ?'a = nat] by linarith

lemma unat_max_word: "unat (- 1 :: 'w::len word) = 2 ^ LENGTH('w) - 1"
  by (simp add: unsigned_minus_1_eq_mask mask_eq_exp_minus_1)

lemma unat_saturating_add:
  "unat (saturating_add a b :: 'w::len word) = min (unat a + unat b) (2 ^ LENGTH('w) - 1)"
  by (auto simp: saturating_add_def unat_word_ariths unat_max_word min_def)

lemma unat_saturating_mul:
  "unat (saturating_mul a b :: 'w::len word) = min (unat a * unat b) (2 ^ LENGTH('w) - 1)"
proof (cases "unat a * unat b < 2 ^ LENGTH('w)")
  case True
  then have "unat a * unat b \<le> 2 ^ LENGTH('w) - 1" by linarith
  with True show ?thesis
    by (simp add: saturating_mul_def unat_word_ariths min_absorb1)
next
  case False
  then have "2 ^ LENGTH('w) - 1 \<le> unat a * unat b" by linarith
  with False show ?thesis
    by (simp add: saturating_mul_def unat_max_word min_absorb2)
qed

lemma unat_saturating_sub: "unat (saturating_sub a b) = unat a - unat b"
  by (auto simp: saturating_sub_def unat_sub word_le_nat_alt)

lemma unat_ucast_small:
  "unat w < 2 ^ LENGTH('b) \<Longrightarrow> unat (ucast (w :: 'a::len word) :: 'b::len word) = unat w"
  by (simp add: unsigned_ucast_eq take_bit_nat_eq_self)

lemma unat_ucast_up:
  assumes "LENGTH('a) \<le> LENGTH('b)"
  shows "unat (ucast (w :: 'a::len word) :: 'b::len word) = unat w"
proof (rule unat_ucast_small)
  have "unat w < 2 ^ LENGTH('a)" by simp
  also have "\<dots> \<le> 2 ^ LENGTH('b)" using assms by (rule power_increasing) simp
  finally show "unat w < 2 ^ LENGTH('b)" .
qed

lemma length_le_bytes [simp]: "length (le_bytes n w) = n"
  by (simp add: le_bytes_def)

lemma length_be_bytes [simp]: "length (be_bytes n w) = n"
  by (simp add: be_bytes_def)

lemma bit_from_le_bytes:
  assumes "k < 8 * n"
  shows "bit w k = bit (le_bytes n w ! (k div 8)) (k mod 8)"
proof -
  have "k div 8 < n" using assms by (simp add: less_mult_imp_div_less mult.commute)
  then show ?thesis
    by (simp add: le_bytes_def bit_ucast_iff bit_drop_bit_eq)
qed

lemma le_bytes_inject:
  assumes "le_bytes n w = le_bytes n v" and "LENGTH('w) \<le> 8 * n"
  shows "w = (v :: 'w::len word)"
proof (rule bit_word_eqI)
  fix k assume "k < LENGTH('w)"
  then show "bit w k = bit v k"
    using assms by (simp add: bit_from_le_bytes [of k n])
qed

lemma be_bytes_inject:
  "be_bytes n w = be_bytes n v \<Longrightarrow> LENGTH('w) \<le> 8 * n \<Longrightarrow> w = (v :: 'w::len word)"
  by (rule le_bytes_inject) (simp_all add: be_bytes_def)

subsubsection \<open>Iteration\<close>

lemma iterates_set: "iterates iter \<Longrightarrow> finite S \<Longrightarrow> set (iter S) = S"
  by (simp add: iterates_def)

lemma iterates_distinct: "iterates iter \<Longrightarrow> finite S \<Longrightarrow> distinct (iter S)"
  by (simp add: iterates_def)

lemma iterates_sorted [simp]: "iterates (sorted_list_of_set :: 'a::linorder set \<Rightarrow> 'a list)"
  by (simp add: iterates_def)

subsubsection \<open>Options and lists\<close>

lemma those_Some_iff: "those xs = Some ys \<longleftrightarrow> xs = map Some ys"
proof (induction xs arbitrary: ys)
  case Nil
  then show ?case by auto
next
  case (Cons x xs)
  show ?case
  proof (cases x)
    case None
    then show ?thesis by (cases ys) auto
  next
    case (Some a)
    then show ?thesis using Cons.IH by (cases ys) auto
  qed
qed

lemma those_map_total:
  assumes "\<And>x. x \<in> set xs \<Longrightarrow> f x \<noteq> None"
  shows "those (map f xs) = Some (map (\<lambda>x. the (f x)) xs)"
  using assms by (simp add: those_Some_iff)

lemma append_eq_length_inject:
  "length xs = length ys \<Longrightarrow> xs @ us = ys @ vs \<longleftrightarrow> xs = ys \<and> us = vs"
  by simp

end
