(* ===== verification/Slots.thy ===== *)
theory Slots
  imports Prelude
begin

text \<open>
  Slots, epochs and the consensus parameters: \<open>cryptarchia-engine/src/config.rs\<close> and
  \<open>time.rs\<close>, \<open>nomos-ledger/src/config.rs\<close>, and the slot timer of the time service
  (\<open>nomos-services/time/src/backends/common.rs\<close> and \<open>system_time.rs\<close>).

  A slot is a \<open>u64\<close>, an epoch a \<open>u32\<close>. The only floating point of these files is
  \<open>(f64::from(security_param) / active_slot_coeff).floor() as u64\<close>: the type of the
  coefficient is a type variable and this expression a parameter \<open>fdiv\<close>. Instants and
  durations are counted in nanoseconds.
\<close>

type_synonym slot = u64
type_synonym epoch = u32
type_synonym 'f floor_div = "u32 \<Rightarrow> 'f \<Rightarrow> u64"

subsection \<open>Engine configuration\<close>

record 'f config =
  security_param :: u32
  active_slot_coeff :: 'f

definition base_period_length :: "'f floor_div \<Rightarrow> 'f config \<Rightarrow> u64 option" where
  "base_period_length fdiv c =
     (let n = fdiv (security_param c) (active_slot_coeff c) in if n = 0 then None else Some n)"

definition s_param :: "'f floor_div \<Rightarrow> 'f config \<Rightarrow> u64 option" where
  "s_param fdiv c = map_option (\<lambda>n. saturating_mul n 3) (base_period_length fdiv c)"

subsection \<open>Epochs\<close>

record epoch_config =
  epoch_stake_distribution_stabilization :: u8
  epoch_period_nonce_buffer :: u8
  epoch_period_nonce_stabilization :: u8

fun reduce :: "('a \<Rightarrow> 'a \<Rightarrow> 'a) \<Rightarrow> 'a list \<Rightarrow> 'a option" where
  "reduce f [] = None"
| "reduce f (x # xs) = Some (foldl f x xs)"

definition epoch_length :: "epoch_config \<Rightarrow> u64 \<Rightarrow> u64" where
  "epoch_length ec base =
     saturating_mul
       (case reduce saturating_add
          [ucast (epoch_stake_distribution_stabilization ec),
           ucast (epoch_period_nonce_buffer ec),
           ucast (epoch_period_nonce_stabilization ec)]
        of None \<Rightarrow> 0 | Some n \<Rightarrow> n) base"

definition epoch_try_from :: "u64 \<Rightarrow> epoch option" where
  "epoch_try_from v = (if unat v < 2 ^ 32 then Some (ucast v) else None)"

text \<open>\<open>EpochConfig::epoch\<close>: the division panics on a zero length, the conversion on a
  quotient that does not fit an epoch.\<close>

definition epoch_of :: "epoch_config \<Rightarrow> slot \<Rightarrow> u64 \<Rightarrow> epoch option" where
  "epoch_of ec slot base =
     Option.bind (checked_div slot (epoch_length ec base)) epoch_try_from"

subsection \<open>Slots from wall clock time\<close>

definition nanos_per_sec :: int where "nanos_per_sec = 1000000000"

record slot_config =
  slot_duration :: int
  chain_start_time :: int

definition as_secs :: "int \<Rightarrow> u64" where
  "as_secs d = word_of_int (d div nanos_per_sec)"

definition from_offset_and_config :: "int \<Rightarrow> slot_config \<Rightarrow> slot option" where
  "from_offset_and_config now cfg =
     (let since_start = now - chain_start_time cfg in
      if since_start < 0 then Some 0
      else checked_div (as_secs since_start) (as_secs (slot_duration cfg)))"

definition current_slot :: "slot_config \<Rightarrow> int \<Rightarrow> slot option" where
  "current_slot cfg now = from_offset_and_config now cfg"

text \<open>\<open>SlotTimer::slot_interval\<close>: the delay until the first tick and the period. The slot
  number is truncated to 32 bits; a negative delay is a panic.\<close>

definition slot_interval :: "slot_config \<Rightarrow> int \<Rightarrow> (int \<times> int) option" where
  "slot_interval cfg now =
     Option.bind (current_slot cfg now) (\<lambda>cur.
       let next_slot_start =
             chain_start_time cfg + slot_duration cfg * uint (ucast (cur + 1) :: u32);
           delay = next_slot_start - now
       in if delay < 0 then None else Some (delay, slot_duration cfg))"

text \<open>
  The time service pairs the ticks of \<open>slot_interval\<close> with the slots counted up from a given
  first slot. The tick number \<open>i\<close> is due at \<open>now + delay + i * period\<close>.
\<close>

record slot_tick =
  tick_epoch :: epoch
  tick_slot :: slot

definition slot_timer ::
  "slot_config \<Rightarrow> int \<Rightarrow> slot \<Rightarrow> epoch_config \<Rightarrow> u64 \<Rightarrow> nat \<Rightarrow> (int \<times> slot_tick) option" where
  "slot_timer cfg now first ec base i =
     Option.bind (slot_interval cfg now) (\<lambda>(delay, period).
       let slot = first + of_nat i in
       Option.bind (epoch_of ec slot base) (\<lambda>e.
         Some (now + delay + int i * period, \<lparr>tick_epoch = e, tick_slot = slot\<rparr>)))"

record system_time_settings =
  st_slot_config :: slot_config
  st_epoch_config :: epoch_config
  st_base_period_length :: u64

definition tick_stream :: "system_time_settings \<Rightarrow> int \<Rightarrow> nat \<Rightarrow> (int \<times> slot_tick) option" where
  "tick_stream settings local_date i =
     Option.bind (from_offset_and_config local_date (st_slot_config settings)) (\<lambda>first.
       slot_timer (st_slot_config settings) local_date first
         (st_epoch_config settings) (st_base_period_length settings) i)"

subsection \<open>Ledger configuration\<close>

record 'f ledger_config =
  epoch_config :: epoch_config
  consensus_config :: "'f config"

definition lc_base_period_length :: "'f floor_div \<Rightarrow> 'f ledger_config \<Rightarrow> u64 option" where
  "lc_base_period_length fdiv c = base_period_length fdiv (consensus_config c)"

definition lc_epoch_length :: "'f floor_div \<Rightarrow> 'f ledger_config \<Rightarrow> u64 option" where
  "lc_epoch_length fdiv c =
     map_option (epoch_length (epoch_config c)) (base_period_length fdiv (consensus_config c))"

definition nonce_snapshot :: "'f floor_div \<Rightarrow> 'f ledger_config \<Rightarrow> epoch \<Rightarrow> slot option" where
  "nonce_snapshot fdiv c e =
     Option.bind (lc_base_period_length fdiv c) (\<lambda>n.
     Option.bind (lc_epoch_length fdiv c) (\<lambda>len.
       let offset =
             saturating_mul n
               (saturating_add (ucast (epoch_period_nonce_buffer (epoch_config c)))
                  (ucast (epoch_stake_distribution_stabilization (epoch_config c))));
           base = saturating_mul (ucast (saturating_sub e 1)) len
       in Some (saturating_add base offset)))"

definition stake_distribution_snapshot ::
  "'f floor_div \<Rightarrow> 'f ledger_config \<Rightarrow> epoch \<Rightarrow> slot option" where
  "stake_distribution_snapshot fdiv c e =
     Option.bind (lc_epoch_length fdiv c) (\<lambda>len. Some (ucast (e - 1) * len))"

definition lc_epoch :: "'f floor_div \<Rightarrow> 'f ledger_config \<Rightarrow> slot \<Rightarrow> epoch option" where
  "lc_epoch fdiv c slot =
     Option.bind (base_period_length fdiv (consensus_config c))
       (epoch_of (epoch_config c) slot)"

section \<open>Lemmas\<close>

text \<open>\<open>NonZero\<close> fields: the configurations that the types of the source admit.\<close>

definition valid_epoch_config :: "epoch_config \<Rightarrow> bool" where
  "valid_epoch_config ec \<longleftrightarrow>
     epoch_stake_distribution_stabilization ec \<noteq> 0 \<and>
     epoch_period_nonce_buffer ec \<noteq> 0 \<and> epoch_period_nonce_stabilization ec \<noteq> 0"

definition periods :: "epoch_config \<Rightarrow> nat" where
  "periods ec = unat (epoch_stake_distribution_stabilization ec) +
     unat (epoch_period_nonce_buffer ec) + unat (epoch_period_nonce_stabilization ec)"

lemma unat_u8: "unat (w :: u8) < 256"
  using unsigned_less [of w, where ?'a = nat] by simp

lemma unat_ucast_u8_u64 [simp]: "unat (ucast (w :: u8) :: u64) = unat w"
  by (simp add: unat_ucast_up)

lemma unat_ucast_u32_u64 [simp]: "unat (ucast (w :: u32) :: u64) = unat w"
  by (simp add: unat_ucast_up)

lemma unat_epoch_length:
  "unat (epoch_length ec base) = min (periods ec * unat base) (2 ^ 64 - 1)"
proof -
  have "unat (epoch_stake_distribution_stabilization ec) < 256"
    "unat (epoch_period_nonce_buffer ec) < 256"
    "unat (epoch_period_nonce_stabilization ec) < 256"
    by (rule unat_u8)+
  then show ?thesis
    by (simp add: epoch_length_def unat_saturating_mul unat_saturating_add periods_def min_def)
qed

lemma epoch_length_nonzero:
  assumes "valid_epoch_config ec" and "base \<noteq> 0"
  shows "epoch_length ec base \<noteq> 0"
proof -
  have "0 < periods ec" using assms(1)
    by (auto simp: periods_def valid_epoch_config_def unat_gt_0)
  moreover have "0 < unat base" using assms(2) by (simp add: unat_gt_0)
  ultimately have "0 < unat (epoch_length ec base)" by (simp add: unat_epoch_length)
  then show ?thesis by (auto simp: unat_gt_0)
qed

lemma epoch_of_eq:
  "epoch_length ec base \<noteq> 0 \<Longrightarrow> epoch_of ec slot base = epoch_try_from (slot div epoch_length ec base)"
  by (simp add: epoch_of_def checked_div_def)

lemma epoch_try_from_Some_iff: "epoch_try_from v = Some e \<longleftrightarrow> unat v = unat e"
proof
  assume "epoch_try_from v = Some e"
  then show "unat v = unat e"
    by (auto simp: epoch_try_from_def unat_ucast_small split: if_splits)
next
  assume *: "unat v = unat e"
  then have "unat v < 2 ^ 32" using unsigned_less [of e, where ?'a = nat] by simp
  with * show "epoch_try_from v = Some e"
    by (simp add: epoch_try_from_def word_unat_eq_iff unat_ucast_small)
qed

lemma unat_div_lt_iff: "0 < L \<Longrightarrow> (n :: nat) div L < k \<longleftrightarrow> n < k * L"
  by (simp add: div_less_iff_less_mult)

lemma epoch_of_None_iff:
  assumes "valid_epoch_config ec" and "base \<noteq> 0"
  shows "epoch_of ec slot base = None \<longleftrightarrow> 2 ^ 32 * unat (epoch_length ec base) \<le> unat slot"
proof -
  have nz: "epoch_length ec base \<noteq> 0" using assms by (rule epoch_length_nonzero)
  then have L: "0 < unat (epoch_length ec base)" by (simp add: unat_gt_0)
  show ?thesis
    using unat_div_lt_iff [OF L, of "unat slot" "2 ^ 32"]
    by (simp only: epoch_of_eq [OF nz] epoch_try_from_def unat_div_distrib not_less [symmetric]) simp
qed

lemma uint_as_secs:
  assumes "0 \<le> d" and "d < 2 ^ 32 * nanos_per_sec"
  shows "uint (as_secs d) = d div nanos_per_sec"
proof -
  have "d div nanos_per_sec < 2 ^ 32"
    using assms by (simp add: nanos_per_sec_def div_less_iff_less_mult)
  moreover have "0 \<le> d div nanos_per_sec"
    using assms(1) by (simp add: nanos_per_sec_def pos_imp_zdiv_nonneg_iff)
  ultimately show ?thesis
    by (simp add: as_secs_def uint_word_of_int_eq take_bit_int_eq_self)
qed

text \<open>With a period of whole seconds the slot number is the elapsed time over the period.\<close>

lemma from_offset_whole_seconds:
  assumes cfg: "slot_duration cfg = int d * nanos_per_sec" and d: "0 < d"
    and t: "chain_start_time cfg \<le> now"
    and small: "now - chain_start_time cfg < 2 ^ 32 * nanos_per_sec"
      "slot_duration cfg < 2 ^ 32 * nanos_per_sec"
  obtains s where "from_offset_and_config now cfg = Some s"
    and "uint s = (now - chain_start_time cfg) div slot_duration cfg"
proof -
  define x where "x = now - chain_start_time cfg"
  have x: "0 \<le> x" "x < 2 ^ 32 * nanos_per_sec" using t small by (simp_all add: x_def)
  have D: "0 \<le> slot_duration cfg" using cfg by (simp add: nanos_per_sec_def)
  have ud: "uint (as_secs (slot_duration cfg)) = int d"
    using uint_as_secs [OF D small(2)] cfg by (simp add: nanos_per_sec_def)
  then have "as_secs (slot_duration cfg) \<noteq> 0" using d by auto
  then have *: "from_offset_and_config now cfg
      = Some (as_secs x div as_secs (slot_duration cfg))"
    using x by (simp add: from_offset_and_config_def checked_div_def x_def Let_def)
  have "uint (as_secs x div as_secs (slot_duration cfg)) = x div nanos_per_sec div int d"
    by (simp add: uint_div_distrib ud uint_as_secs [OF x])
  also have "\<dots> = x div slot_duration cfg"
    using zdiv_zmult2_eq [of "int d" x nanos_per_sec] by (simp add: cfg mult.commute)
  finally show ?thesis using * that by (simp add: x_def)
qed

lemma div_eq_range:
  assumes "0 < (L :: nat)"
  shows "n div L = q \<longleftrightarrow> q * L \<le> n \<and> n < (q + 1) * L"
proof
  assume "n div L = q"
  then show "q * L \<le> n \<and> n < (q + 1) * L"
    using div_times_less_eq_dividend [of n L] dividend_less_div_times [OF assms, of n] by auto
next
  assume "q * L \<le> n \<and> n < (q + 1) * L"
  then show "n div L = q" by (intro div_nat_eqI) (auto simp: algebra_simps)
qed

lemma base_period_length_nonzero: "base_period_length fdiv c = Some n \<Longrightarrow> n \<noteq> 0"
  by (auto simp: base_period_length_def Let_def split: if_splits)

lemma epoch_step: "e \<noteq> 0 \<Longrightarrow> (unat e - 1) * P + P = unat (e :: epoch) * P"
  by (metis Suc_pred' add.commute mult_Suc unat_gt_0)

lemma unat_epoch_length_fits:
  assumes "e \<noteq> 0" and "unat (e :: epoch) * (periods ec * unat n) < 2 ^ 64"
  shows "unat (epoch_length ec n) = periods ec * unat n"
proof -
  have "1 \<le> unat e" using assms(1) by (simp add: Suc_le_eq unat_gt_0)
  then have "periods ec * unat n \<le> unat e * (periods ec * unat n)"
    using mult_le_mono1 [of 1 "unat e" "periods ec * unat n"] by simp
  then have "periods ec * unat n < 2 ^ 64" using assms(2) by linarith
  then show ?thesis by (simp add: unat_epoch_length)
qed

text \<open>The slots from the start of an epoch to the nonce snapshot taken in it.\<close>

definition nonce_offset :: "'f ledger_config \<Rightarrow> u64 \<Rightarrow> nat" where
  "nonce_offset c n = unat n *
     (unat (epoch_period_nonce_buffer (epoch_config c)) +
      unat (epoch_stake_distribution_stabilization (epoch_config c)))"

lemma nonce_offset_bounds:
  assumes "valid_epoch_config (epoch_config c)" and "n \<noteq> 0"
  shows "0 < nonce_offset c n" "nonce_offset c n < periods (epoch_config c) * unat n"
  using assms unfolding nonce_offset_def periods_def valid_epoch_config_def
  by (simp_all add: unat_gt_0 algebra_simps)

lemma snapshot_slots:
  assumes ec: "valid_epoch_config (epoch_config c)" and e: "e \<noteq> 0"
    and n: "base_period_length fdiv (consensus_config c) = Some n"
    and fits: "unat e * (periods (epoch_config c) * unat n) < 2 ^ 64"
  shows "\<exists>st nc. stake_distribution_snapshot fdiv c e = Some st \<and>
    nonce_snapshot fdiv c e = Some nc \<and>
    unat st = (unat e - 1) * (periods (epoch_config c) * unat n) \<and>
    unat nc = (unat e - 1) * (periods (epoch_config c) * unat n) + nonce_offset c n"
proof -
  let ?ec = "epoch_config c" and ?P = "periods (epoch_config c) * unat n"
  have u8: "unat (epoch_period_nonce_buffer ?ec) < 256"
      "unat (epoch_stake_distribution_stabilization ?ec) < 256"
    by (rule unat_u8)+
  have len: "unat (epoch_length ?ec n) = ?P" using e fits by (rule unat_epoch_length_fits)
  have st: "(unat e - 1) * ?P + ?P = unat e * ?P" using e by (rule epoch_step)
  have off: "nonce_offset c n < ?P"
    by (rule nonce_offset_bounds [OF ec base_period_length_nonzero [OF n]])
  have "unat (ucast (e - 1) * epoch_length ?ec n :: u64) = (unat e - 1) * ?P"
    using st fits e by (simp add: unat_word_ariths len unat_minus_one)
  moreover have "unat (saturating_mul n (saturating_add (ucast (epoch_period_nonce_buffer ?ec))
      (ucast (epoch_stake_distribution_stabilization ?ec)))) = min (nonce_offset c n) (2 ^ 64 - 1)"
    using u8 by (simp add: unat_saturating_mul unat_saturating_add nonce_offset_def)
  then have "unat (saturating_add (saturating_mul (ucast (saturating_sub e 1))
      (epoch_length ?ec n)) (saturating_mul n (saturating_add
      (ucast (epoch_period_nonce_buffer ?ec))
      (ucast (epoch_stake_distribution_stabilization ?ec)))) :: u64)
      = (unat e - 1) * ?P + nonce_offset c n"
    using st off fits unfolding unat_saturating_add [of "saturating_mul (ucast (saturating_sub e 1))
      (epoch_length ?ec n)"]
    by (simp add: unat_saturating_mul [of "ucast (saturating_sub e 1)"] unat_saturating_sub len)
  ultimately show ?thesis
    by (simp add: stake_distribution_snapshot_def nonce_snapshot_def lc_epoch_length_def
        lc_base_period_length_def n Let_def)
qed

lemma epoch_of_small_slot:
  assumes "valid_epoch_config ec" and "base \<noteq> 0" and "unat slot < 2 ^ 32"
  shows "\<exists>e. epoch_of ec slot base = Some e"
proof -
  have "unat slot div unat (epoch_length ec base) < 2 ^ 32"
    using div_le_dividend [of "unat slot" "unat (epoch_length ec base)"] assms(3) by linarith
  then show ?thesis
    using epoch_length_nonzero [OF assms(1,2)]
    by (simp add: epoch_of_eq epoch_try_from_def unat_div_distrib)
qed

lemma elapsed_slots:
  fixes x D i :: int
  assumes "0 \<le> x" and "nanos_per_sec \<le> D" and "x + (i + 1) * D < 2 ^ 32 * nanos_per_sec"
  shows "D * (x div D + i + 1) < 2 ^ 32 * nanos_per_sec" "x div D + i + 1 < 2 ^ 32"
    "x < D * (x div D + 1)"
proof -
  have D0: "0 < D" using assms(2) by (simp add: nanos_per_sec_def)
  have "D * (x div D) \<le> x" using D0 by (simp add: minus_mod_eq_mult_div [symmetric])
  then have "D * (x div D + i + 1) \<le> x + (i + 1) * D" by (simp add: algebra_simps)
  then show bound: "D * (x div D + i + 1) < 2 ^ 32 * nanos_per_sec" using assms(3) by linarith
  have "2 ^ 32 * nanos_per_sec \<le> D * 2 ^ 32" using assms(2) by simp
  then have "D * (x div D + i + 1) < D * 2 ^ 32" using bound by linarith
  then show "x div D + i + 1 < 2 ^ 32" using D0 by (simp only: mult_less_cancel_left_pos)
  show "x < D * (x div D + 1)"
    using pos_mod_bound [OF D0, of x] mult_div_mod_eq [of D x] by (simp only: distrib_left)
qed

lemma slot_interval_next_start:
  assumes cur: "current_slot cfg now = Some s" and s: "uint s + 1 < 2 ^ 32"
    and D: "0 \<le> chain_start_time cfg + slot_duration cfg * (uint s + 1) - now"
  shows "slot_interval cfg now =
    Some (chain_start_time cfg + slot_duration cfg * (uint s + 1) - now, slot_duration cfg)"
proof -
  have "uint (s + 1) = uint s + 1" using s by (simp add: uint_word_ariths)
  then have "uint (ucast (s + 1) :: u32) = uint s + 1"
    using s by (simp add: unsigned_ucast_eq take_bit_int_eq_self)
  then show ?thesis using D by (simp add: slot_interval_def cur)
qed

section \<open>Properties\<close>

text \<open>\<open>EpochConfig::epoch\<close> partitions the slots: the epoch it returns is the one whose
  range of \<open>epoch_length\<close> slots holds the slot, and it aborts (the \<open>expect\<close> of the conversion)
  exactly on the slots past the last range an epoch number can name.\<close>

theorem epoch_of_ranges:
  assumes "valid_epoch_config ec" and "base \<noteq> 0"
  shows "(epoch_of ec slot base = Some e \<longleftrightarrow>
            unat e * unat (epoch_length ec base) \<le> unat slot \<and>
            unat slot < (unat e + 1) * unat (epoch_length ec base)) \<and>
         (epoch_of ec slot base = None \<longleftrightarrow>
            2 ^ 32 * unat (epoch_length ec base) \<le> unat slot)"
proof -
  define L where "L = unat (epoch_length ec base)"
  have nz: "epoch_length ec base \<noteq> 0"
    using assms by (rule epoch_length_nonzero)
  then have L: "0 < L" by (simp add: L_def unat_gt_0)
  have eq: "epoch_of ec slot base = epoch_try_from (slot div epoch_length ec base)"
    using nz by (rule epoch_of_eq)
  have u: "unat (slot div epoch_length ec base) = unat slot div L"
    by (simp add: unat_div_distrib L_def)
  have "epoch_of ec slot base = Some e \<longleftrightarrow>
      unat e * L \<le> unat slot \<and> unat slot < (unat e + 1) * L"
    by (simp only: eq epoch_try_from_Some_iff u div_eq_range [OF L])
  moreover have "epoch_of ec slot base = None \<longleftrightarrow> 2 ^ 32 * L \<le> unat slot"
    unfolding L_def using assms by (rule epoch_of_None_iff)
  ultimately show ?thesis unfolding L_def by blast
qed

theorem epoch_of_ranges_witness:
  "epoch_of \<lparr>epoch_stake_distribution_stabilization = 3, epoch_period_nonce_buffer = 3,
       epoch_period_nonce_stabilization = 4\<rparr> 199 10 = Some 1"
proof -
  let ?ec = "\<lparr>epoch_stake_distribution_stabilization = 3, epoch_period_nonce_buffer = 3,
       epoch_period_nonce_stabilization = 4\<rparr>"
  have "unat (epoch_length ?ec 10) = 100" by (simp add: unat_epoch_length periods_def)
  then show ?thesis
    using epoch_of_ranges [of ?ec 10 199 1] by (simp add: valid_epoch_config_def)
qed

text \<open>The snapshots that fix epoch \<open>e\<close> are taken in the epoch before it: while nothing
  saturates, the stake distribution snapshot is the first slot of epoch \<open>e - 1\<close>, the nonce
  snapshot comes after it and still before the first slot of epoch \<open>e\<close>.\<close>

theorem snapshots_in_previous_epoch:
  assumes ec: "valid_epoch_config (epoch_config c)" and e: "e \<noteq> 0"
    and n: "base_period_length fdiv (consensus_config c) = Some n"
    and fits: "unat e * (periods (epoch_config c) * unat n) < 2 ^ 64"
  shows "\<exists>st nc. stake_distribution_snapshot fdiv c e = Some st \<and>
           nonce_snapshot fdiv c e = Some nc \<and>
           unat st = (unat e - 1) * (periods (epoch_config c) * unat n) \<and>
           unat st < unat nc \<and> unat nc < unat e * (periods (epoch_config c) * unat n) \<and>
           lc_epoch fdiv c nc = Some (e - 1)"
proof -
  define P where "P = periods (epoch_config c) * unat n"
  have n0: "n \<noteq> 0" using n by (rule base_period_length_nonzero)
  have e1: "unat (e - 1) = unat e - 1" using e by (simp add: unat_minus_one)
  obtain st nc where snap: "stake_distribution_snapshot fdiv c e = Some st"
      "nonce_snapshot fdiv c e = Some nc"
    and ust: "unat st = (unat e - 1) * P" and unc: "unat nc = (unat e - 1) * P + nonce_offset c n"
    using snapshot_slots [OF ec e n fits] unfolding P_def by blast
  have off: "0 < nonce_offset c n" "nonce_offset c n < P"
    using nonce_offset_bounds [OF ec n0] unfolding P_def by auto
  have st: "(unat e - 1) * P + P = unat e * P" using e by (rule epoch_step)
  have "unat nc div P = unat e - 1" using off by (simp add: div_eq_range unc)
  then have "lc_epoch fdiv c nc = Some (e - 1)"
    using epoch_length_nonzero [OF ec n0] unat_epoch_length_fits [OF e fits]
    by (simp add: lc_epoch_def n epoch_of_eq epoch_try_from_Some_iff unat_div_distrib e1 P_def)
  with snap ust unc off st show ?thesis unfolding P_def by force
qed

theorem snapshots_in_previous_epoch_witness:
  "\<exists>nc. nonce_snapshot (\<lambda>k (f::nat). word_of_nat (unat k div f))
       \<lparr>epoch_config = \<lparr>epoch_stake_distribution_stabilization = 3,
          epoch_period_nonce_buffer = 3, epoch_period_nonce_stabilization = 4\<rparr>,
        consensus_config = \<lparr>security_param = 10, active_slot_coeff = 1\<rparr>\<rparr> 2 = Some nc \<and>
     100 < unat nc \<and> unat nc < 200"
proof -
  let ?c = "\<lparr>epoch_config = \<lparr>epoch_stake_distribution_stabilization = 3,
          epoch_period_nonce_buffer = 3, epoch_period_nonce_stabilization = 4\<rparr>,
        consensus_config = \<lparr>security_param = 10, active_slot_coeff = 1::nat\<rparr>\<rparr>"
  show ?thesis
    using snapshots_in_previous_epoch [of ?c 2 "\<lambda>k f. word_of_nat (unat k div f)" 10]
    by (auto simp: valid_epoch_config_def base_period_length_def periods_def)
qed

text \<open>The system clock backend labels its ticks one slot late: with periods of whole
  seconds, and within \<open>2 ^ 32\<close> seconds of the chain start, tick number \<open>i\<close> is delivered exactly
  when slot \<open>n + 1\<close> starts, and carries slot \<open>n\<close>.\<close>

theorem tick_carries_previous_slot:
  assumes D: "slot_duration (st_slot_config st) = int d * nanos_per_sec" and d: "0 < d"
    and t: "chain_start_time (st_slot_config st) \<le> now"
    and small: "now - chain_start_time (st_slot_config st)
                  + (int i + 1) * slot_duration (st_slot_config st) < 2 ^ 32 * nanos_per_sec"
    and ec: "valid_epoch_config (st_epoch_config st)" "st_base_period_length st \<noteq> 0"
  shows "\<exists>due tick. tick_stream st now i = Some (due, tick) \<and>
           due = chain_start_time (st_slot_config st)
                   + slot_duration (st_slot_config st) * (uint (tick_slot tick) + 1) \<and>
           from_offset_and_config due (st_slot_config st) = Some (tick_slot tick + 1)"
proof -
  let ?cfg = "st_slot_config st"
  let ?D = "slot_duration ?cfg" and ?x = "now - chain_start_time ?cfg"
  have D1: "nanos_per_sec \<le> ?D" using D d by (simp add: nanos_per_sec_def)
  then have D0: "0 < ?D" by (simp add: nanos_per_sec_def)
  have x: "0 \<le> ?x" using t by simp
  note el = elapsed_slots [OF x D1 small]
  have iD: "?D \<le> (int i + 1) * ?D" using D0 by (simp add: algebra_simps)
  obtain s where s: "from_offset_and_config now ?cfg = Some s" and us: "uint s = ?x div ?D"
    using from_offset_whole_seconds [OF D d t] small t iD D0 by (smt (verit))
  have "int i < 2 ^ 32" using el(2) uint_ge_0 [of s] unfolding us [symmetric] by linarith
  then have ui: "uint (word_of_nat i :: u64) = int i"
    by (simp add: unsigned_of_nat take_bit_nat_eq_self)
  have uslot: "uint (s + of_nat i) = uint s + int i"
    "uint (s + of_nat i + 1) = uint s + int i + 1"
    using el(2) unfolding us [symmetric]
    by (simp_all add: uint_word_ariths ui)
  have si: "slot_interval ?cfg now = Some (chain_start_time ?cfg + ?D * (uint s + 1) - now, ?D)"
    using el(2,3) s by (intro slot_interval_next_start) (simp_all add: current_slot_def us)
  let ?due = "chain_start_time ?cfg + ?D * (uint s + int i + 1)"
  have "unat (s + of_nat i) < 2 ^ 32"
    using el(2) uslot(1) unfolding us [symmetric] unat_eq_nat_uint by simp
  then obtain e
    where "epoch_of (st_epoch_config st) (s + of_nat i) (st_base_period_length st) = Some e"
    using epoch_of_small_slot [OF ec] by blast
  then have tick: "tick_stream st now i = Some (?due, \<lparr>tick_epoch = e, tick_slot = s + of_nat i\<rparr>)"
    by (simp add: tick_stream_def slot_timer_def s si algebra_simps)
  obtain s' where s': "from_offset_and_config ?due ?cfg = Some s'"
    and "uint s' = (?due - chain_start_time ?cfg) div ?D"
    using from_offset_whole_seconds [OF D d, of ?due] el(1) small iD x D0 uslot(2)
    by (smt (verit) us uint_ge_0 zero_le_mult_iff)
  then have "from_offset_and_config ?due ?cfg = Some (s + of_nat i + 1)"
    using D0 uslot(2) by (simp add: word_uint_eq_iff)
  with tick show ?thesis using uslot by auto
qed

theorem tick_carries_previous_slot_witness:
  "\<exists>due tick. tick_stream \<lparr>st_slot_config = \<lparr>slot_duration = 2 * nanos_per_sec,
        chain_start_time = 0\<rparr>, st_epoch_config = \<lparr>epoch_stake_distribution_stabilization = 3,
        epoch_period_nonce_buffer = 3, epoch_period_nonce_stabilization = 4\<rparr>,
        st_base_period_length = 10\<rparr> (7 * nanos_per_sec) 0 = Some (due, tick) \<and>
     from_offset_and_config due \<lparr>slot_duration = 2 * nanos_per_sec, chain_start_time = 0\<rparr>
       = Some (tick_slot tick + 1)"
  using tick_carries_previous_slot [of "\<lparr>st_slot_config = \<lparr>slot_duration = 2 * nanos_per_sec,
        chain_start_time = 0\<rparr>, st_epoch_config = \<lparr>epoch_stake_distribution_stabilization = 3,
        epoch_period_nonce_buffer = 3, epoch_period_nonce_stabilization = 4\<rparr>,
        st_base_period_length = 10\<rparr>" 2 "7 * nanos_per_sec" 0]
  by (auto simp: valid_epoch_config_def nanos_per_sec_def)

end
