(* ===== verification/Engine.thy ===== *)
theory Engine
  imports Slots
begin

text \<open>
  The consensus engine, \<open>consensus/cryptarchia-engine/src/lib.rs\<close>: the tree of block headers
  (\<open>Branches\<close>), the fork choice \<open>maxvalid_bg\<close> of Ouroboros Genesis and the engine state
  \<open>Cryptarchia\<close>. Identifiers are a type variable, as they are generic in the source.

  A \<open>HashMap\<close> is a map, the set of tips a set whose iteration order is an argument
  (\<open>iter\<close>). The chain length is a \<open>nat\<close>: it is bounded by the number of stored headers
  (\<open>branch_length_bound\<close> below), so the \<open>u64\<close> of the source cannot overflow. The loops that
  walk up the tree index the map (a missing key is a panic) and have no a priori bound:
  they are partial functions into \<open>option\<close>, \<open>None\<close> being both a panic and an endless loop.
\<close>

record 'id branch =
  branch_id :: 'id
  branch_parent :: 'id
  branch_slot :: slot
  branch_length :: nat

record 'id branches =
  branch_map :: "'id \<rightharpoonup> 'id branch"
  tips :: "'id set"

datatype 'id engine_error = ParentMissing 'id | EngineOrphanMissing 'id

definition genesis_branch :: "'id \<Rightarrow> 'id branch" where
  "genesis_branch g = \<lparr>branch_id = g, branch_parent = g, branch_slot = 0, branch_length = 0\<rparr>"

definition from_genesis :: "'id \<Rightarrow> 'id branches" where
  "from_genesis g = \<lparr>branch_map = [g \<mapsto> genesis_branch g], tips = {g}\<rparr>"

definition apply_header ::
  "'id branches \<Rightarrow> 'id \<Rightarrow> 'id \<Rightarrow> slot \<Rightarrow> ('id engine_error, 'id branches) outcome" where
  "apply_header bs header parent slot =
     bind_outcome (ok_or (branch_map bs parent) (ParentMissing parent)) (\<lambda>p.
       Ok \<lparr>branch_map = (branch_map bs)(header \<mapsto>
              \<lparr>branch_id = header, branch_parent = parent, branch_slot = slot,
               branch_length = branch_length p + 1\<rparr>),
           tips = insert header (tips bs - {parent})\<rparr>)"

definition branches_list :: "('id set \<Rightarrow> 'id list) \<Rightarrow> 'id branches \<Rightarrow> 'id branch list option" where
  "branches_list iter bs = those (map (branch_map bs) (iter (tips bs)))"

text \<open>The three loops of \<open>lca\<close>: reduce the longer branch, then walk up both.\<close>

partial_function (option) reduce_to_length ::
  "'id branches \<Rightarrow> 'id branch \<Rightarrow> nat \<Rightarrow> 'id branch option" where
  "reduce_to_length bs b n =
     (if branch_length b > n
      then Option.bind (branch_map bs (branch_parent b)) (\<lambda>p. reduce_to_length bs p n)
      else Some b)"

partial_function (option) walk_up_together ::
  "'id branches \<Rightarrow> 'id branch \<Rightarrow> 'id branch \<Rightarrow> 'id branch option" where
  "walk_up_together bs b1 b2 =
     (if branch_id b1 \<noteq> branch_id b2
      then Option.bind (branch_map bs (branch_parent b1)) (\<lambda>p1.
           Option.bind (branch_map bs (branch_parent b2)) (\<lambda>p2. walk_up_together bs p1 p2))
      else Some b1)"

definition lca :: "'id branches \<Rightarrow> 'id branch \<Rightarrow> 'id branch \<Rightarrow> 'id branch option" where
  "lca bs b1 b2 =
     Option.bind (reduce_to_length bs b1 (branch_length b2)) (\<lambda>c1.
     Option.bind (reduce_to_length bs b2 (branch_length c1)) (\<lambda>c2.
       walk_up_together bs c1 c2))"

definition branches_get :: "'id branches \<Rightarrow> 'id \<Rightarrow> 'id branch option" where
  "branches_get bs i = branch_map bs i"

partial_function (option) walk_back_before ::
  "'id branches \<Rightarrow> 'id branch \<Rightarrow> slot \<Rightarrow> 'id branch option" where
  "walk_back_before bs current slot =
     (if branch_slot current > slot
      then Option.bind (branch_map bs (branch_parent current)) (\<lambda>p. walk_back_before bs p slot)
      else Some current)"

subsection \<open>Fork choice\<close>

text \<open>One iteration of the loop of \<open>maxvalid_bg\<close>.\<close>

definition maxvalid_step ::
  "'id branches \<Rightarrow> nat \<Rightarrow> u64 \<Rightarrow> 'id branch \<Rightarrow> 'id branch \<Rightarrow> 'id branch option" where
  "maxvalid_step bs k s cmax chain =
     Option.bind (lca bs cmax chain) (\<lambda>anc.
       let m = branch_length cmax - branch_length anc in
       if m \<le> k then Some (if branch_length cmax < branch_length chain then chain else cmax)
       else
         let density_slot = branch_slot anc + s in
         Option.bind (walk_back_before bs cmax density_slot) (\<lambda>a.
         Option.bind (walk_back_before bs chain density_slot) (\<lambda>b.
           Some (if branch_length a < branch_length b then chain else cmax))))"

fun maxvalid_loop ::
  "'id branches \<Rightarrow> nat \<Rightarrow> u64 \<Rightarrow> 'id branch \<Rightarrow> 'id branch list \<Rightarrow> 'id branch option" where
  "maxvalid_loop bs k s cmax [] = Some cmax"
| "maxvalid_loop bs k s cmax (chain # forks) =
     Option.bind (maxvalid_step bs k s cmax chain) (\<lambda>cmax'. maxvalid_loop bs k s cmax' forks)"

definition maxvalid_bg ::
  "('id set \<Rightarrow> 'id list) \<Rightarrow> 'id branch \<Rightarrow> 'id branches \<Rightarrow> nat \<Rightarrow> u64 \<Rightarrow> 'id branch option" where
  "maxvalid_bg iter local bs k s =
     Option.bind (branches_list iter bs) (\<lambda>forks. maxvalid_loop bs k s local forks)"

subsection \<open>The engine\<close>

record ('id, 'f) cryptarchia =
  local_chain :: "'id branch"
  branches_of :: "'id branches"
  engine_config :: "'f config"
  genesis_id :: 'id

definition cryptarchia_new :: "'id \<Rightarrow> 'f config \<Rightarrow> ('id, 'f) cryptarchia" where
  "cryptarchia_new g cfg =
     \<lparr>local_chain = genesis_branch g, branches_of = from_genesis g,
      engine_config = cfg, genesis_id = g\<rparr>"

definition fork_choice ::
  "('id set \<Rightarrow> 'id list) \<Rightarrow> 'f floor_div \<Rightarrow> ('id, 'f) cryptarchia \<Rightarrow> 'id branch option" where
  "fork_choice iter fdiv c =
     Option.bind (s_param fdiv (engine_config c)) (\<lambda>s.
       maxvalid_bg iter (local_chain c) (branches_of c)
         (unat (security_param (engine_config c))) s)"

definition receive_block ::
  "('id set \<Rightarrow> 'id list) \<Rightarrow> 'f floor_div \<Rightarrow> ('id, 'f) cryptarchia \<Rightarrow> 'id \<Rightarrow> 'id \<Rightarrow> slot \<Rightarrow>
     ('id engine_error, ('id, 'f) cryptarchia) outcome" where
  "receive_block iter fdiv c i parent slot =
     bind_outcome (apply_header (branches_of c) i parent slot) (\<lambda>bs.
       let new = c\<lparr>branches_of := bs\<rparr> in
       bind_outcome (expect (fork_choice iter fdiv new)) (\<lambda>b. Ok (new\<lparr>local_chain := b\<rparr>)))"

definition tip :: "('id, 'f) cryptarchia \<Rightarrow> 'id" where
  "tip c = branch_id (local_chain c)"

text \<open>\<open>prune_forks\<close> is a \<open>todo!()\<close>.\<close>

definition prune_forks :: "('id, 'f) cryptarchia \<Rightarrow> u64 \<Rightarrow> ('id, 'f) cryptarchia option" where
  "prune_forks c depth = None"

text \<open>The \<open>try_fold\<close> of \<open>get_security_block_header_id\<close> over \<open>0..security_param\<close>.\<close>

fun security_fold :: "'id branches \<Rightarrow> nat \<Rightarrow> 'id \<Rightarrow> 'id option" where
  "security_fold bs 0 header = Some header"
| "security_fold bs (Suc n) header =
     Option.bind (branches_get bs header) (\<lambda>b.
       if header = branch_parent b then None else security_fold bs n (branch_parent b))"

definition get_security_block_header_id :: "('id, 'f) cryptarchia \<Rightarrow> 'id option" where
  "get_security_block_header_id c =
     security_fold (branches_of c) (unat (security_param (engine_config c))) (tip c)"

section \<open>The tree of headers\<close>

text \<open>
  Well-formed stores: every header is stored under its own identifier and, the genesis apart,
  one block above a stored parent; the tips are stored and every stored header without a
  stored child is a tip.
\<close>

definition stored :: "'id branches \<Rightarrow> 'id branch \<Rightarrow> bool" where
  "stored bs b \<longleftrightarrow> branch_map bs (branch_id b) = Some b"

definition wf_branches :: "'id \<Rightarrow> 'id branches \<Rightarrow> bool" where
  "wf_branches g bs \<longleftrightarrow>
     finite (dom (branch_map bs)) \<and>
     branch_map bs g = Some (genesis_branch g) \<and>
     (\<forall>i b. branch_map bs i = Some b \<longrightarrow> branch_id b = i) \<and>
     (\<forall>i b. branch_map bs i = Some b \<and> i \<noteq> g \<longrightarrow>
        (\<exists>p. branch_map bs (branch_parent b) = Some p \<and>
             branch_length b = Suc (branch_length p))) \<and>
     tips bs \<subseteq> dom (branch_map bs) \<and>
     (\<forall>i \<in> dom (branch_map bs).
        i \<in> tips bs \<or> (\<exists>b. branch_map bs (branch_id b) = Some b \<and> branch_id b \<noteq> i \<and>
                              branch_parent b = i))"

text \<open>
  A header may be delivered twice, but identifiers are digests of the header: one that is
  already stored comes with the parent and slot it is stored with, and no header has the
  identifier of the genesis.
\<close>

definition consistent_header :: "'id \<Rightarrow> 'id branches \<Rightarrow> 'id \<Rightarrow> 'id \<Rightarrow> slot \<Rightarrow> bool" where
  "consistent_header g bs i parent slot \<longleftrightarrow>
     i \<noteq> g \<and> i \<noteq> parent \<and>
     (\<forall>b. branch_map bs i = Some b \<longrightarrow> branch_parent b = parent \<and> branch_slot b = slot)"

text \<open>The chain of a branch: the headers from the genesis to it.\<close>

fun chain_n :: "'id branches \<Rightarrow> nat \<Rightarrow> 'id branch \<Rightarrow> 'id branch list" where
  "chain_n bs 0 b = [b]"
| "chain_n bs (Suc n) b =
     (case branch_map bs (branch_parent b) of None \<Rightarrow> [b] | Some p \<Rightarrow> chain_n bs n p @ [b])"

definition chain :: "'id branches \<Rightarrow> 'id branch \<Rightarrow> 'id branch list" where
  "chain bs b = chain_n bs (branch_length b) b"

lemma genesis_branch_sel [simp]:
  "branch_id (genesis_branch g) = g" "branch_parent (genesis_branch g) = g"
  "branch_slot (genesis_branch g) = 0" "branch_length (genesis_branch g) = 0"
  by (simp_all add: genesis_branch_def)

lemma wf_branchesD:
  assumes "wf_branches g bs"
  shows "finite (dom (branch_map bs))" "branch_map bs g = Some (genesis_branch g)"
    "branch_map bs i = Some b \<Longrightarrow> branch_id b = i"
    "branch_map bs i = Some b \<Longrightarrow> i \<noteq> g \<Longrightarrow>
       \<exists>p. branch_map bs (branch_parent b) = Some p \<and> branch_length b = Suc (branch_length p)"
    "tips bs \<subseteq> dom (branch_map bs)"
  using assms unfolding wf_branches_def by blast+

lemma stored_lookup: "wf_branches g bs \<Longrightarrow> branch_map bs i = Some b \<Longrightarrow> stored bs b"
  by (simp add: stored_def wf_branchesD(3))

lemma stored_genesis_iff:
  assumes "wf_branches g bs" and "stored bs b"
  shows "branch_length b = 0 \<longleftrightarrow> b = genesis_branch g"
  using wf_branchesD(2) [OF assms(1)] wf_branchesD(4) [OF assms(1), of "branch_id b" b] assms(2)
  by (cases "branch_id b = g") (auto simp: stored_def)

lemma stored_parent:
  assumes "wf_branches g bs" and "stored bs b" and "branch_length b = Suc n"
  obtains p where "branch_map bs (branch_parent b) = Some p" "stored bs p" "branch_length p = n"
    "chain bs b = chain bs p @ [b]"
proof -
  have "branch_id b \<noteq> g"
    using assms(2,3) stored_genesis_iff [OF assms(1,2)] wf_branchesD(2) [OF assms(1)]
    by (metis nat.distinct(1) option.inject stored_def)
  then obtain p where p: "branch_map bs (branch_parent b) = Some p"
    "branch_length b = Suc (branch_length p)"
    using wf_branchesD(4) [OF assms(1)] assms(2) unfolding stored_def by blast
  then show ?thesis
    using that [OF p(1) stored_lookup [OF assms(1) p(1)]] assms(3) by (simp add: chain_def)
qed

lemma stored_unique: "stored bs a \<Longrightarrow> stored bs b \<Longrightarrow> branch_id a = branch_id b \<Longrightarrow> a = b"
  by (simp add: stored_def)

lemma chain_induct [consumes 2, case_names genesis extend]:
  assumes wf: "wf_branches g bs" and st: "stored bs b"
    and gen: "P (genesis_branch g)"
    and ext: "\<And>b p. stored bs b \<Longrightarrow> stored bs p \<Longrightarrow> branch_map bs (branch_parent b) = Some p \<Longrightarrow>
      branch_length b = Suc (branch_length p) \<Longrightarrow> chain bs b = chain bs p @ [b] \<Longrightarrow> P p \<Longrightarrow> P b"
  shows "P b"
  using st
proof (induction "branch_length b" arbitrary: b)
  case 0
  then show ?case using gen stored_genesis_iff [OF wf] by metis
next
  case (Suc n)
  obtain p where "branch_map bs (branch_parent b) = Some p" "stored bs p" "branch_length p = n"
    "chain bs b = chain bs p @ [b]"
    using stored_parent [OF wf Suc.prems Suc.hyps(2) [symmetric]] by metis
  then show ?case using ext [OF Suc.prems, of p] Suc.hyps by metis
qed

lemma chain_genesis [simp]: "chain bs (genesis_branch g) = [genesis_branch g]"
  by (simp add: chain_def genesis_branch_def)

lemma length_chain:
  "wf_branches g bs \<Longrightarrow> stored bs b \<Longrightarrow> length (chain bs b) = Suc (branch_length b)"
  by (induction b rule: chain_induct) auto

lemma last_chain: "wf_branches g bs \<Longrightarrow> stored bs b \<Longrightarrow> last (chain bs b) = b"
  by (induction b rule: chain_induct) auto

lemma chain_not_Nil [simp]: "chain bs b \<noteq> []"
  by (cases "branch_length b") (auto simp: chain_def split: option.split)

lemma hd_chain: "wf_branches g bs \<Longrightarrow> stored bs b \<Longrightarrow> hd (chain bs b) = genesis_branch g"
  by (induction b rule: chain_induct) (auto simp: hd_append)

lemma stored_genesis: "wf_branches g bs \<Longrightarrow> stored bs (genesis_branch g)"
  by (simp add: stored_def wf_branchesD(2))

lemma chain_stored:
  assumes wf: "wf_branches g bs" and st: "stored bs b"
  shows "x \<in> set (chain bs b) \<Longrightarrow> stored bs x"
  using wf st by (induction b rule: chain_induct) (auto simp: stored_genesis [OF wf])

lemma chain_prefix:
  assumes wf: "wf_branches g bs" and st: "stored bs b" and n: "n \<le> branch_length b"
  obtains a where "stored bs a" "branch_length a = n" "chain bs a = take (Suc n) (chain bs b)"
  using wf st n
proof (induction b arbitrary: thesis rule: chain_induct)
  case genesis
  then show ?case
    using wf_branchesD(2) [OF wf] genesis(1) [of "genesis_branch g"] by (simp add: stored_def)
next
  case (extend b p)
  show ?case
  proof (cases "n \<le> branch_length p")
    case True
    then show ?thesis using extend.IH extend.prems extend.hyps length_chain [OF wf, of p] by auto
  next
    case False
    then have "n = branch_length b" using extend by simp
    then show ?thesis using extend.prems(1) [of b] extend.hyps length_chain [OF wf, of b] by simp
  qed
qed

lemma chain_inject: "wf_branches g bs \<Longrightarrow> stored bs a \<Longrightarrow> stored bs b \<Longrightarrow>
    chain bs a = chain bs b \<longleftrightarrow> a = b"
  by (metis last_chain)

lemma genesis_wf: "wf_branches g (from_genesis g)"
  by (auto simp: wf_branches_def from_genesis_def)

lemma apply_header_eq:
  "apply_header bs i parent slot = Ok bs' \<longleftrightarrow>
     (\<exists>p. branch_map bs parent = Some p \<and>
        bs' = \<lparr>branch_map = (branch_map bs)(i \<mapsto>
                 \<lparr>branch_id = i, branch_parent = parent, branch_slot = slot,
                  branch_length = Suc (branch_length p)\<rparr>),
               tips = insert i (tips bs - {parent})\<rparr>)"
  by (auto simp: apply_header_def)

lemma apply_header_error:
  "apply_header bs i parent slot = Err e \<longleftrightarrow>
     branch_map bs parent = None \<and> e = ParentMissing parent"
  "apply_header bs i parent slot \<noteq> Abort"
  by (auto simp: apply_header_def ok_or_def split: option.splits)

text \<open>
  A second delivery writes back the entry that is stored already, so that the lengths of its
  descendants stay right.
\<close>

lemma apply_header_old_entry:
  assumes "wf_branches g bs" and "consistent_header g bs i parent slot"
    and "branch_map bs parent = Some p" and "branch_map bs i = Some b"
  shows "b = \<lparr>branch_id = i, branch_parent = parent, branch_slot = slot,
              branch_length = Suc (branch_length p)\<rparr>"
proof -
  have "branch_parent b = parent" "branch_slot b = slot" "i \<noteq> g"
    using assms(2,4) by (auto simp: consistent_header_def)
  moreover have "branch_id b = i" using wf_branchesD(3) [OF assms(1,4)] .
  moreover have "branch_length b = Suc (branch_length p)"
    using wf_branchesD(4) [OF assms(1,4) \<open>i \<noteq> g\<close>] \<open>branch_parent b = parent\<close> assms(3) by simp
  ultimately show ?thesis by (cases b) simp
qed

lemma apply_header_lookup:
  assumes "wf_branches g bs" and "consistent_header g bs i parent slot"
    and "apply_header bs i parent slot = Ok bs'"
  shows "branch_map bs j = Some b \<Longrightarrow> branch_map bs' j = Some b"
    and "stored bs b \<Longrightarrow> stored bs' b"
    and "dom (branch_map bs') = insert i (dom (branch_map bs))"
  using assms apply_header_old_entry [OF assms(1,2)]
  by (auto simp: apply_header_eq stored_def)

lemma apply_header_wf:
  assumes wf: "wf_branches g bs" and con: "consistent_header g bs i parent slot"
    and ok: "apply_header bs i parent slot = Ok bs'"
  shows "wf_branches g bs'"
proof -
  obtain p where p: "branch_map bs parent = Some p"
    and bs': "bs' = \<lparr>branch_map = (branch_map bs)(i \<mapsto>
                 \<lparr>branch_id = i, branch_parent = parent, branch_slot = slot,
                  branch_length = Suc (branch_length p)\<rparr>),
               tips = insert i (tips bs - {parent})\<rparr>"
    using ok by (auto simp: apply_header_eq)
  note look = apply_header_lookup [OF wf con ok]
  have ne: "i \<noteq> g" "i \<noteq> parent" using con by (auto simp: consistent_header_def)
  have entry: "\<exists>q. branch_map bs' (branch_parent b) = Some q \<and>
      branch_length b = Suc (branch_length q)" if "branch_map bs' j = Some b" "j \<noteq> g" for j b
  proof (cases "j = i")
    case True
    then show ?thesis using that look(1) [OF p] p bs' ne by auto
  next
    case False
    then have "branch_map bs j = Some b" using that(1) bs' by simp
    then show ?thesis using wf_branchesD(4) [OF wf _ that(2)] look(1) by blast
  qed
  have leaf: "j \<in> tips bs' \<or> (\<exists>b. branch_map bs' (branch_id b) = Some b \<and> branch_id b \<noteq> j \<and>
      branch_parent b = j)" if "j \<in> dom (branch_map bs')" for j
  proof (cases "j = i \<or> j = parent")
    case True
    have "branch_map bs' i = Some \<lparr>branch_id = i, branch_parent = parent, branch_slot = slot,
        branch_length = Suc (branch_length p)\<rparr>" "i \<in> tips bs'"
      using bs' by simp_all
    then show ?thesis using True ne by (metis branch.select_convs(1,2))
  next
    case False
    then have "j \<in> dom (branch_map bs)" using that look(3) by blast
    then have "j \<in> tips bs \<or> (\<exists>b. branch_map bs (branch_id b) = Some b \<and> branch_id b \<noteq> j \<and>
        branch_parent b = j)" using wf unfolding wf_branches_def by blast
    moreover have "j \<in> tips bs \<Longrightarrow> j \<in> tips bs'" using False bs' by simp
    ultimately show ?thesis using look(1) by blast
  qed
  show ?thesis
    unfolding wf_branches_def
  proof (intro conjI allI impI ballI)
    show "finite (dom (branch_map bs'))" using look(3) wf_branchesD(1) [OF wf] by simp
    show "branch_map bs' g = Some (genesis_branch g)" using look(1) wf_branchesD(2) [OF wf] by blast
    show "branch_id b = j" if "branch_map bs' j = Some b" for j b
      using that wf_branchesD(3) [OF wf] bs' by (auto split: if_splits)
    show "tips bs' \<subseteq> dom (branch_map bs')" using wf_branchesD(5) [OF wf] bs' by auto
  qed (use entry leaf in blast)+
qed

text \<open>A chain has fewer blocks above the genesis than there are stored headers.\<close>

lemma chain_distinct:
  assumes wf: "wf_branches g bs" and st: "stored bs b"
  shows "distinct (map branch_length (chain bs b)) \<and>
    (\<forall>x \<in> set (chain bs b). branch_length x \<le> branch_length b)"
  using wf st by (induction b rule: chain_induct) fastforce+

lemma branch_length_bound:
  assumes wf: "wf_branches g bs" and st: "stored bs b"
  shows "branch_length b < card (dom (branch_map bs))"
proof -
  have d: "distinct (chain bs b)" using chain_distinct [OF wf st] by (simp add: distinct_map)
  have inj: "inj_on branch_id (set (chain bs b))"
    using chain_stored [OF wf st] stored_unique by (metis inj_onI)
  have "branch_id ` set (chain bs b) \<subseteq> dom (branch_map bs)"
    using chain_stored [OF wf st] by (auto simp: stored_def)
  then have "card (branch_id ` set (chain bs b)) \<le> card (dom (branch_map bs))"
    using wf_branchesD(1) [OF wf] card_mono by blast
  then show ?thesis
    using card_image [OF inj] distinct_card [OF d] length_chain [OF wf st] by simp
qed

section \<open>The walks up the tree\<close>

lemma reduce_to_length_chain:
  assumes wf: "wf_branches g bs" and st: "stored bs b"
  shows "\<exists>a. reduce_to_length bs b n = Some a \<and> stored bs a \<and>
    branch_length a = min n (branch_length b) \<and> chain bs a = take (Suc n) (chain bs b)"
  using wf st
proof (induction b rule: chain_induct)
  case genesis
  then show ?case by (simp add: reduce_to_length.simps stored_genesis [OF wf])
next
  case (extend b p)
  show ?case
  proof (cases "branch_length b > n")
    case True
    then show ?thesis
      using extend length_chain [OF wf \<open>stored bs p\<close>]
      by (subst reduce_to_length.simps) (auto simp: min_def)
  next
    case False
    then show ?thesis
      using extend length_chain [OF wf \<open>stored bs b\<close>]
      by (subst reduce_to_length.simps) (auto simp: min_def)
  qed
qed

lemma longest_common_prefix_same [simp]: "longest_common_prefix xs xs = xs"
  by (induction xs) auto

lemma longest_common_prefix_snoc:
  "length xs = length ys \<Longrightarrow> a \<noteq> b \<Longrightarrow>
     longest_common_prefix (xs @ [a]) (ys @ [b]) = longest_common_prefix xs ys"
  by (induction xs ys rule: list_induct2) auto

lemma longest_common_prefix_take_left:
  "length ys \<le> n \<Longrightarrow> longest_common_prefix (take n xs) ys = longest_common_prefix xs ys"
  by (induction xs ys arbitrary: n rule: longest_common_prefix.induct) (auto simp: take_Cons')

lemma longest_common_prefix_commute:
  "longest_common_prefix xs ys = longest_common_prefix ys xs"
  by (induction xs ys rule: longest_common_prefix.induct) auto

lemma walk_up_together_chain:
  assumes wf: "wf_branches g bs"
  shows "stored bs b1 \<Longrightarrow> stored bs b2 \<Longrightarrow> branch_length b1 = branch_length b2 \<Longrightarrow>
    \<exists>a. walk_up_together bs b1 b2 = Some a \<and> stored bs a \<and>
      chain bs a = longest_common_prefix (chain bs b1) (chain bs b2)"
proof (induction "branch_length b1" arbitrary: b1 b2)
  case 0
  then have "b1 = b2" using stored_genesis_iff [OF wf] by metis
  then show ?case using 0 by (simp add: walk_up_together.simps)
next
  case (Suc n)
  obtain p1 where p1: "branch_map bs (branch_parent b1) = Some p1" "stored bs p1"
    "branch_length p1 = n" "chain bs b1 = chain bs p1 @ [b1]"
    using stored_parent [OF wf Suc.prems(1) Suc.hyps(2) [symmetric]] by metis
  obtain p2 where p2: "branch_map bs (branch_parent b2) = Some p2" "stored bs p2"
    "branch_length p2 = n" "chain bs b2 = chain bs p2 @ [b2]"
    using stored_parent [OF wf Suc.prems(2)] Suc.hyps(2) Suc.prems(3) by metis
  show ?case
  proof (cases "b1 = b2")
    case True
    then show ?thesis using Suc.prems by (subst walk_up_together.simps) auto
  next
    case False
    then have "branch_id b1 \<noteq> branch_id b2" using stored_unique Suc.prems by metis
    moreover have "longest_common_prefix (chain bs b1) (chain bs b2) =
        longest_common_prefix (chain bs p1) (chain bs p2)"
      using p1 p2 False length_chain [OF wf] by (simp add: longest_common_prefix_snoc)
    ultimately show ?thesis
      using Suc.hyps(1) [of p1 p2] p1 p2 by (subst walk_up_together.simps) auto
  qed
qed

text \<open>The lowest common ancestor is the last block of the common prefix of the chains.\<close>

lemma lca_chain:
  assumes wf: "wf_branches g bs" and st: "stored bs b1" "stored bs b2"
  shows "\<exists>a. lca bs b1 b2 = Some a \<and> stored bs a \<and>
    chain bs a = longest_common_prefix (chain bs b1) (chain bs b2)"
proof -
  obtain c1 where c1: "reduce_to_length bs b1 (branch_length b2) = Some c1" "stored bs c1"
    "branch_length c1 = min (branch_length b2) (branch_length b1)"
    "chain bs c1 = take (Suc (branch_length b2)) (chain bs b1)"
    using reduce_to_length_chain [OF wf st(1)] by blast
  obtain c2 where c2: "reduce_to_length bs b2 (branch_length c1) = Some c2" "stored bs c2"
    "branch_length c2 = min (branch_length c1) (branch_length b2)"
    "chain bs c2 = take (Suc (branch_length c1)) (chain bs b2)"
    using reduce_to_length_chain [OF wf st(2)] by blast
  obtain a where a: "walk_up_together bs c1 c2 = Some a" "stored bs a"
    "chain bs a = longest_common_prefix (chain bs c1) (chain bs c2)"
    using walk_up_together_chain [OF wf c1(2) c2(2)] c1(3) c2(3) by auto
  have len: "length (chain bs b2) = Suc (branch_length b2)"
    "length (chain bs c1) = Suc (branch_length c1)"
    using length_chain [OF wf] st c1(2) by auto
  have "chain bs a = longest_common_prefix (chain bs c1) (chain bs b2)"
    using a(3) c2(4) len(2) longest_common_prefix_take_left longest_common_prefix_commute
    by (metis order_refl)
  also have "\<dots> = longest_common_prefix (chain bs b1) (chain bs b2)"
    using c1(4) len(1) longest_common_prefix_take_left by (metis order_refl)
  finally show ?thesis using a c1(1) c2(1) by (simp add: lca_def)
qed

text \<open>The blocks of a chain up to a slot: its blocks above, last ones first, are dropped.\<close>

definition up_to_slot :: "slot \<Rightarrow> 'id branch list \<Rightarrow> 'id branch list" where
  "up_to_slot s c = rev (dropWhile (\<lambda>b. branch_slot b > s) (rev c))"

lemma walk_back_before_chain:
  assumes wf: "wf_branches g bs" and st: "stored bs b"
  shows "\<exists>a. walk_back_before bs b s = Some a \<and> stored bs a \<and>
    chain bs a = up_to_slot s (chain bs b)"
  using wf st
proof (induction b rule: chain_induct)
  case genesis
  then show ?case by (simp add: walk_back_before.simps stored_genesis [OF wf] up_to_slot_def)
next
  case (extend b p)
  then show ?case by (subst walk_back_before.simps) (auto simp: up_to_slot_def)
qed

section \<open>Fork choice: the specification and the refinement\<close>

text \<open>
  Fork choice on chains, as Ouroboros Genesis states it: a fork that leaves the current chain at
  most \<open>k\<close> blocks back wins when it is longer; one that leaves it earlier wins when it has more
  blocks in the window of \<open>s\<close> slots after the fork.
\<close>

definition beats :: "nat \<Rightarrow> u64 \<Rightarrow> 'id branch list \<Rightarrow> 'id branch list \<Rightarrow> bool" where
  "beats k s cur new \<longleftrightarrow>
     (let fork = longest_common_prefix cur new; window = branch_slot (last fork) + s in
      if length cur - length fork \<le> k then length cur < length new
      else length (up_to_slot window cur) < length (up_to_slot window new))"

definition best_chain ::
  "nat \<Rightarrow> u64 \<Rightarrow> 'id branch list \<Rightarrow> 'id branch list list \<Rightarrow> 'id branch list" where
  "best_chain k s cur cs = foldl (\<lambda>c new. if beats k s c new then new else c) cur cs"

lemma beats_irrefl [simp]: "\<not> beats k s c c"
  by (simp add: beats_def Let_def)

lemma maxvalid_step_beats:
  assumes wf: "wf_branches g bs" and st: "stored bs cmax" "stored bs new"
  shows "maxvalid_step bs k s cmax new =
    Some (if beats k s (chain bs cmax) (chain bs new) then new else cmax)"
proof -
  obtain anc where anc: "lca bs cmax new = Some anc" "stored bs anc"
    "chain bs anc = longest_common_prefix (chain bs cmax) (chain bs new)"
    using lca_chain [OF wf st] by blast
  let ?w = "branch_slot anc + s"
  obtain a where a: "walk_back_before bs cmax ?w = Some a" "stored bs a"
    "chain bs a = up_to_slot ?w (chain bs cmax)"
    using walk_back_before_chain [OF wf st(1)] by blast
  obtain b where b: "walk_back_before bs new ?w = Some b" "stored bs b"
    "chain bs b = up_to_slot ?w (chain bs new)"
    using walk_back_before_chain [OF wf st(2)] by blast
  note len = length_chain [OF wf]
  show ?thesis
    using anc(1) a(1) b(1) len [OF anc(2)] len [OF a(2)] len [OF b(2)] len [OF st(1)]
      len [OF st(2)] last_chain [OF wf anc(2)]
    by (simp add: maxvalid_step_def beats_def Let_def flip: anc(3) a(3) b(3))
qed

lemma maxvalid_loop_best:
  assumes wf: "wf_branches g bs" and st: "\<forall>b \<in> set forks. stored bs b"
  shows "stored bs cmax \<Longrightarrow> \<exists>r. maxvalid_loop bs k s cmax forks = Some r \<and>
    r \<in> insert cmax (set forks) \<and> chain bs r = best_chain k s (chain bs cmax) (map (chain bs) forks)"
  using st
proof (induction forks arbitrary: cmax)
  case Nil
  then show ?case by (simp add: best_chain_def)
next
  case (Cons f forks)
  let ?c = "if beats k s (chain bs cmax) (chain bs f) then f else cmax"
  have "stored bs ?c" using Cons.prems by simp
  then obtain r where "maxvalid_loop bs k s ?c forks = Some r" "r \<in> insert ?c (set forks)"
    "chain bs r = best_chain k s (chain bs ?c) (map (chain bs) forks)"
    using Cons.IH [of ?c] Cons.prems(2) by (meson list.set_intros(2))
  then show ?case
    using maxvalid_step_beats [OF wf, of cmax f] Cons.prems
    by (auto simp: best_chain_def split: if_splits)
qed

lemma branches_list_tips:
  assumes wf: "wf_branches g bs" and it: "iterates iter"
  obtains forks where "branches_list iter bs = Some forks" "\<forall>b \<in> set forks. stored bs b"
    "branch_id ` set forks = tips bs" "map branch_id forks = iter (tips bs)"
proof -
  have fin: "finite (tips bs)" using wf_branchesD(1,5) [OF wf] finite_subset by blast
  have set: "set (iter (tips bs)) = tips bs" using iterates_set [OF it fin] .
  let ?f = "\<lambda>i. the (branch_map bs i)"
  have look: "branch_map bs i = Some (?f i)" "branch_id (?f i) = i" "stored bs (?f i)"
    if "i \<in> tips bs" for i
    using that wf_branchesD(3,5) [OF wf] stored_lookup [OF wf] by force+
  have "map (branch_map bs) (iter (tips bs)) = map Some (map ?f (iter (tips bs)))"
    using look(1) set by simp
  then have "branches_list iter bs = Some (map ?f (iter (tips bs)))"
    by (simp add: branches_list_def those_Some_iff)
  moreover have "map branch_id (map ?f (iter (tips bs))) = iter (tips bs)"
    using look(2) set by (auto intro: map_idI)
  moreover have "\<forall>b \<in> set (map ?f (iter (tips bs))). stored bs b" using look(3) set by simp
  ultimately show ?thesis using that set by (metis image_set)
qed

definition tip_chains :: "('id set \<Rightarrow> 'id list) \<Rightarrow> 'id branches \<Rightarrow> 'id branch list list" where
  "tip_chains iter bs = map (\<lambda>i. chain bs (the (branch_map bs i))) (iter (tips bs))"

lemma maxvalid_bg_best:
  assumes wf: "wf_branches g bs" and it: "iterates iter" and st: "stored bs local"
  obtains r where "maxvalid_bg iter local bs k s = Some r" "stored bs r"
    "r = local \<or> branch_id r \<in> tips bs"
    "chain bs r = best_chain k s (chain bs local) (tip_chains iter bs)"
proof -
  obtain forks where f: "branches_list iter bs = Some forks" "\<forall>b \<in> set forks. stored bs b"
    "branch_id ` set forks = tips bs" "map branch_id forks = iter (tips bs)"
    using branches_list_tips [OF wf it] .
  have "tip_chains iter bs = map (chain bs) forks"
    using f(2) by (simp add: tip_chains_def flip: f(4)) (simp add: stored_def)
  moreover obtain r where "maxvalid_loop bs k s local forks = Some r" "r \<in> insert local (set forks)"
    "chain bs r = best_chain k s (chain bs local) (map (chain bs) forks)"
    using maxvalid_loop_best [OF wf f(2) st] by blast
  ultimately show ?thesis using f(1,2,3) st by (intro that [of r]) (auto simp: maxvalid_bg_def)
qed

lemma best_chain_Nil [simp]: "best_chain k s cur [] = cur"
  and best_chain_Cons: "best_chain k s cur (c # cs) =
    best_chain k s (if beats k s cur c then c else cur) cs"
  by (simp_all add: best_chain_def)

lemma best_chain_mem: "best_chain k s cur cs \<in> insert cur (set cs)"
proof (induction cs arbitrary: cur)
  case (Cons c cs)
  show ?case using Cons.IH [of "if beats k s cur c then c else cur"]
    by (auto simp: best_chain_Cons split: if_splits)
qed simp

lemma best_chain_leaves:
  "\<exists>c \<in> set cs. beats k s cur c \<Longrightarrow> best_chain k s cur cs \<in> set cs"
proof (induction cs arbitrary: cur)
  case (Cons c cs)
  show ?case
    using Cons best_chain_mem [of k s c cs] by (auto simp: best_chain_Cons)
qed simp

lemma best_chain_stays: "\<forall>c \<in> set cs. \<not> beats k s cur c \<Longrightarrow> best_chain k s cur cs = cur"
  by (induction cs) (auto simp: best_chain_Cons)

lemma beats_shallow:
  "length cur - length (longest_common_prefix cur new) \<le> k \<Longrightarrow>
     beats k s cur new \<longleftrightarrow> length cur < length new"
  by (simp add: beats_def)

lemma beats_deep:
  "k < length cur - length (longest_common_prefix cur new) \<Longrightarrow>
   window = branch_slot (last (longest_common_prefix cur new)) + s \<Longrightarrow>
     beats k s cur new \<longleftrightarrow> length (up_to_slot window cur) < length (up_to_slot window new)"
  by (simp add: beats_def Let_def)

lemma longest_common_prefix_extend [simp]: "longest_common_prefix xs (xs @ ys) = xs"
  by (induction xs) auto

lemma beats_extension [simp]: "ys \<noteq> [] \<Longrightarrow> beats k s cur (cur @ ys)"
  by (simp add: beats_def)

text \<open>When all forks are shallow the result is a longest chain.\<close>

definition shallow_forks :: "nat \<Rightarrow> 'id branch list set \<Rightarrow> bool" where
  "shallow_forks k C \<longleftrightarrow>
     (\<forall>a \<in> C. \<forall>b \<in> C. length a - length (longest_common_prefix a b) \<le> k)"

lemma best_chain_longest:
  "shallow_forks k C \<Longrightarrow> insert cur (set cs) \<subseteq> C \<Longrightarrow>
     \<forall>c \<in> insert cur (set cs). length c \<le> length (best_chain k s cur cs)"
proof (induction cs arbitrary: cur)
  case (Cons c cs)
  let ?n = "if beats k s cur c then c else cur"
  have sub: "insert ?n (set cs) \<subseteq> C" using Cons.prems(2) by auto
  have "length cur - length (longest_common_prefix cur c) \<le> k"
    using Cons.prems unfolding shallow_forks_def by auto
  then have "length cur \<le> length ?n" "length c \<le> length ?n"
    by (auto simp: beats_shallow)
  then show ?case using Cons.IH [OF Cons.prems(1) sub] by (auto simp: best_chain_Cons)
qed simp

section \<open>The engine state\<close>

definition wf_engine :: "('id, 'f) cryptarchia \<Rightarrow> bool" where
  "wf_engine c \<longleftrightarrow>
     wf_branches (genesis_id c) (branches_of c) \<and>
     stored (branches_of c) (local_chain c) \<and> tip c \<in> tips (branches_of c)"

definition local_blocks :: "('id, 'f) cryptarchia \<Rightarrow> 'id branch list" where
  "local_blocks c = chain (branches_of c) (local_chain c)"

lemma new_wf: "wf_engine (cryptarchia_new g cfg)"
  using stored_genesis [OF genesis_wf, of g]
  by (simp add: wf_engine_def cryptarchia_new_def genesis_wf tip_def) (simp add: from_genesis_def)

lemma chain_after_header:
  assumes wf: "wf_branches g bs" and con: "consistent_header g bs i parent slot"
    and ok: "apply_header bs i parent slot = Ok bs'" and st: "stored bs b"
  shows "chain bs' b = chain bs b"
proof -
  note look = apply_header_lookup [OF wf con ok] and wf' = apply_header_wf [OF wf con ok]
  show ?thesis
    using wf st
  proof (induction b rule: chain_induct)
    case (extend b p)
    then show ?case using look(1) [OF extend.hyps(3)] by (simp add: chain_def)
  qed simp
qed

text \<open>When the selected chain was a tip before the header it is one after: a child that removes
  it from the tips beats it.\<close>

lemma selected_is_tip:
  assumes wf: "wf_branches g bs" and con: "consistent_header g bs i parent slot"
    and ok: "apply_header bs i parent slot = Ok bs'" and it: "iterates iter"
    and st: "stored bs local" and tip: "branch_id local \<in> tips bs" and r: "stored bs' r"
    and mem: "r = local \<or> branch_id r \<in> tips bs'"
    and best: "chain bs' r = best_chain k s (chain bs' local) (tip_chains iter bs')"
  shows "branch_id r \<in> tips bs'"
proof (cases "branch_id local \<in> tips bs'")
  case True
  then show ?thesis using mem by auto
next
  case False
  note wf' = apply_header_wf [OF wf con ok]
  have fin: "finite (tips bs')" using wf_branchesD(1,5) [OF wf'] finite_subset by blast
  have p: "branch_id local = parent" using False tip ok by (auto simp: apply_header_eq)
  define b where "b = the (branch_map bs' i)"
  have i: "i \<in> tips bs'" "branch_map bs' i = Some b" "branch_parent b = parent"
      "branch_length b = Suc (branch_length local)"
    using ok p st by (auto simp: apply_header_eq b_def stored_def)
  have "branch_map bs' (branch_parent b) = Some local"
    using apply_header_lookup(2) [OF wf con ok st] p i(3) by (simp add: stored_def)
  then have "chain bs' b = chain bs' local @ [b]" using i(4) by (simp add: chain_def)
  then have "\<exists>n \<in> set (tip_chains iter bs'). beats k s (chain bs' local) n"
    using i(1,2) iterates_set [OF it fin] by (force simp: tip_chains_def)
  then have "chain bs' r \<in> set (tip_chains iter bs')" using best_chain_leaves best by metis
  then obtain j where j: "j \<in> tips bs'" "chain bs' r = chain bs' (the (branch_map bs' j))"
    using iterates_set [OF it fin] by (auto simp: tip_chains_def)
  obtain bj where bj: "branch_map bs' j = Some bj" using j(1) wf_branchesD(5) [OF wf'] by blast
  then have "r = bj" using chain_inject [OF wf' r stored_lookup [OF wf' bj]] j(2) by simp
  then show ?thesis using j(1) wf_branchesD(3) [OF wf' bj] by simp
qed

text \<open>The whole step: on a known parent \<open>receive_block\<close> returns, stores the header and selects
  the best chain among the current one and all tips.\<close>

lemma receive_block_best:
  assumes wf: "wf_engine c" and it: "iterates iter"
    and s: "s_param fdiv (engine_config c) = Some s"
    and con: "consistent_header (genesis_id c) (branches_of c) i parent slot"
    and parent: "parent \<in> dom (branch_map (branches_of c))"
  obtains c' bs' where "receive_block iter fdiv c i parent slot = Ok c'"
    "apply_header (branches_of c) i parent slot = Ok bs'"
    "branches_of c' = bs'" "engine_config c' = engine_config c" "genesis_id c' = genesis_id c"
    "wf_engine c'"
    "local_blocks c' =
       best_chain (unat (security_param (engine_config c))) s (local_blocks c) (tip_chains iter bs')"
proof -
  let ?bs = "branches_of c" and ?k = "unat (security_param (engine_config c))"
  have wfb: "wf_branches (genesis_id c) ?bs" and st: "stored ?bs (local_chain c)"
    and tip: "tip c \<in> tips ?bs"
    using wf by (auto simp: wf_engine_def)
  obtain bs' where ok: "apply_header ?bs i parent slot = Ok bs'"
    using parent by (auto simp: apply_header_def)
  note wf' = apply_header_wf [OF wfb con ok]
  have st': "stored bs' (local_chain c)" using apply_header_lookup(2) [OF wfb con ok st] .
  obtain r where r: "maxvalid_bg iter (local_chain c) bs' ?k s = Some r" "stored bs' r"
    "r = local_chain c \<or> branch_id r \<in> tips bs'"
    "chain bs' r = best_chain ?k s (chain bs' (local_chain c)) (tip_chains iter bs')"
    using maxvalid_bg_best [OF wf' it st'] .
  have tip': "branch_id r \<in> tips bs'"
    using selected_is_tip [OF wfb con ok it st _ r(2,3,4)] tip by (simp add: tip_def)
  show ?thesis
  proof (rule that [of "c\<lparr>branches_of := bs', local_chain := r\<rparr>" bs'])
    show "receive_block iter fdiv c i parent slot = Ok (c\<lparr>branches_of := bs', local_chain := r\<rparr>)"
      using ok r(1) s by (simp add: receive_block_def fork_choice_def)
    show "wf_engine (c\<lparr>branches_of := bs', local_chain := r\<rparr>)"
      using wf' r(2) tip' by (simp add: wf_engine_def tip_def)
  qed (use ok r(4) chain_after_header [OF wfb con ok st] in \<open>simp_all add: local_blocks_def\<close>)
qed

section \<open>Finality\<close>

text \<open>No chain of \<open>C\<close> that leaves one with the blocks \<open>pre\<close> more than \<open>k\<close> blocks back is denser
  than it in the window after the fork.\<close>

definition deep_forks_sparse ::
  "nat \<Rightarrow> u64 \<Rightarrow> 'id branch list \<Rightarrow> 'id branch list set \<Rightarrow> bool" where
  "deep_forks_sparse k s pre C \<longleftrightarrow>
     (\<forall>a \<in> C. \<forall>b \<in> C.
        prefix pre a \<and> k < length a - length (longest_common_prefix a b) \<longrightarrow>
        (let window = branch_slot (last (longest_common_prefix a b)) + s in
         length (up_to_slot window b) \<le> length (up_to_slot window a)))"

lemma take_longest_common_prefix:
  "n \<le> length (longest_common_prefix xs ys) \<Longrightarrow> take n xs = take n ys"
  by (induction xs ys arbitrary: n rule: longest_common_prefix.induct)
    (auto simp: take_Cons' split: if_splits)

lemma best_chain_final:
  "deep_forks_sparse k s pre C \<Longrightarrow> insert cur (set cs) \<subseteq> C \<Longrightarrow> prefix pre cur \<Longrightarrow>
     length pre + k \<le> length cur \<Longrightarrow> prefix pre (best_chain k s cur cs)"
proof (induction cs arbitrary: cur)
  case (Cons c cs)
  show ?case
  proof (cases "beats k s cur c")
    case False
    then show ?thesis using Cons by (simp add: best_chain_Cons)
  next
    case True
    let ?fork = "longest_common_prefix cur c"
    have shallow: "length cur - length ?fork \<le> k"
    proof (rule ccontr)
      assume "\<not> ?thesis"
      moreover have "cur \<in> C" "c \<in> C" using Cons.prems(2) by auto
      ultimately show False
        using Cons.prems(1,3) True by (force simp: deep_forks_sparse_def beats_deep Let_def)
    qed
    then have len: "length cur < length c" using True by (simp add: beats_shallow)
    have "length pre \<le> length ?fork" using shallow Cons.prems(4) by simp
    then have "take (length pre) cur = take (length pre) c" by (rule take_longest_common_prefix)
    then have "prefix pre c" using Cons.prems(3) by (metis append_eq_conv_conj prefix_def take_is_prefix)
    then show ?thesis
      using Cons.IH [of c] Cons.prems len True by (auto simp: best_chain_Cons)
  qed
qed simp

lemma security_fold_chain:
  assumes wf: "wf_branches g bs" and st: "stored bs b"
  shows "security_fold bs n (branch_id b) =
    (if n \<le> branch_length b then Some (branch_id (chain bs b ! (branch_length b - n))) else None)"
  using wf st
proof (induction b arbitrary: n rule: chain_induct)
  case genesis
  then show ?case
    using wf_branchesD(2) [OF wf] by (cases n) (simp_all add: branches_get_def)
next
  case (extend b p)
  have len: "length (chain bs p) = Suc (branch_length p)" using length_chain [OF wf extend.hyps(2)] .
  have par: "branch_parent b = branch_id p"
    using wf_branchesD(3) [OF wf extend.hyps(3)] by simp
  have ne: "branch_id b \<noteq> branch_id p"
    using stored_unique extend.hyps(1,2,4) by (metis n_not_Suc_n)
  show ?case
  proof (cases n)
    case 0
    then show ?thesis using extend.hyps len by (simp add: nth_append)
  next
    case (Suc m)
    then show ?thesis
      using extend.IH [of m] extend.hyps(1,4,5) par ne len
      by (auto simp: branches_get_def stored_def nth_append)
  qed
qed

section \<open>A sample store\<close>

text \<open>Two chains from the genesis, \<open>0 - 1 - 2\<close> (selected) and \<open>0 - 3\<close>.\<close>

definition sample_branch :: "nat \<Rightarrow> nat \<Rightarrow> slot \<Rightarrow> nat \<Rightarrow> nat branch" where
  "sample_branch i p s n =
     \<lparr>branch_id = i, branch_parent = p, branch_slot = s, branch_length = n\<rparr>"

definition sample_store :: "nat branches" where
  "sample_store =
     \<lparr>branch_map = [0 \<mapsto> genesis_branch 0, 1 \<mapsto> sample_branch 1 0 1 1,
                    2 \<mapsto> sample_branch 2 1 2 2, 3 \<mapsto> sample_branch 3 0 9 1],
      tips = {2, 3}\<rparr>"

definition sample_engine :: "u32 \<Rightarrow> (nat, unit) cryptarchia" where
  "sample_engine k =
     \<lparr>local_chain = sample_branch 2 1 2 2, branches_of = sample_store,
      engine_config = \<lparr>security_param = k, active_slot_coeff = ()\<rparr>, genesis_id = 0\<rparr>"

lemma sample_branch_sel [simp]:
  "branch_id (sample_branch i p s n) = i" "branch_parent (sample_branch i p s n) = p"
  "branch_slot (sample_branch i p s n) = s" "branch_length (sample_branch i p s n) = n"
  by (simp_all add: sample_branch_def)

lemma sample_engine_sel [simp]:
  "local_chain (sample_engine k) = sample_branch 2 1 2 2" "branches_of (sample_engine k) = sample_store"
  "security_param (engine_config (sample_engine k)) = k" "genesis_id (sample_engine k) = 0"
  by (simp_all add: sample_engine_def)

lemma sample_dom: "dom (branch_map (branches_of (sample_engine k))) = {0, 1, 2, 3}"
  by (auto simp: sample_store_def)

lemma sample_engine_wf: "wf_engine (sample_engine k)"
proof -
  have children: "stored sample_store (sample_branch 1 0 1 1)"
    "stored sample_store (sample_branch 2 1 2 2)"
    by (auto simp: sample_store_def stored_def)
  have "i \<in> tips sample_store \<or> (\<exists>b. stored sample_store b \<and> branch_id b \<noteq> i \<and> branch_parent b = i)"
    if "i \<in> {0, 1, 2, 3}" for i
    using that children by (elim insertE) (auto simp: sample_store_def intro: exI)
  moreover have "dom (branch_map sample_store) = {0, 1, 2, 3}"
    using sample_dom by simp
  ultimately have "wf_branches 0 sample_store"
    unfolding wf_branches_def stored_def
    by (intro conjI) (auto simp: sample_store_def split: if_splits)
  then show ?thesis
    using children(2) by (simp add: wf_engine_def tip_def) (simp add: sample_store_def)
qed

lemma sample_engine_s: "s_param (\<lambda>_ _. 1) (engine_config (sample_engine k)) = Some 3"
  by (simp add: s_param_def base_period_length_def saturating_mul_def)

lemma sample_engine_consistent:
  "consistent_header (genesis_id (sample_engine k)) (branches_of (sample_engine k)) 4 3 10"
  by (simp add: consistent_header_def sample_store_def)

lemma sample_engine_receives:
  "\<exists>c'. receive_block sorted_list_of_set (\<lambda>_ _. 1) (sample_engine k) 4 3 10 = Ok c'"
  using receive_block_best [OF sample_engine_wf iterates_sorted sample_engine_s
    sample_engine_consistent] sample_dom by (metis insertCI)

lemma receive_block_parent:
  "receive_block iter fdiv c i parent slot = Ok c' \<Longrightarrow>
     parent \<in> dom (branch_map (branches_of c))"
  by (auto simp: receive_block_def apply_header_eq)

lemma tip_chain_mem:
  assumes wf: "wf_branches g bs" and it: "iterates iter" and t: "t \<in> tips bs"
  shows "\<exists>x \<in> set (tip_chains iter bs). length x = Suc (branch_length (the (branch_map bs t)))"
proof -
  have "finite (tips bs)" using wf_branchesD(1,5) [OF wf] finite_subset by blast
  then have "chain bs (the (branch_map bs t)) \<in> set (tip_chains iter bs)"
    using iterates_set [OF it] t by (auto simp: tip_chains_def)
  moreover obtain b where "branch_map bs t = Some b" using t wf_branchesD(5) [OF wf] by blast
  ultimately show ?thesis using length_chain [OF wf stored_lookup [OF wf]] by fastforce
qed

lemma security_block_settled:
  assumes "wf_engine c" and "get_security_block_header_id c = Some h"
  shows "h \<in> branch_id ` set (take (length (local_blocks c) -
    unat (security_param (engine_config c))) (local_blocks c))"
proof -
  let ?k = "unat (security_param (engine_config c))" and ?n = "branch_length (local_chain c)"
  have wf: "wf_branches (genesis_id c) (branches_of c)" "stored (branches_of c) (local_chain c)"
    using assms(1) by (auto simp: wf_engine_def)
  have len: "length (local_blocks c) = Suc ?n"
    using length_chain [OF wf] by (simp add: local_blocks_def)
  have h: "?k \<le> ?n" "h = branch_id (local_blocks c ! (?n - ?k))"
    using security_fold_chain [OF wf, of ?k] assms(2)
    by (auto simp: get_security_block_header_id_def tip_def local_blocks_def split: if_splits)
  have "local_blocks c ! (?n - ?k) \<in> set (take (Suc ?n - ?k) (local_blocks c))"
    using h(1) len by (auto simp: in_set_conv_nth intro!: exI [of _ "?n - ?k"])
  then show ?thesis using h(2) len by simp
qed

lemma sample_store_numerals:
  "branch_map sample_store 3 = Some (sample_branch 3 0 9 1)" "tips sample_store = {2, 3}"
  by (simp_all add: sample_store_def)

lemma sample_chains:
  "local_blocks (sample_engine k) =
     [genesis_branch 0, sample_branch 1 0 1 1, sample_branch 2 1 2 2]"
  "receive_block sorted_list_of_set (\<lambda>_ _. 1) (sample_engine k) 4 3 10 = Ok c' \<Longrightarrow>
   set (tip_chains sorted_list_of_set (branches_of c')) =
     {[genesis_branch 0, sample_branch 1 0 1 1, sample_branch 2 1 2 2],
      [genesis_branch 0, sample_branch 3 0 9 1, sample_branch 4 3 10 2]}"
proof -
  show "local_blocks (sample_engine k) =
     [genesis_branch 0, sample_branch 1 0 1 1, sample_branch 2 1 2 2]"
    by (simp add: local_blocks_def chain_def sample_store_def numeral_2_eq_2)
  assume "receive_block sorted_list_of_set (\<lambda>_ _. 1) (sample_engine k) 4 3 10 = Ok c'"
  then have "branches_of c' = \<lparr>branch_map = (branch_map sample_store)(4 \<mapsto> sample_branch 4 3 10 2),
      tips = {2, 4}\<rparr>"
    by (auto simp: receive_block_def apply_header_def Let_def sample_branch_def [of 4]
      sample_store_numerals numeral_2_eq_2)
  then show "set (tip_chains sorted_list_of_set (branches_of c')) =
     {[genesis_branch 0, sample_branch 1 0 1 1, sample_branch 2 1 2 2],
      [genesis_branch 0, sample_branch 3 0 9 1, sample_branch 4 3 10 2]}"
    by (simp add: tip_chains_def chain_def sample_store_def numeral_2_eq_2)
qed

lemma sample_chains_shallow:
  "receive_block sorted_list_of_set (\<lambda>_ _. 1) (sample_engine k) 4 3 10 = Ok c' \<Longrightarrow> 3 \<le> n \<Longrightarrow>
   shallow_forks n (insert (local_blocks (sample_engine k))
     (set (tip_chains sorted_list_of_set (branches_of c'))))"
  by (simp add: sample_chains shallow_forks_def)

section \<open>Properties of the engine\<close>

text \<open>
  C1. \<open>receive_block\<close> is total on well-formed engines: with a known parent it returns an engine
  that is again well-formed (the tree invariant, the selected branch stored and one of the
  tips) and has exactly the new header added; with an unknown parent it returns
  \<open>ParentMissing\<close>. No path panics or loops.
\<close>

theorem receive_block_total:
  assumes "wf_engine c" and "iterates iter" and "s_param fdiv (engine_config c) = Some s"
    and "consistent_header (genesis_id c) (branches_of c) i parent slot"
  shows "if parent \<in> dom (branch_map (branches_of c))
    then \<exists>c'. receive_block iter fdiv c i parent slot = Ok c' \<and> wf_engine c' \<and>
      genesis_id c' = genesis_id c \<and>
      dom (branch_map (branches_of c')) = insert i (dom (branch_map (branches_of c))) \<and>
      (\<forall>b. stored (branches_of c) b \<longrightarrow> stored (branches_of c') b)
    else receive_block iter fdiv c i parent slot = Err (ParentMissing parent)"
proof (cases "parent \<in> dom (branch_map (branches_of c))")
  case True
  then obtain c' bs' where c': "receive_block iter fdiv c i parent slot = Ok c'"
    "apply_header (branches_of c) i parent slot = Ok bs'" "branches_of c' = bs'"
    "genesis_id c' = genesis_id c" "wf_engine c'"
    using receive_block_best [OF assms] by metis
  have wf: "wf_branches (genesis_id c) (branches_of c)" using assms(1) by (simp add: wf_engine_def)
  show ?thesis
    using True c' apply_header_lookup(2,3) [OF wf assms(4) c'(2)] by auto
next
  case False
  then have "apply_header (branches_of c) i parent slot = Err (ParentMissing parent)"
    by (auto simp: apply_header_error)
  then show ?thesis using False by (simp add: receive_block_def)
qed

theorem receive_block_total_witness:
  "\<exists>c'. receive_block sorted_list_of_set (\<lambda>_ _. 1) (sample_engine 1) 4 3 10 = Ok c' \<and> wf_engine c' \<and>
    dom (branch_map (branches_of c')) = {0, 1, 2, 3, 4}"
  using receive_block_total [OF sample_engine_wf iterates_sorted sample_engine_s
    sample_engine_consistent, of 1]
  unfolding sample_dom by (auto simp: insert_commute)

text \<open>
  C2. The fork choice refines its specification on chains: the chain the engine selects after a
  header is the one Ouroboros Genesis' rule selects among the current chain and the chains of
  all tips, in the order in which the tips are iterated.
\<close>

theorem fork_choice_refines:
  assumes "wf_engine c" and "iterates iter" and "s_param fdiv (engine_config c) = Some s"
    and "consistent_header (genesis_id c) (branches_of c) i parent slot"
    and "receive_block iter fdiv c i parent slot = Ok c'"
  shows "local_blocks c' =
    best_chain (unat (security_param (engine_config c))) s (local_blocks c)
      (tip_chains iter (branches_of c'))"
  using receive_block_best [OF assms(1-4) receive_block_parent [OF assms(5)]] assms(5)
  by (metis outcome.inject(2))

theorem fork_choice_refines_witness:
  "\<exists>c'. receive_block sorted_list_of_set (\<lambda>_ _. 1) (sample_engine 1) 4 3 10 = Ok c' \<and>
    local_blocks c' = best_chain 1 3 (local_blocks (sample_engine 1))
      (tip_chains sorted_list_of_set (branches_of c'))"
  using fork_choice_refines [OF sample_engine_wf iterates_sorted sample_engine_s
    sample_engine_consistent] sample_engine_receives [of 1]
  by fastforce

text \<open>
  As long as no two chains fork more than \<open>k\<close> blocks deep the engine follows the longest
  chain: the selected branch is at least as long as every tip and as the previous selection.
  When one tip is strictly the longest it is the selected one, whatever the iteration order.
\<close>

theorem fork_choice_longest:
  assumes "wf_engine c" and "iterates iter" and "s_param fdiv (engine_config c) = Some s"
    and "consistent_header (genesis_id c) (branches_of c) i parent slot"
    and "receive_block iter fdiv c i parent slot = Ok c'"
    and "shallow_forks (unat (security_param (engine_config c)))
           (insert (local_blocks c) (set (tip_chains iter (branches_of c'))))"
  shows "branch_length (local_chain c) \<le> branch_length (local_chain c') \<and>
    (\<forall>t \<in> tips (branches_of c').
       branch_length (the (branch_map (branches_of c') t)) \<le> branch_length (local_chain c')) \<and>
    (\<forall>t \<in> tips (branches_of c').
       (\<forall>u \<in> tips (branches_of c') - {t}.
          branch_length (the (branch_map (branches_of c') u)) <
          branch_length (the (branch_map (branches_of c') t))) \<longrightarrow> tip c' = t)"
proof -
  obtain bs' where c': "branches_of c' = bs'" "wf_engine c'" "genesis_id c' = genesis_id c"
    "local_blocks c' = best_chain (unat (security_param (engine_config c))) s (local_blocks c)
       (tip_chains iter bs')"
    using receive_block_best [OF assms(1-4) receive_block_parent [OF assms(5)]] assms(5)
    by (metis outcome.inject(2))
  have long: "\<forall>b \<in> insert (local_blocks c) (set (tip_chains iter bs')).
      length b \<le> length (local_blocks c')"
    using best_chain_longest [OF assms(6) subset_refl, of s] c'(1,4) by simp
  have wf: "wf_branches (genesis_id c) (branches_of c)" "stored (branches_of c) (local_chain c)"
    using assms(1) by (auto simp: wf_engine_def)
  have wf': "wf_branches (genesis_id c) bs'" "stored bs' (local_chain c')" "tip c' \<in> tips bs'"
    using c' by (auto simp: wf_engine_def)
  have len': "length (local_blocks c') = Suc (branch_length (local_chain c'))"
    using length_chain [OF wf'(1,2)] c'(1) by (simp add: local_blocks_def)
  have old: "branch_length (local_chain c) \<le> branch_length (local_chain c')"
    using long len' length_chain [OF wf] by (simp add: local_blocks_def)
  have tips: "branch_length (the (branch_map bs' t)) \<le> branch_length (local_chain c')"
    if "t \<in> tips bs'" for t
    using tip_chain_mem [OF wf'(1) assms(2) that] long len' by fastforce
  have sel: "the (branch_map bs' (tip c')) = local_chain c'"
    using wf'(2) by (simp add: stored_def tip_def)
  show ?thesis
    using old tips wf'(3) sel c'(1) by (metis insertE insert_Diff leD)
qed

theorem fork_choice_longest_witness:
  "\<exists>c'. receive_block sorted_list_of_set (\<lambda>_ _. 1) (sample_engine 5) 4 3 10 = Ok c' \<and>
    2 \<le> branch_length (local_chain c') \<and>
    (\<forall>t \<in> tips (branches_of c').
       branch_length (the (branch_map (branches_of c') t)) \<le> branch_length (local_chain c'))"
proof -
  obtain c' where c': "receive_block sorted_list_of_set (\<lambda>_ _. 1) (sample_engine 5) 4 3 10 = Ok c'"
    using sample_engine_receives by blast
  have "shallow_forks 5 (insert (local_blocks (sample_engine 5))
      (set (tip_chains sorted_list_of_set (branches_of c'))))"
    by (rule sample_chains_shallow [OF c']) simp
  then show ?thesis
    using fork_choice_longest [OF sample_engine_wf iterates_sorted sample_engine_s
      sample_engine_consistent c'] c' by fastforce
qed

text \<open>
  C3. Settled blocks are final: when no chain that forks off more than \<open>k\<close> blocks below the top
  of a chain with the settled blocks is denser than it after the fork, every block of the
  local chain that is at least \<open>k\<close> blocks deep stays on it, in particular the block
  \<open>get_security_block_header_id\<close> names.
\<close>

theorem settled_blocks_final:
  assumes "wf_engine c" and "iterates iter" and "s_param fdiv (engine_config c) = Some s"
    and "consistent_header (genesis_id c) (branches_of c) i parent slot"
    and "receive_block iter fdiv c i parent slot = Ok c'"
    and "settled = take (length (local_blocks c) - unat (security_param (engine_config c)))
           (local_blocks c)"
    and "deep_forks_sparse (unat (security_param (engine_config c))) s settled
           (insert (local_blocks c) (set (tip_chains iter (branches_of c'))))"
  shows "prefix settled (local_blocks c') \<and>
    (\<forall>h. get_security_block_header_id c = Some h \<longrightarrow> h \<in> branch_id ` set (local_blocks c'))"
proof -
  let ?k = "unat (security_param (engine_config c))"
  have best: "local_blocks c' = best_chain ?k s (local_blocks c) (tip_chains iter (branches_of c'))"
    using receive_block_best [OF assms(1-4) receive_block_parent [OF assms(5)]] assms(5)
    by (metis outcome.inject(2))
  have pre: "prefix settled (local_blocks c')"
  proof (cases "?k \<le> length (local_blocks c)")
    case True
    then show ?thesis
      using best_chain_final [OF assms(7) subset_refl, of] best assms(6) by (simp add: take_is_prefix)
  qed (use assms(6) in simp)
  moreover have "h \<in> branch_id ` set settled" if "get_security_block_header_id c = Some h" for h
    using security_block_settled [OF assms(1) that] assms(6) by simp
  ultimately show ?thesis using set_mono_prefix [OF pre] by blast
qed

theorem settled_blocks_final_witness:
  "\<exists>c'. receive_block sorted_list_of_set (\<lambda>_ _. 1) (sample_engine 1) 4 3 10 = Ok c' \<and>
    prefix [genesis_branch 0, sample_branch 1 0 1 1] (local_blocks c')"
proof -
  obtain c' where c': "receive_block sorted_list_of_set (\<lambda>_ _. 1) (sample_engine 1) 4 3 10 = Ok c'"
    using sample_engine_receives by blast
  have "deep_forks_sparse 1 3 [genesis_branch 0, sample_branch 1 0 1 1]
    (insert (local_blocks (sample_engine 1)) (set (tip_chains sorted_list_of_set (branches_of c'))))"
    by (simp add: sample_chains(1) sample_chains(2) [OF c'] deep_forks_sparse_def up_to_slot_def sample_branch_def
      genesis_branch_def)
  then show ?thesis
    using settled_blocks_final [OF sample_engine_wf iterates_sorted sample_engine_s
      sample_engine_consistent c' refl] c'
    by (simp add: sample_chains(1))
qed

text \<open>
  \<open>get_security_block_header_id\<close> returns the header \<open>k\<close> blocks below the tip, and \<open>None\<close>
  exactly when the chain has fewer than \<open>k\<close> blocks above the genesis.
\<close>

theorem security_block_depth:
  assumes "wf_engine c" and "k = unat (security_param (engine_config c))"
  shows "get_security_block_header_id c =
    (if k \<le> branch_length (local_chain c)
     then Some (branch_id (local_blocks c ! (branch_length (local_chain c) - k))) else None)"
  using assms security_fold_chain [of "genesis_id c" "branches_of c" "local_chain c"]
  by (simp add: wf_engine_def get_security_block_header_id_def local_blocks_def tip_def)

theorem security_block_depth_witness:
  "get_security_block_header_id (sample_engine 1) = Some 1 \<and>
   get_security_block_header_id (sample_engine 3) = None"
  using security_block_depth [OF sample_engine_wf refl, of 1]
    security_block_depth [OF sample_engine_wf refl, of 3]
  by (simp add: sample_chains(1))

text \<open>
  A header delivered again leaves the tree as it is but becomes a tip again, although it may
  have children; the tips are then no longer the leaves, which the comment on the removal of
  the parent suggests.
\<close>

theorem repeated_header_reenters_tips:
  assumes "wf_branches g bs" and "branch_map bs i = Some b" and "i \<noteq> g"
  shows "apply_header bs i (branch_parent b) (branch_slot b) =
    Ok \<lparr>branch_map = branch_map bs, tips = insert i (tips bs - {branch_parent b})\<rparr>"
proof -
  obtain p where p: "branch_map bs (branch_parent b) = Some p"
    "branch_length b = Suc (branch_length p)"
    using wf_branchesD(4) [OF assms] by blast
  then have "(branch_map bs)(i \<mapsto> \<lparr>branch_id = i, branch_parent = branch_parent b,
      branch_slot = branch_slot b, branch_length = Suc (branch_length p)\<rparr>) = branch_map bs"
    using wf_branchesD(3) [OF assms(1,2)] assms(2) by (intro ext) (cases b, auto)
  then show ?thesis using p by (simp add: apply_header_def)
qed

theorem repeated_header_reenters_tips_witness:
  "\<exists>bs. apply_header sample_store 1 0 1 = Ok bs \<and> 1 \<in> tips bs \<and>
    branch_map bs 2 = Some (sample_branch 2 1 2 2)"
  using repeated_header_reenters_tips [of 0 sample_store 1 "sample_branch 1 0 1 1"] sample_engine_wf
  by (simp add: wf_engine_def) (simp add: sample_store_def)

end
