(* ===== verification/Merkle.thy ===== *)
theory Merkle
  imports Prelude
begin

text \<open>
  The Merkle tree of the common ledger, \<open>nomos-core/cl/src/merkle.rs\<close>. SHA-256 is a parameter
  \<open>H\<close>; arrays \<open>[T; N]\<close> are lists of length \<open>N\<close>. The loops overwrite the front of the array in
  place, as the source does; \<open>None\<close> is a failed \<open>assert!\<close>.

  The lemmas relate the loops to the tree of layers (\<open>layer\<close>, \<open>layers_root\<close>): the root the loop
  leaves in the first cell is the root of the tree, a path leads from its leaf to the root, and
  only from it when \<open>H\<close> does not collide on what was hashed.
\<close>

type_synonym hash = "bytes \<Rightarrow> bytes"

definition leaf :: "hash \<Rightarrow> bytes \<Rightarrow> bytes" where
  "leaf H d = H (ascii ''NOMOS_MERKLE_LEAF'' @ d)"

definition node_input :: "bytes \<Rightarrow> bytes \<Rightarrow> bytes" where
  "node_input a b = ascii ''NOMOS_MERKLE_NODE'' @ a @ b"

definition node :: "hash \<Rightarrow> bytes \<Rightarrow> bytes \<Rightarrow> bytes" where
  "node H a b = H (node_input a b)"

definition padded_leaves :: "hash \<Rightarrow> nat \<Rightarrow> bytes list \<Rightarrow> bytes list option" where
  "padded_leaves H N elements =
     (if length elements \<le> N
      then Some (map (leaf H) elements @ replicate (N - length elements) (replicate 32 0))
      else None)"

fun ilog2 :: "nat \<Rightarrow> nat" where
  "ilog2 n = (if n < 2 then 0 else Suc (ilog2 (n div 2)))"

declare ilog2.simps [simp del]

definition is_power_of_two :: "nat \<Rightarrow> bool" where
  "is_power_of_two n \<longleftrightarrow> 2 ^ ilog2 n = n"

text \<open>The inner loop \<open>for i in 0..m { nodes[i] = node(nodes[2i], nodes[2i + 1]) }\<close>.\<close>

definition combine_pairs :: "hash \<Rightarrow> nat \<Rightarrow> bytes list \<Rightarrow> bytes list" where
  "combine_pairs H m nodes =
     foldl (\<lambda>ns i. ns[i := node H (ns ! (i * 2)) (ns ! (i * 2 + 1))]) nodes [0..<m]"

fun root_loop :: "hash \<Rightarrow> nat \<Rightarrow> bytes list \<Rightarrow> bytes list" where
  "root_loop H 0 nodes = nodes"
| "root_loop H (Suc h) nodes = root_loop H h (combine_pairs H (2 ^ h) nodes)"

definition root :: "hash \<Rightarrow> bytes list \<Rightarrow> bytes option" where
  "root H elements =
     (let n = length elements in
      if is_power_of_two n then Some (root_loop H (ilog2 n) elements ! 0) else None)"

datatype path_node = PathLeft bytes | PathRight bytes

fun path_root :: "hash \<Rightarrow> bytes \<Rightarrow> path_node list \<Rightarrow> bytes" where
  "path_root H computed [] = computed"
| "path_root H computed (PathLeft sibling # path) = path_root H (node H sibling computed) path"
| "path_root H computed (PathRight sibling # path) = path_root H (node H computed sibling) path"

fun path_loop :: "hash \<Rightarrow> nat \<Rightarrow> bytes list \<Rightarrow> nat \<Rightarrow> path_node list" where
  "path_loop H 0 nodes idx = []"
| "path_loop H (Suc h) nodes idx =
     (if idx mod 2 = 0 then PathRight (nodes ! (idx + 1)) else PathLeft (nodes ! (idx - 1))) #
     path_loop H h (combine_pairs H (2 ^ h) nodes) (idx div 2)"

definition merkle_path :: "hash \<Rightarrow> bytes list \<Rightarrow> nat \<Rightarrow> path_node list option" where
  "merkle_path H leaves idx =
     (let N = length leaves in
      if is_power_of_two N \<and> idx < N then Some (path_loop H (ilog2 N) leaves idx) else None)"

section \<open>The tree of layers\<close>

definition layer :: "hash \<Rightarrow> bytes list \<Rightarrow> bytes list" where
  "layer H xs = map (\<lambda>i. node H (xs ! (i * 2)) (xs ! (i * 2 + 1))) [0..<length xs div 2]"

fun layers_root :: "hash \<Rightarrow> nat \<Rightarrow> bytes list \<Rightarrow> bytes" where
  "layers_root H 0 xs = xs ! 0"
| "layers_root H (Suc h) xs = layers_root H h (layer H xs)"

text \<open>What is hashed on the way to the root, and along a path.\<close>

fun tree_inputs :: "hash \<Rightarrow> nat \<Rightarrow> bytes list \<Rightarrow> bytes set" where
  "tree_inputs H 0 xs = {}"
| "tree_inputs H (Suc h) xs =
     (\<lambda>i. node_input (xs ! (i * 2)) (xs ! (i * 2 + 1))) ` {..<length xs div 2} \<union>
     tree_inputs H h (layer H xs)"

fun path_inputs :: "hash \<Rightarrow> bytes \<Rightarrow> path_node list \<Rightarrow> bytes set" where
  "path_inputs H c [] = {}"
| "path_inputs H c (PathLeft s # p) = insert (node_input s c) (path_inputs H (node H s c) p)"
| "path_inputs H c (PathRight s # p) = insert (node_input c s) (path_inputs H (node H c s) p)"

text \<open>The position a path leads from: its directions are the bits of the index.\<close>

fun path_index :: "path_node list \<Rightarrow> nat" where
  "path_index [] = 0"
| "path_index (PathLeft s # p) = Suc (2 * path_index p)"
| "path_index (PathRight s # p) = 2 * path_index p"

fun sibling :: "path_node \<Rightarrow> bytes" where
  "sibling (PathLeft s) = s"
| "sibling (PathRight s) = s"

lemma ilog2_exp [simp]: "ilog2 (2 ^ k) = k"
proof (induction k)
  case (Suc k)
  then show ?case by (subst ilog2.simps) auto
qed (simp add: ilog2.simps)

lemma is_power_of_two_exp [simp]: "is_power_of_two (2 ^ k)"
  by (simp add: is_power_of_two_def)

lemma is_power_of_two_iff: "is_power_of_two n \<longleftrightarrow> (\<exists>k. n = 2 ^ k)"
  by (metis is_power_of_two_def is_power_of_two_exp)

lemma length_combine_pairs [simp]: "length (combine_pairs H m xs) = length xs"
  unfolding combine_pairs_def by (induction m) auto

lemma combine_pairs_nth:
  assumes "2 * m \<le> length xs"
  shows "i < length xs \<Longrightarrow> combine_pairs H m xs ! i =
    (if i < m then node H (xs ! (i * 2)) (xs ! (i * 2 + 1)) else xs ! i)"
  using assms
proof (induction m arbitrary: i)
  case 0
  then show ?case by (simp add: combine_pairs_def)
next
  case (Suc m)
  let ?ns = "combine_pairs H m xs"
  have step: "combine_pairs H (Suc m) xs = ?ns[m := node H (?ns ! (m * 2)) (?ns ! (m * 2 + 1))]"
    by (simp add: combine_pairs_def)
  have "?ns ! (m * 2) = xs ! (m * 2)" "?ns ! (m * 2 + 1) = xs ! (m * 2 + 1)"
    using Suc.IH [of "m * 2"] Suc.IH [of "m * 2 + 1"] Suc.prems(2)
    by (cases m; simp add: combine_pairs_def)+
  then show ?case
    using Suc.IH [of i] Suc.prems by (auto simp: step nth_list_update)
qed

lemma layer_take:
  assumes "2 ^ Suc h \<le> length xs"
  shows "take (2 ^ h) (combine_pairs H (2 ^ h) xs) = layer H (take (2 ^ Suc h) xs)"
  using assms by (intro nth_equalityI) (auto simp: layer_def combine_pairs_nth min_def)

lemma length_layer [simp]: "length (layer H xs) = length xs div 2"
  by (simp add: layer_def)

lemma layer_nth: "i < length xs div 2 \<Longrightarrow>
    layer H xs ! i = node H (xs ! (i * 2)) (xs ! (i * 2 + 1))"
  by (simp add: layer_def)

lemma root_loop_layers:
  "2 ^ h \<le> length xs \<Longrightarrow> root_loop H h xs ! 0 = layers_root H h (take (2 ^ h) xs)"
proof (induction h arbitrary: xs)
  case 0
  then show ?case by (cases xs) auto
next
  case (Suc h)
  then show ?case using layer_take [of h xs H] by simp
qed

lemma path_loop_layers:
  "2 ^ h \<le> length xs \<Longrightarrow> idx < 2 ^ h \<Longrightarrow>
     path_root H (xs ! idx) (path_loop H h xs idx) = layers_root H h (take (2 ^ h) xs)"
proof (induction h arbitrary: xs idx)
  case 0
  then show ?case by (cases xs) auto
next
  case (Suc h)
  let ?c = "combine_pairs H (2 ^ h) xs"
  have len: "2 * 2 ^ h \<le> length xs" using Suc.prems(1) by simp
  have idx: "idx div 2 < 2 ^ h" using Suc.prems(2) by (simp add: less_mult_imp_div_less)
  have up: "?c ! (idx div 2) = node H (xs ! (idx div 2 * 2)) (xs ! (idx div 2 * 2 + 1))"
    using combine_pairs_nth [OF len, of "idx div 2" H] idx len by (simp add: order_less_le_trans)
  have "path_root H (?c ! (idx div 2)) (path_loop H h ?c (idx div 2)) =
      layers_root H h (take (2 ^ h) ?c)"
    using Suc.IH [of ?c "idx div 2"] len idx by simp
  moreover have "path_root H (xs ! idx) (path_loop H (Suc h) xs idx) =
      path_root H (?c ! (idx div 2)) (path_loop H h ?c (idx div 2))"
  proof (cases "idx mod 2 = 0")
    case True
    then have "idx div 2 * 2 = idx" by presburger
    then show ?thesis using True up by simp
  next
    case False
    then have "idx div 2 * 2 + 1 = idx" "idx div 2 * 2 = idx - 1" by presburger+
    then show ?thesis using False up by simp
  qed
  ultimately show ?case using layer_take [of h xs H] Suc.prems(1) by simp
qed

lemma root_eq_layers: "length xs = 2 ^ k \<Longrightarrow> root H xs = Some (layers_root H k xs)"
  using root_loop_layers [of k xs H] by (simp add: root_def)

lemma path_exists:
  assumes "is_power_of_two (length leaves)" and "idx < length leaves"
  shows "\<exists>p. merkle_path H leaves idx = Some p \<and> root H leaves = Some (path_root H (leaves ! idx) p)"
proof -
  obtain k where k: "length leaves = 2 ^ k" using assms(1) by (auto simp: is_power_of_two_iff)
  then show ?thesis
    using assms(2) root_eq_layers [OF k] path_loop_layers [of k leaves idx H]
    by (auto simp: merkle_path_def)
qed

lemma path_index_bound: "path_index p < 2 ^ length p"
  by (induction p rule: path_index.induct) auto

lemma path_index_path_loop: "idx < 2 ^ h \<Longrightarrow> path_index (path_loop H h xs idx) = idx"
proof (induction h arbitrary: xs idx)
  case (Suc h)
  then have "idx div 2 < 2 ^ h" by (simp add: less_mult_imp_div_less)
  then show ?case using Suc.IH by simp presburger
qed simp

lemma length_path_loop [simp]: "length (path_loop H h xs idx) = h"
  by (induction h arbitrary: xs idx) auto

lemma node_input_inject:
  "length a = length a' \<Longrightarrow> node_input a b = node_input a' b' \<longleftrightarrow> a = a' \<and> b = b'"
  by (simp add: node_input_def)

lemma path_binds:
  assumes "\<And>x. length (H x) = 32"
  shows "length xs = 2 ^ length p \<Longrightarrow> \<forall>x \<in> set xs. length x = 32 \<Longrightarrow> length l = 32 \<Longrightarrow>
    \<forall>n \<in> set p. length (sibling n) = 32 \<Longrightarrow>
    inj_on H (tree_inputs H (length p) xs \<union> path_inputs H l p) \<Longrightarrow>
    path_root H l p = layers_root H (length p) xs \<Longrightarrow> l = xs ! path_index p"
proof (induction p arbitrary: xs l)
  case Nil
  then show ?case by simp
next
  case (Cons n p)
  let ?i = "path_index p"
  have i: "?i < length xs div 2" using path_index_bound [of p] Cons.prems(1) by simp
  then have mem: "node_input (xs ! (?i * 2)) (xs ! (?i * 2 + 1)) \<in> tree_inputs H (length (n # p)) xs"
    by auto
  have len: "length (xs ! (?i * 2)) = 32" using Cons.prems(2) i by simp
  obtain a b where ab: "path_root H l (n # p) = path_root H (node H a b) p"
    "path_inputs H l (n # p) = insert (node_input a b) (path_inputs H (node H a b) p)"
    "length a = 32" "(n = PathLeft a \<and> b = l) \<or> (n = PathRight b \<and> a = l)"
    using Cons.prems(3,4) by (cases n) auto
  have layer: "length (layer H xs) = 2 ^ length p" "\<forall>x \<in> set (layer H xs). length x = 32"
    using Cons.prems(1) assms by (auto simp: layer_def node_def)
  have inj: "inj_on H (tree_inputs H (length p) (layer H xs) \<union> path_inputs H (node H a b) p)"
    using Cons.prems(5) ab(2) by (auto elim!: inj_on_subset)
  have sib: "\<forall>n \<in> set p. length (sibling n) = 32" using Cons.prems(4) by simp
  have root: "path_root H (node H a b) p = layers_root H (length p) (layer H xs)"
    using Cons.prems(6) ab(1) by simp
  have nlen: "length (node H a b) = 32" using assms by (simp add: node_def)
  have "node H a b = layer H xs ! ?i"
    by (rule Cons.IH [OF layer nlen sib inj root])
  then have "H (node_input a b) = H (node_input (xs ! (?i * 2)) (xs ! (?i * 2 + 1)))"
    using i by (simp add: layer_nth node_def)
  then have "node_input a b = node_input (xs ! (?i * 2)) (xs ! (?i * 2 + 1))"
    using Cons.prems(5) mem ab(2) by (auto dest: inj_onD)
  then have "a = xs ! (?i * 2)" "b = xs ! (?i * 2 + 1)"
    using node_input_inject ab(3) len by metis+
  then show ?case using ab(4) by (auto simp: mult.commute)
qed

text \<open>Paths of any length: the nodes some layers up, and the part of a path above its first steps.\<close>

lemma layers_root_funpow: "layers_root H (n + h) xs = layers_root H h ((layer H ^^ n) xs)"
  by (induction n arbitrary: xs) (simp_all add: funpow_swap1)

lemma length_layers: "length xs = 2 ^ (n + h) \<Longrightarrow> length ((layer H ^^ n) xs) = 2 ^ h"
proof (induction n arbitrary: xs)
  case (Suc n)
  then show ?case using Suc.IH [of "layer H xs"] by (simp add: funpow_swap1)
qed simp

lemma layers_hashes:
  assumes "\<And>x. length (H x) = 32" and "\<forall>x \<in> set xs. length x = 32"
  shows "\<forall>x \<in> set ((layer H ^^ n) xs). length x = 32"
proof (cases n)
  case (Suc m)
  then show ?thesis using assms(1) by (auto simp: layer_def node_def)
qed (use assms(2) in simp)

lemma tree_inputs_layers: "tree_inputs H h ((layer H ^^ n) xs) \<subseteq> tree_inputs H (n + h) xs"
  by (induction n arbitrary: xs) (auto simp: funpow_swap1)

lemma path_root_append: "path_root H l (p @ q) = path_root H (path_root H l p) q"
  by (induction H l p rule: path_root.induct) simp_all

lemma path_inputs_append: "path_inputs H l (p @ q) = path_inputs H l p \<union> path_inputs H (path_root H l p) q"
  by (induction H l p rule: path_root.induct) simp_all

lemma length_path_root: "(\<And>x. length (H x) = 32) \<Longrightarrow> length l = 32 \<Longrightarrow> length (path_root H l p) = 32"
  by (induction H l p rule: path_root.induct) (simp_all add: node_def)

text \<open>A path that is not longer than the tree is deep leads from a node of the tree.\<close>

lemma short_path_binds:
  assumes "\<And>x. length (H x) = 32" and "length xs = 2 ^ d" and "\<forall>x \<in> set xs. length x = 32" and "length l = 32"
    and "\<forall>n \<in> set p. length (sibling n) = 32" and "inj_on H (tree_inputs H d xs \<union> path_inputs H l p)"
    and "path_root H l p = layers_root H d xs" and "length p \<le> d"
  shows "l = (layer H ^^ (d - length p)) xs ! path_index p"
proof (rule path_binds [OF assms(1)])
  let ?n = "d - length p"
  have d: "?n + length p = d" using assms(8) by simp
  show "length ((layer H ^^ ?n) xs) = 2 ^ length p" by (rule length_layers) (simp add: d assms(2))
  show "\<forall>x \<in> set ((layer H ^^ ?n) xs). length x = 32" by (rule layers_hashes [OF assms(1,3)])
  show "inj_on H (tree_inputs H (length p) ((layer H ^^ ?n) xs) \<union> path_inputs H l p)"
    using tree_inputs_layers [of H "length p" ?n xs] by (intro inj_on_subset [OF assms(6)]) (auto simp: d)
  show "path_root H l p = layers_root H (length p) ((layer H ^^ ?n) xs)"
    using layers_root_funpow [of H ?n "length p" xs] assms(7) by (simp add: d)
qed (use assms(4,5) in simp_all)

section \<open>Properties\<close>

text \<open>
  C13. Completeness of Merkle proofs: for every array whose length is a power of two and every
  index in it, \<open>path\<close> returns a path, and \<open>path_root\<close> of the leaf along it is the \<open>root\<close>.
\<close>

theorem path_verifies:
  assumes "is_power_of_two (length leaves)" and "idx < length leaves"
  shows "\<exists>p. merkle_path H leaves idx = Some p \<and> root H leaves = Some (path_root H (leaves ! idx) p)"
  using assms by (rule path_exists)

theorem path_verifies_witness:
  "\<exists>p. merkle_path id [[1], [2], [3], [4]] 2 = Some p \<and>
    root id [[1], [2], [3], [4]] = Some (path_root id [3] p)"
  using path_verifies [of "[[1], [2], [3], [4]]" 2 id]
    is_power_of_two_exp [of 2] by (simp add: numeral_eq_Suc)

text \<open>
  C14. Soundness of Merkle proofs, for a path of any length, as \<open>path_root\<close> does not check it. Unless
  the hash collides on two of the inputs of the tree and of the path, a path to the root of a tree
  of depth \<open>d\<close> starts where its directions say: a path of length \<open>d\<close> at the leaf with the index its
  directions spell out; a shorter one at an inner node, with that index in its layer; and a longer
  one passes through the leaf that its last \<open>d\<close> steps name.
\<close>

theorem path_sound:
  assumes "\<And>x. length (H x) = 32" and "length leaves = 2 ^ d"
    and "\<forall>x \<in> set leaves. length x = 32" and "length l = 32"
    and "\<forall>n \<in> set p. length (sibling n) = 32"
    and "inj_on H (tree_inputs H d leaves \<union> path_inputs H l p)"
    and "root H leaves = Some (path_root H l p)"
  shows "(length p = d \<longrightarrow> path_index p < length leaves \<and> l = leaves ! path_index p) \<and>
    (length p < d \<longrightarrow> l = (layer H ^^ (d - length p)) leaves ! path_index p) \<and>
    (d < length p \<longrightarrow> path_root H l (take (length p - d) p) = leaves ! path_index (drop (length p - d) p))"
proof (intro conjI impI)
  have r: "path_root H l p = layers_root H d leaves" using assms(7) root_eq_layers [OF assms(2)] by simp
  note short = short_path_binds [OF assms(1-6) r]
  show "path_index p < length leaves" if "length p = d" using path_index_bound [of p] that assms(2) by simp
  show "l = leaves ! path_index p" if "length p = d" using short that by simp
  show "l = (layer H ^^ (d - length p)) leaves ! path_index p" if "length p < d" using short that by simp
  assume long: "d < length p"
  let ?p = "take (length p - d) p" and ?q = "drop (length p - d) p"
  have split: "path_root H l p = path_root H (path_root H l ?p) ?q"
    "path_inputs H l p = path_inputs H l ?p \<union> path_inputs H (path_root H l ?p) ?q"
    using path_root_append [of H l ?p ?q] path_inputs_append [of H l ?p ?q] by simp_all
  have q: "length ?q = d" using long by simp
  have sib: "\<forall>n \<in> set ?q. length (sibling n) = 32" using assms(5) by (auto dest: in_set_dropD)
  have inj: "inj_on H (tree_inputs H d leaves \<union> path_inputs H (path_root H l ?p) ?q)"
    by (rule inj_on_subset [OF assms(6)]) (auto simp: split(2))
  show "path_root H l ?p = leaves ! path_index ?q"
    using short_path_binds [OF assms(1-3) length_path_root [OF assms(1,4)] sib inj] r q split(1) by simp
qed

text \<open>The root of two leaves, with the path from the second one and the empty path from the root itself.\<close>

theorem path_sound_witness:
  "let H = \<lambda>x :: bytes. take 32 (drop 17 x @ replicate 32 0);
       leaves = [replicate 32 1, replicate 32 2]; l = replicate 32 2; p = [PathLeft (replicate 32 1)] in
   root H leaves = Some (path_root H l p) \<and> l = leaves ! path_index p \<and>
   root H leaves = Some (path_root H (node H (leaves ! 0) (leaves ! 1)) []) \<and>
   node H (leaves ! 0) (leaves ! 1) = (layer H ^^ 1) leaves ! path_index []"
proof -
  let ?H = "\<lambda>x :: bytes. take 32 (drop 17 x @ replicate 32 0)"
  let ?leaves = "[replicate 32 1, replicate 32 2] :: bytes list" and ?p = "[PathLeft (replicate 32 1)]"
  let ?top = "node ?H (?leaves ! 0) (?leaves ! 1)"
  have len: "length (?H x) = 32" for x by simp
  have root: "root ?H ?leaves = Some ?top"
    using root_eq_layers [of ?leaves 1 ?H] by (simp add: layer_def)
  have one: "replicate 32 2 = ?leaves ! path_index ?p"
    using path_sound [of ?H ?leaves 1 "replicate 32 2" ?p] root len by (simp add: layer_def)
  have top: "?top = (layer ?H ^^ 1) ?leaves ! path_index []"
    using path_sound [of ?H ?leaves 1 ?top "[]"] root len by (simp add: layer_def node_def)
  show ?thesis unfolding Let_def using root one top by simp
qed

end
