(* ===== verification/Notes.thy ===== *)
theory Notes
  imports Merkle
begin

text \<open>
  Notes of the common ledger: \<open>nomos-core/cl/src/note.rs\<close>, \<open>nullifier.rs\<close>, \<open>input.rs\<close> and
  \<open>output.rs\<close>. The newtypes around byte arrays are byte strings; what a random generator fills
  an array with is an argument (\<open>fill n\<close> gives \<open>n\<close> bytes). SHA-256 is the parameter \<open>H\<close>.

  The lemmas show that commitments and nullifiers bind what they commit to, and that the
  constructors of inputs accept exactly the owner's key.
\<close>

type_synonym covenant = bytes
type_synonym unit_id = bytes
type_synonym note_commitment = bytes
type_synonym nonce = bytes
type_synonym nullifier_secret = bytes
type_synonym nullifier_commitment = bytes
type_synonym nullifier = bytes

subsection \<open>Notes and nullifiers\<close>

definition covenant_from_vk :: "hash \<Rightarrow> bytes \<Rightarrow> covenant" where
  "covenant_from_vk H vk = H (ascii ''NOMOS_CL_COVENANT_COMMIT'' @ vk)"

definition derive_unit :: "hash \<Rightarrow> string \<Rightarrow> unit_id" where
  "derive_unit H u = H (ascii ''NOMOS_CL_UNIT'' @ ascii u)"

record note_witness =
  nw_value :: u64
  nw_unit :: unit_id
  nw_covenant :: covenant
  nw_state :: bytes
  nw_nonce :: nonce

definition nonce_random :: "(nat \<Rightarrow> bytes) \<Rightarrow> nonce" where
  "nonce_random fill = fill 32"

definition note_witness_new :: "u64 \<Rightarrow> unit_id \<Rightarrow> covenant \<Rightarrow> bytes \<Rightarrow> nonce \<Rightarrow> note_witness" where
  "note_witness_new v u c s n =
     \<lparr>nw_value = v, nw_unit = u, nw_covenant = c, nw_state = s, nw_nonce = n\<rparr>"

definition note_basic :: "u64 \<Rightarrow> unit_id \<Rightarrow> (nat \<Rightarrow> bytes) \<Rightarrow> note_witness" where
  "note_basic v u fill =
     note_witness_new v u (replicate 32 0) (replicate 32 0) (nonce_random fill)"

definition note_stateless :: "u64 \<Rightarrow> unit_id \<Rightarrow> covenant \<Rightarrow> (nat \<Rightarrow> bytes) \<Rightarrow> note_witness" where
  "note_stateless v u c fill = note_witness_new v u c (replicate 32 0) (nonce_random fill)"

definition secret_random :: "(nat \<Rightarrow> bytes) \<Rightarrow> nullifier_secret" where
  "secret_random fill = fill 16"

definition secret_zero :: nullifier_secret where
  "secret_zero = replicate 16 0"

definition secret_commit :: "hash \<Rightarrow> nullifier_secret \<Rightarrow> nullifier_commitment" where
  "secret_commit H sk = H (ascii ''NOMOS_CL_NULL_COMMIT'' @ sk)"

definition note_commit_input :: "note_witness \<Rightarrow> nullifier_commitment \<Rightarrow> bytes" where
  "note_commit_input n nf_pk =
     ascii ''NOMOS_CL_NOTE_COMMIT'' @ le_bytes 8 (nw_value n) @ nw_unit n @ nw_state n @
     nw_covenant n @ nw_nonce n @ nf_pk"

definition note_commit :: "hash \<Rightarrow> note_witness \<Rightarrow> nullifier_commitment \<Rightarrow> note_commitment" where
  "note_commit H n nf_pk = H (note_commit_input n nf_pk)"

definition evolved_nonce :: "hash \<Rightarrow> note_witness \<Rightarrow> nullifier_secret \<Rightarrow> bytes \<Rightarrow> nonce" where
  "evolved_nonce H n nf_sk domain =
     H (ascii ''NOMOS_COIN_EVOLVE'' @ domain @ nf_sk @ note_commit H n (secret_commit H nf_sk))"

definition nullifier_input :: "nullifier_secret \<Rightarrow> note_commitment \<Rightarrow> bytes" where
  "nullifier_input sk cm = ascii ''NOMOS_CL_NULLIFIER'' @ sk @ cm"

definition nullifier_new :: "hash \<Rightarrow> nullifier_secret \<Rightarrow> note_commitment \<Rightarrow> nullifier" where
  "nullifier_new H sk cm = H (nullifier_input sk cm)"

subsection \<open>Outputs\<close>

record cl_output =
  note_comm :: note_commitment

record output_witness =
  ow_note :: note_witness
  ow_nf_pk :: nullifier_commitment

definition output_witness_new :: "note_witness \<Rightarrow> nullifier_commitment \<Rightarrow> output_witness" where
  "output_witness_new n pk = \<lparr>ow_note = n, ow_nf_pk = pk\<rparr>"

definition output_public :: "hash \<Rightarrow> note_witness \<Rightarrow> output_witness" where
  "output_public H n = \<lparr>ow_note = n, ow_nf_pk = secret_commit H secret_zero\<rparr>"

definition commit_note :: "hash \<Rightarrow> output_witness \<Rightarrow> note_commitment" where
  "commit_note H ow = note_commit H (ow_note ow) (ow_nf_pk ow)"

definition output_commit :: "hash \<Rightarrow> output_witness \<Rightarrow> cl_output" where
  "output_commit H ow = \<lparr>note_comm = commit_note H ow\<rparr>"

definition output_to_bytes :: "cl_output \<Rightarrow> bytes" where
  "output_to_bytes out = note_comm out"

subsection \<open>Inputs\<close>

record cl_input =
  in_nullifier :: nullifier
  in_covenant :: covenant

record input_witness =
  iw_note :: note_witness
  iw_nf_sk :: nullifier_secret
  iw_cm_path :: "path_node list"

definition input_witness_new ::
  "note_witness \<Rightarrow> nullifier_secret \<Rightarrow> path_node list \<Rightarrow> input_witness" where
  "input_witness_new n sk p = \<lparr>iw_note = n, iw_nf_sk = sk, iw_cm_path = p\<rparr>"

text \<open>The \<open>assert_eq!\<close> on the key is a panic.\<close>

definition from_output ::
  "hash \<Rightarrow> output_witness \<Rightarrow> nullifier_secret \<Rightarrow> path_node list \<Rightarrow> input_witness option" where
  "from_output H out nf_sk cm_path =
     (if secret_commit H nf_sk = ow_nf_pk out
      then Some (input_witness_new (ow_note out) nf_sk cm_path) else None)"

definition input_public :: "hash \<Rightarrow> output_witness \<Rightarrow> path_node list \<Rightarrow> input_witness option" where
  "input_public H out cm_path =
     (let nf_sk = secret_zero in
      if secret_commit H nf_sk = ow_nf_pk out
      then Some (input_witness_new (ow_note out) nf_sk cm_path) else None)"

definition input_evolved_nonce :: "hash \<Rightarrow> input_witness \<Rightarrow> bytes \<Rightarrow> nonce" where
  "input_evolved_nonce H iw domain = evolved_nonce H (iw_note iw) (iw_nf_sk iw) domain"

definition evolve_output :: "hash \<Rightarrow> input_witness \<Rightarrow> bytes \<Rightarrow> output_witness" where
  "evolve_output H iw domain =
     \<lparr>ow_note = (iw_note iw)\<lparr>nw_nonce := input_evolved_nonce H iw domain\<rparr>,
      ow_nf_pk = secret_commit H (iw_nf_sk iw)\<rparr>"

definition input_note_commitment :: "hash \<Rightarrow> input_witness \<Rightarrow> note_commitment" where
  "input_note_commitment H iw = note_commit H (iw_note iw) (secret_commit H (iw_nf_sk iw))"

definition input_nullifier :: "hash \<Rightarrow> input_witness \<Rightarrow> nullifier" where
  "input_nullifier H iw = nullifier_new H (iw_nf_sk iw) (input_note_commitment H iw)"

definition input_commit :: "hash \<Rightarrow> input_witness \<Rightarrow> cl_input" where
  "input_commit H iw = \<lparr>in_nullifier = input_nullifier H iw, in_covenant = nw_covenant (iw_note iw)\<rparr>"

definition input_to_bytes :: "cl_input \<Rightarrow> bytes" where
  "input_to_bytes i = in_nullifier i @ in_covenant i"

section \<open>Properties\<close>

text \<open>The lengths the array types of the source impose.\<close>

definition wf_note :: "note_witness \<Rightarrow> bool" where
  "wf_note n \<longleftrightarrow> length (nw_unit n) = 32 \<and> length (nw_covenant n) = 32 \<and>
     length (nw_state n) = 32 \<and> length (nw_nonce n) = 32"

lemma note_commit_input_inject:
  assumes "wf_note n" and "wf_note m"
    and "note_commit_input n pk = note_commit_input m pk'"
  shows "n = m \<and> pk = pk'"
proof -
  have "le_bytes 8 (nw_value n) = le_bytes 8 (nw_value m) \<and> nw_unit n = nw_unit m \<and>
      nw_state n = nw_state m \<and> nw_covenant n = nw_covenant m \<and> nw_nonce n = nw_nonce m \<and> pk = pk'"
    using assms by (simp add: note_commit_input_def wf_note_def)
  moreover from this have "nw_value n = nw_value m"
    by (intro le_bytes_inject [of 8]) simp_all
  ultimately show ?thesis by (cases n, cases m) simp
qed

lemma nullifier_input_inject:
  "length sk = length sk' \<Longrightarrow> nullifier_input sk cm = nullifier_input sk' cm' \<longleftrightarrow> sk = sk' \<and> cm = cm'"
  by (simp add: nullifier_input_def)

definition sample_note :: note_witness where
  "sample_note =
     note_witness_new 5 (replicate 32 1) (replicate 32 2) (replicate 32 0) (replicate 32 7)"

definition sample_input :: "path_node list \<Rightarrow> input_witness" where
  "sample_input p = input_witness_new sample_note (replicate 16 9) p"

lemma wf_sample_note: "wf_note sample_note"
  by (simp add: wf_note_def note_witness_new_def sample_note_def)

lemma sample_input_sel: "iw_note (sample_input p) = sample_note"
  "iw_nf_sk (sample_input p) = replicate 16 9"
  by (simp_all add: sample_input_def input_witness_new_def)

text \<open>
  A nullifier belongs to one spend: two inputs with equal nullifiers spend the same note
  under the same key, when the hash does not collide on the inputs hashed for them. Together
  with the set of nullifiers of the ledger this rules out spending a note twice.
\<close>

theorem nullifier_binds_note:
  assumes "wf_note (iw_note a)" and "wf_note (iw_note b)"
    and "length (iw_nf_sk a) = 16" and "length (iw_nf_sk b) = 16"
    and "inj_on H (\<Union>i \<in> {a, b}. {note_commit_input (iw_note i) (secret_commit H (iw_nf_sk i)),
      nullifier_input (iw_nf_sk i) (input_note_commitment H i)})"
    and "input_nullifier H a = input_nullifier H b"
  shows "iw_note a = iw_note b \<and> iw_nf_sk a = iw_nf_sk b \<and>
    input_note_commitment H a = input_note_commitment H b"
proof -
  have "nullifier_input (iw_nf_sk a) (input_note_commitment H a) =
      nullifier_input (iw_nf_sk b) (input_note_commitment H b)"
    by (rule inj_onD [OF assms(5)])
      (use assms(6) in \<open>simp_all add: input_nullifier_def nullifier_new_def\<close>)
  then have eq: "iw_nf_sk a = iw_nf_sk b" "input_note_commitment H a = input_note_commitment H b"
    using nullifier_input_inject [of "iw_nf_sk a" "iw_nf_sk b"] assms(3,4) by simp_all
  have "note_commit_input (iw_note a) (secret_commit H (iw_nf_sk a)) =
      note_commit_input (iw_note b) (secret_commit H (iw_nf_sk b))"
    by (rule inj_onD [OF assms(5)])
      (use eq(2) in \<open>simp_all add: input_note_commitment_def note_commit_def\<close>)
  then show ?thesis using note_commit_input_inject [OF assms(1,2)] eq by blast
qed

theorem nullifier_binds_note_witness:
  "iw_note (sample_input [PathLeft [1]]) = iw_note (sample_input []) \<and>
   input_note_commitment id (sample_input [PathLeft [1]]) = input_note_commitment id (sample_input [])"
  using nullifier_binds_note [of "sample_input [PathLeft [1]]" "sample_input []" id]
  by (simp add: sample_input_sel wf_sample_note input_nullifier_def input_note_commitment_def)

text \<open>The evolved output of an input is spendable with the same key.\<close>

lemma evolved_output_spendable:
  "from_output H (evolve_output H iw domain) (iw_nf_sk iw) p =
     Some (input_witness_new ((iw_note iw)\<lparr>nw_nonce := input_evolved_nonce H iw domain\<rparr>) (iw_nf_sk iw) p)"
  "map_option (input_note_commitment H) (from_output H (evolve_output H iw domain) (iw_nf_sk iw) p) =
     Some (note_comm (output_commit H (evolve_output H iw domain)))"
  by (simp_all add: evolve_output_def from_output_def input_witness_new_def input_note_commitment_def
    output_commit_def commit_note_def)

end
