(* ===== verification/Note_Tree.thy ===== *)
theory Note_Tree
  imports Notes
begin

text \<open>
  The tree of note commitments of the ledger, \<open>ledger/nomos-ledger/src/notetree.rs\<close>: the list of
  commitments and the set of roots it ever had. \<open>None\<close> is the panic of \<open>padded_leaves\<close> when the
  tree is full.
\<close>

definition MAX_NOTE_COMMS :: nat where
  "MAX_NOTE_COMMS = 2 ^ 14"

record note_tree =
  nt_commitments :: "note_commitment list"
  nt_roots :: "bytes set"

definition note_tree_default :: note_tree where
  "note_tree_default = \<lparr>nt_commitments = [], nt_roots = {}\<rparr>"

definition note_commitment_leaves :: "hash \<Rightarrow> note_commitment list \<Rightarrow> bytes list option" where
  "note_commitment_leaves H cs = padded_leaves H MAX_NOTE_COMMS cs"

definition note_tree_insert :: "hash \<Rightarrow> note_tree \<Rightarrow> note_commitment \<Rightarrow> note_tree option" where
  "note_tree_insert H t cm =
     (let cs = nt_commitments t @ [cm] in
      Option.bind (note_commitment_leaves H cs) (\<lambda>leaves.
      Option.bind (root H leaves) (\<lambda>r.
        Some \<lparr>nt_commitments = cs, nt_roots = insert r (nt_roots t)\<rparr>)))"

definition note_tree_root :: "hash \<Rightarrow> note_tree \<Rightarrow> bytes option" where
  "note_tree_root H t = Option.bind (note_commitment_leaves H (nt_commitments t)) (root H)"

definition is_valid_root :: "note_tree \<Rightarrow> bytes \<Rightarrow> bool" where
  "is_valid_root t r \<longleftrightarrow> r \<in> nt_roots t"

text \<open>The inner option is the result of the source.\<close>

definition note_tree_witness :: "hash \<Rightarrow> note_tree \<Rightarrow> nat \<Rightarrow> path_node list option option" where
  "note_tree_witness H t index =
     (if index \<ge> length (nt_commitments t) then Some None
      else Option.bind (note_commitment_leaves H (nt_commitments t)) (\<lambda>leaves.
             map_option Some (merkle_path H leaves index)))"

definition note_tree_from_iter :: "hash \<Rightarrow> note_commitment list \<Rightarrow> note_tree option" where
  "note_tree_from_iter H cs =
     Option.bind (note_commitment_leaves H cs) (\<lambda>leaves.
     Option.bind (root H leaves) (\<lambda>r. Some \<lparr>nt_commitments = cs, nt_roots = {r}\<rparr>))"

section \<open>Lemmas\<close>

text \<open>The invariant: the tree is not over full, the current root is one of the roots and every
  root belongs to some prefix of the commitments.\<close>

definition tree_root :: "hash \<Rightarrow> note_commitment list \<Rightarrow> bytes" where
  "tree_root H cs =
     layers_root H 14 (map (leaf H) cs @ replicate (MAX_NOTE_COMMS - length cs) (replicate 32 0))"

definition wf_note_tree :: "hash \<Rightarrow> note_tree \<Rightarrow> bool" where
  "wf_note_tree H t \<longleftrightarrow>
     length (nt_commitments t) \<le> MAX_NOTE_COMMS \<and>
     tree_root H (nt_commitments t) \<in> nt_roots t \<and>
     (\<forall>r \<in> nt_roots t. \<exists>n \<le> length (nt_commitments t). r = tree_root H (take n (nt_commitments t)))"

lemma leaves_root:
  "length cs \<le> MAX_NOTE_COMMS \<Longrightarrow>
     Option.bind (note_commitment_leaves H cs) (root H) = Some (tree_root H cs)"
  using root_eq_layers [of "map (leaf H) cs @ replicate (MAX_NOTE_COMMS - length cs) (replicate 32 0)" 14 H]
  by (simp add: note_commitment_leaves_def padded_leaves_def tree_root_def MAX_NOTE_COMMS_def)

lemma leaves_someE:
  assumes "length cs \<le> MAX_NOTE_COMMS"
  obtains leaves where "note_commitment_leaves H cs = Some leaves" "root H leaves = Some (tree_root H cs)"
  using leaves_root [OF assms, of H] by (auto simp: bind_eq_Some_conv)

lemma leaves_overfull:
  "MAX_NOTE_COMMS < length cs \<Longrightarrow> note_commitment_leaves H cs = None"
  by (simp add: note_commitment_leaves_def padded_leaves_def)

lemma note_tree_root_eq:
  "length (nt_commitments t) \<le> MAX_NOTE_COMMS \<Longrightarrow>
     note_tree_root H t = Some (tree_root H (nt_commitments t))"
  by (simp add: note_tree_root_def leaves_root)

lemma note_tree_insert_eq:
  "note_tree_insert H t cm =
     (if length (nt_commitments t) < MAX_NOTE_COMMS
      then Some \<lparr>nt_commitments = nt_commitments t @ [cm],
                 nt_roots = insert (tree_root H (nt_commitments t @ [cm])) (nt_roots t)\<rparr>
      else None)"
proof (cases "length (nt_commitments t) < MAX_NOTE_COMMS")
  case True
  then obtain leaves where "note_commitment_leaves H (nt_commitments t @ [cm]) = Some leaves"
    "root H leaves = Some (tree_root H (nt_commitments t @ [cm]))"
    using leaves_someE [of "nt_commitments t @ [cm]" H] by auto
  then show ?thesis using True by (simp add: note_tree_insert_def Let_def)
next
  case False
  then show ?thesis
    using leaves_overfull [of "nt_commitments t @ [cm]" H] by (simp add: note_tree_insert_def)
qed

lemma note_tree_insert_wf:
  assumes "wf_note_tree H t" and "note_tree_insert H t cm = Some t'"
  shows "wf_note_tree H t'"
proof -
  have t': "length (nt_commitments t) < MAX_NOTE_COMMS"
    "t' = \<lparr>nt_commitments = nt_commitments t @ [cm],
           nt_roots = insert (tree_root H (nt_commitments t @ [cm])) (nt_roots t)\<rparr>"
    using assms(2) by (auto simp: note_tree_insert_eq split: if_splits)
  have "\<exists>n \<le> length (nt_commitments t'). r = tree_root H (take n (nt_commitments t'))"
    if r: "r \<in> nt_roots t'" for r
  proof (cases "r = tree_root H (nt_commitments t')")
    case True
    then show ?thesis by (intro exI [of _ "length (nt_commitments t')"]) simp
  next
    case False
    then have "r \<in> nt_roots t" using r t'(2) by simp
    then obtain n where "n \<le> length (nt_commitments t)" "r = tree_root H (take n (nt_commitments t))"
      using assms(1) by (auto simp: wf_note_tree_def)
    then show ?thesis using t'(2) by (intro exI [of _ n]) simp
  qed
  then show ?thesis using t' by (simp add: wf_note_tree_def)
qed

lemma note_tree_from_iter_eq:
  "note_tree_from_iter H cs =
     (if length cs \<le> MAX_NOTE_COMMS
      then Some \<lparr>nt_commitments = cs, nt_roots = {tree_root H cs}\<rparr> else None)"
proof (cases "length cs \<le> MAX_NOTE_COMMS")
  case True
  then obtain leaves where "note_commitment_leaves H cs = Some leaves"
    "root H leaves = Some (tree_root H cs)" using leaves_someE by blast
  then show ?thesis using True by (simp add: note_tree_from_iter_def)
next
  case False
  then show ?thesis using leaves_overfull [of cs H] by (simp add: note_tree_from_iter_def)
qed

lemma note_tree_from_iter_wf: "note_tree_from_iter H cs = Some t \<Longrightarrow> wf_note_tree H t"
  by (auto simp: note_tree_from_iter_eq wf_note_tree_def split: if_splits)

lemma note_tree_witness_path:
  assumes "length (nt_commitments t) \<le> MAX_NOTE_COMMS" and "i < length (nt_commitments t)"
  obtains p where "note_tree_witness H t i = Some (Some p)"
    "note_tree_root H t = Some (path_root H (leaf H (nt_commitments t ! i)) p)"
proof -
  define leaves where
    "leaves = map (leaf H) (nt_commitments t) @
      replicate (MAX_NOTE_COMMS - length (nt_commitments t)) (replicate 32 0)"
  have l: "note_commitment_leaves H (nt_commitments t) = Some leaves"
    using assms(1) by (simp add: note_commitment_leaves_def padded_leaves_def leaves_def)
  have "length leaves = 2 ^ 14" "leaves ! i = leaf H (nt_commitments t ! i)"
    using assms by (simp_all add: leaves_def MAX_NOTE_COMMS_def nth_append)
  then show ?thesis
    using path_exists [of leaves i H] assms that l is_power_of_two_exp [of 14]
    by (auto simp: note_tree_witness_def note_tree_root_def MAX_NOTE_COMMS_def)
qed

section \<open>Properties\<close>

text \<open>
  Old roots stay valid: inserting a commitment succeeds exactly while the tree has room (it
  panics when \<open>2 ^ 14\<close> commitments are stored), keeps every earlier root valid, makes the new
  root valid, and no root is valid that is not the root of a prefix of the commitments.
\<close>

theorem note_tree_insert_roots:
  assumes "wf_note_tree H t"
  shows "(note_tree_insert H t cm = None \<longleftrightarrow> length (nt_commitments t) = MAX_NOTE_COMMS) \<and>
    (\<forall>t'. note_tree_insert H t cm = Some t' \<longrightarrow>
       wf_note_tree H t' \<and> nt_commitments t' = nt_commitments t @ [cm] \<and>
       note_tree_root H t' = Some (tree_root H (nt_commitments t')) \<and>
       is_valid_root t' (tree_root H (nt_commitments t')) \<and>
       (\<forall>r. is_valid_root t r \<longrightarrow> is_valid_root t' r))"
  using assms note_tree_insert_wf [OF assms, of cm]
  by (auto simp: note_tree_insert_eq note_tree_root_eq is_valid_root_def wf_note_tree_def
    split: if_splits)

theorem note_tree_insert_roots_witness:
  "\<exists>t t'. note_tree_from_iter id [[1], [2]] = Some t \<and> note_tree_insert id t [3] = Some t' \<and>
    nt_commitments t' = [[1], [2], [3]] \<and> is_valid_root t' (tree_root id [[1], [2]])"
proof -
  obtain t where t: "note_tree_from_iter id [[1], [2]] = Some t"
    by (simp add: note_tree_from_iter_eq MAX_NOTE_COMMS_def)
  then have "nt_commitments t = [[1], [2]]" "is_valid_root t (tree_root id [[1], [2]])"
    by (auto simp: note_tree_from_iter_eq is_valid_root_def split: if_splits)
  then show ?thesis
    using note_tree_insert_roots [OF note_tree_from_iter_wf [OF t], of "[3]"] t
    by (auto simp: MAX_NOTE_COMMS_def)
qed

end
