(* ===== verification/Transactions.thy ===== *)
theory Transactions
  imports Notes "HOL-Library.Multiset"
begin

text \<open>
  Balances, partial transactions and bundles of the common ledger: \<open>nomos-core/cl/src/balance.rs\<close>,
  \<open>partial_tx.rs\<close> and \<open>bundle.rs\<close>. Values are \<open>u64\<close> and the sums of a balance wrap, as the
  \<open>+=\<close> of the source does in release builds.

  The lemmas compute the net value of every unit through all operations (\<open>net\<close>, a word); the
  result is an exact characterisation of the bundles whose balance is zero.
\<close>

section \<open>Balances\<close>

record unit_balance =
  ub_unit :: unit_id
  ub_pos :: u64
  ub_neg :: u64

definition ub_is_zero :: "unit_balance \<Rightarrow> bool" where
  "ub_is_zero b \<longleftrightarrow> ub_pos b = ub_neg b"

record balance_witness =
  balances :: "unit_balance list"
  blinding :: bytes

definition balance_zero :: "bytes \<Rightarrow> balance_witness" where
  "balance_zero bl = \<lparr>balances = [], blinding = bl\<rparr>"

definition random_blinding :: "(nat \<Rightarrow> bytes) \<Rightarrow> bytes" where
  "random_blinding fill = fill 16"

text \<open>The loops of \<open>insert_positive\<close> and \<open>insert_negative\<close>: the first entry of the unit, or a new
  one at the end.\<close>

fun add_pos :: "unit_id \<Rightarrow> u64 \<Rightarrow> unit_balance list \<Rightarrow> unit_balance list" where
  "add_pos u v [] = [\<lparr>ub_unit = u, ub_pos = v, ub_neg = 0\<rparr>]"
| "add_pos u v (b # bs) =
     (if ub_unit b = u then b\<lparr>ub_pos := ub_pos b + v\<rparr> # bs else b # add_pos u v bs)"

fun add_neg :: "unit_id \<Rightarrow> u64 \<Rightarrow> unit_balance list \<Rightarrow> unit_balance list" where
  "add_neg u v [] = [\<lparr>ub_unit = u, ub_pos = 0, ub_neg = v\<rparr>]"
| "add_neg u v (b # bs) =
     (if ub_unit b = u then b\<lparr>ub_neg := ub_neg b + v\<rparr> # bs else b # add_neg u v bs)"

definition insert_positive :: "unit_id \<Rightarrow> u64 \<Rightarrow> balance_witness \<Rightarrow> balance_witness" where
  "insert_positive u v w = w\<lparr>balances := add_pos u v (balances w)\<rparr>"

definition insert_negative :: "unit_id \<Rightarrow> u64 \<Rightarrow> balance_witness \<Rightarrow> balance_witness" where
  "insert_negative u v w = w\<lparr>balances := add_neg u v (balances w)\<rparr>"

definition swap_remove :: "nat \<Rightarrow> 'a list \<Rightarrow> 'a list" where
  "swap_remove i xs = butlast (xs[i := last xs])"

lemma length_swap_remove [simp]: "length (swap_remove i xs) = length xs - 1"
  by (simp add: swap_remove_def)

function clear_loop :: "nat \<Rightarrow> unit_balance list \<Rightarrow> unit_balance list" where
  "clear_loop i bs =
     (if i < length bs
      then if ub_is_zero (bs ! i) then clear_loop i (swap_remove i bs) else clear_loop (i + 1) bs
      else bs)"
  by pat_completeness auto
termination
  by (relation "measure (\<lambda>(i, bs). length bs - i)") auto

declare clear_loop.simps [simp del]

definition clear_zeros :: "balance_witness \<Rightarrow> balance_witness" where
  "clear_zeros w = w\<lparr>balances := clear_loop 0 (balances w)\<rparr>"

definition balance_is_zero :: "balance_witness \<Rightarrow> bool" where
  "balance_is_zero w \<longleftrightarrow> balances w = []"

definition combine_entry :: "balance_witness \<Rightarrow> unit_balance \<Rightarrow> balance_witness" where
  "combine_entry c b =
     (if ub_pos b > ub_neg b then insert_positive (ub_unit b) (ub_pos b - ub_neg b) c
      else insert_negative (ub_unit b) (ub_neg b - ub_pos b) c)"

definition combine :: "balance_witness list \<Rightarrow> bytes \<Rightarrow> balance_witness" where
  "combine ws bl =
     clear_zeros (foldl (\<lambda>c w. foldl combine_entry c (balances w)) (balance_zero bl) ws)"

definition balance_commit_input :: "balance_witness \<Rightarrow> bytes" where
  "balance_commit_input w =
     ascii ''NOMOS_CL_BAL_COMMIT'' @
     concat (map (\<lambda>b. ub_unit b @ le_bytes 8 (ub_pos b) @ le_bytes 8 (ub_neg b)) (balances w)) @
     blinding w"

definition balance_commit :: "hash \<Rightarrow> balance_witness \<Rightarrow> bytes" where
  "balance_commit H w = H (balance_commit_input w)"

section \<open>Partial transactions\<close>

definition MAX_INPUTS :: nat where "MAX_INPUTS = 8"
definition MAX_OUTPUTS :: nat where "MAX_OUTPUTS = 8"

record partial_tx =
  ptx_inputs :: "cl_input list"
  ptx_outputs :: "cl_output list"
  ptx_balance :: bytes

record partial_tx_witness =
  ptxw_inputs :: "input_witness list"
  ptxw_outputs :: "output_witness list"
  balance_blinding :: bytes

definition from_ptx :: "partial_tx_witness \<Rightarrow> bytes \<Rightarrow> balance_witness" where
  "from_ptx ptx bl =
     clear_zeros
       (foldl (\<lambda>w out. insert_positive (nw_unit (ow_note out)) (nw_value (ow_note out)) w)
         (foldl (\<lambda>w i. insert_negative (nw_unit (iw_note i)) (nw_value (iw_note i)) w)
           (balance_zero bl) (ptxw_inputs ptx))
         (ptxw_outputs ptx))"

definition ptxw_random ::
  "input_witness list \<Rightarrow> output_witness list \<Rightarrow> (nat \<Rightarrow> bytes) \<Rightarrow> partial_tx_witness" where
  "ptxw_random is os fill =
     \<lparr>ptxw_inputs = is, ptxw_outputs = os, balance_blinding = random_blinding fill\<rparr>"

definition ptxw_balance :: "partial_tx_witness \<Rightarrow> balance_witness" where
  "ptxw_balance ptx = from_ptx ptx (balance_blinding ptx)"

definition ptxw_commit :: "hash \<Rightarrow> partial_tx_witness \<Rightarrow> partial_tx" where
  "ptxw_commit H ptx =
     \<lparr>ptx_inputs = map (input_commit H) (ptxw_inputs ptx),
      ptx_outputs = map (output_commit H) (ptxw_outputs ptx),
      ptx_balance = balance_commit H (ptxw_balance ptx)\<rparr>"

record partial_tx_input_witness =
  ptxi_input :: input_witness
  ptxi_path :: "path_node list"

record partial_tx_output_witness =
  ptxo_output :: output_witness
  ptxo_path :: "path_node list"

text \<open>\<open>None\<close> is the panic of \<open>padded_leaves\<close> (too many inputs), of \<open>path\<close> or of the index.\<close>

definition ptxw_input_witness ::
  "hash \<Rightarrow> partial_tx_witness \<Rightarrow> nat \<Rightarrow> partial_tx_input_witness option" where
  "ptxw_input_witness H ptx idx =
     Option.bind (padded_leaves H MAX_INPUTS
         (map (\<lambda>i. input_to_bytes (input_commit H i)) (ptxw_inputs ptx))) (\<lambda>leaves.
     Option.bind (merkle_path H leaves idx) (\<lambda>p.
       if idx < length (ptxw_inputs ptx)
       then Some \<lparr>ptxi_input = ptxw_inputs ptx ! idx, ptxi_path = p\<rparr> else None))"

definition ptxw_output_witness ::
  "hash \<Rightarrow> partial_tx_witness \<Rightarrow> nat \<Rightarrow> partial_tx_output_witness option" where
  "ptxw_output_witness H ptx idx =
     Option.bind (padded_leaves H MAX_OUTPUTS
         (map (\<lambda>out. output_to_bytes (output_commit H out)) (ptxw_outputs ptx))) (\<lambda>leaves.
     Option.bind (merkle_path H leaves idx) (\<lambda>p.
       if idx < length (ptxw_outputs ptx)
       then Some \<lparr>ptxo_output = ptxw_outputs ptx ! idx, ptxo_path = p\<rparr> else None))"

definition ptx_input_root :: "hash \<Rightarrow> partial_tx \<Rightarrow> bytes option" where
  "ptx_input_root H ptx =
     Option.bind (padded_leaves H MAX_INPUTS (map input_to_bytes (ptx_inputs ptx))) (root H)"

definition ptx_output_root :: "hash \<Rightarrow> partial_tx \<Rightarrow> bytes option" where
  "ptx_output_root H ptx =
     Option.bind (padded_leaves H MAX_OUTPUTS (map output_to_bytes (ptx_outputs ptx))) (root H)"

definition ptx_root :: "hash \<Rightarrow> partial_tx \<Rightarrow> bytes option" where
  "ptx_root H ptx =
     Option.bind (ptx_input_root H ptx) (\<lambda>i.
     Option.bind (ptx_output_root H ptx) (\<lambda>out. Some (node H i out)))"

definition ptxi_input_root :: "hash \<Rightarrow> partial_tx_input_witness \<Rightarrow> bytes" where
  "ptxi_input_root H w =
     path_root H (leaf H (input_to_bytes (input_commit H (ptxi_input w)))) (ptxi_path w)"

definition ptxo_output_root :: "hash \<Rightarrow> partial_tx_output_witness \<Rightarrow> bytes" where
  "ptxo_output_root H w =
     path_root H (leaf H (output_to_bytes (output_commit H (ptxo_output w)))) (ptxo_path w)"

section \<open>Bundles\<close>

record cl_bundle =
  partials :: "partial_tx list"

record bundle_witness =
  partial_witnesses :: "partial_tx_witness list"

definition bundle_balance :: "bundle_witness \<Rightarrow> balance_witness" where
  "bundle_balance bw = combine (map ptxw_balance (partial_witnesses bw)) (replicate 16 0)"

definition bundle_commit :: "hash \<Rightarrow> bundle_witness \<Rightarrow> cl_bundle" where
  "bundle_commit H bw = \<lparr>partials = map (ptxw_commit H) (partial_witnesses bw)\<rparr>"

section \<open>Net values\<close>

definition net :: "unit_id \<Rightarrow> unit_balance list \<Rightarrow> u64" where
  "net u bs = (\<Sum>b \<leftarrow> bs. if ub_unit b = u then ub_pos b - ub_neg b else 0)"

definition units_distinct :: "unit_balance list \<Rightarrow> bool" where
  "units_distinct bs \<longleftrightarrow> distinct (map ub_unit bs)"

lemma net_simps [simp]:
  "net u [] = 0"
  "net u (b # bs) = (if ub_unit b = u then ub_pos b - ub_neg b else 0) + net u bs"
  by (simp_all add: net_def)

lemma net_mset: "net u bs = (\<Sum>b \<in># mset bs. if ub_unit b = u then ub_pos b - ub_neg b else 0)"
  by (induction bs) simp_all

lemma net_add_pos [simp]: "net u (add_pos u' v bs) = net u bs + (if u = u' then v else 0)"
  by (induction bs) auto

lemma net_add_neg [simp]: "net u (add_neg u' v bs) = net u bs - (if u = u' then v else 0)"
  by (induction bs) auto

lemma units_add_pos: "set (map ub_unit (add_pos u v bs)) = insert u (set (map ub_unit bs))"
  by (induction bs) auto

lemma units_add_neg: "set (map ub_unit (add_neg u v bs)) = insert u (set (map ub_unit bs))"
  by (induction bs) auto

lemma units_distinct_add [simp]:
  "units_distinct bs \<Longrightarrow> units_distinct (add_pos u v bs)"
  "units_distinct bs \<Longrightarrow> units_distinct (add_neg u v bs)"
  using units_add_pos units_add_neg
  by (induction bs) (auto simp: units_distinct_def)

lemma mset_swap_remove:
  assumes "i < length xs"
  shows "mset (swap_remove i xs) = mset xs - {#xs ! i#}"
proof -
  have ne: "xs \<noteq> []" using assms by auto
  let ?ys = "xs[i := last xs]"
  have "?ys \<noteq> []" "last ?ys = last xs"
    using ne by (simp_all add: last_list_update)
  then have "mset ?ys = add_mset (last xs) (mset (butlast ?ys))"
    using arg_cong [OF append_butlast_last_id [of ?ys], of mset] by simp
  moreover have "mset ?ys = add_mset (last xs) (mset xs - {#xs ! i#})"
    using assms by (rule mset_update)
  ultimately show ?thesis by (simp add: swap_remove_def)
qed

lemma clear_loop_mset:
  "i \<le> length bs \<Longrightarrow> \<forall>j < i. \<not> ub_is_zero (bs ! j) \<Longrightarrow>
     mset (clear_loop i bs) = filter_mset (\<lambda>b. \<not> ub_is_zero b) (mset bs)"
proof (induction i bs rule: clear_loop.induct)
  case (1 i bs)
  show ?case
  proof (cases "i < length bs")
    case False
    then have "\<forall>b \<in> set bs. \<not> ub_is_zero b" using "1.prems" by (auto simp: in_set_conv_nth)
    then show ?thesis
      using False by (simp add: clear_loop.simps flip: mset_filter)
  next
    case True
    show ?thesis
    proof (cases "ub_is_zero (bs ! i)")
      case zero: True
      have keep: "\<forall>j < i. \<not> ub_is_zero (swap_remove i bs ! j)"
        using "1.prems"(2) True by (auto simp: swap_remove_def nth_butlast)
      have "mset (clear_loop i bs) = filter_mset (\<lambda>b. \<not> ub_is_zero b) (mset (swap_remove i bs))"
        using "1.IH"(1) [OF True zero _ keep] True zero by (simp add: clear_loop.simps)
      then show ?thesis
        using zero True by (simp add: mset_swap_remove filter_diff_mset)
    next
      case False
      then show ?thesis
        using "1.IH"(2) [OF True False] "1.prems" True
        by (auto simp: clear_loop.simps less_Suc_eq)
    qed
  qed
qed

lemma net_clear [simp]: "net u (clear_loop 0 bs) = net u bs"
proof -
  have "net u (clear_loop 0 bs) = (\<Sum>b \<in># filter_mset (\<lambda>b. \<not> ub_is_zero b) (mset bs).
      if ub_unit b = u then ub_pos b - ub_neg b else 0)"
    using clear_loop_mset [of 0 bs] by (simp add: net_mset)
  also have "\<dots> = (\<Sum>b \<in># mset bs. if ub_unit b = u then ub_pos b - ub_neg b else 0)"
    by (induction bs) (auto simp: ub_is_zero_def)
  finally show ?thesis by (simp add: net_mset)
qed

lemma clear_loop_nonzero: "b \<in> set (clear_loop 0 bs) \<Longrightarrow> \<not> ub_is_zero b"
  using arg_cong [OF clear_loop_mset [of 0 bs], of set_mset] by auto

lemma units_distinct_clear: "units_distinct bs \<Longrightarrow> units_distinct (clear_loop 0 bs)"
proof -
  assume "units_distinct bs"
  then have "distinct (map ub_unit (filter (\<lambda>b. \<not> ub_is_zero b) bs))"
    by (simp add: units_distinct_def distinct_map_filter)
  moreover have "mset (map ub_unit (clear_loop 0 bs)) =
      mset (map ub_unit (filter (\<lambda>b. \<not> ub_is_zero b) bs))"
    using clear_loop_mset [of 0 bs] by simp
  ultimately show ?thesis unfolding units_distinct_def by (metis mset_eq_imp_distinct_iff)
qed

lemma net_of_entry:
  "units_distinct bs \<Longrightarrow> b \<in> set bs \<Longrightarrow> net (ub_unit b) bs = ub_pos b - ub_neg b"
proof (induction bs)
  case (Cons a bs)
  have none: "u \<notin> ub_unit ` set bs \<Longrightarrow> net u bs = 0" for u by (induction bs) auto
  show ?case using Cons none by (auto simp: units_distinct_def)
qed simp

lemma cleared_empty_iff:
  assumes "units_distinct bs"
  shows "clear_loop 0 bs = [] \<longleftrightarrow> (\<forall>u. net u bs = 0)"
proof
  assume "\<forall>u. net u bs = 0"
  then have "b \<notin> set (clear_loop 0 bs)" for b
    using net_of_entry [OF units_distinct_clear [OF assms], of b] clear_loop_nonzero [of b bs]
    by (auto simp: ub_is_zero_def)
  then show "clear_loop 0 bs = []" by (metis list.set_intros(1) neq_Nil_conv)
next
  assume "clear_loop 0 bs = []"
  then show "\<forall>u. net u bs = 0" using net_clear [of _ bs] by simp
qed

definition ptx_out :: "unit_id \<Rightarrow> partial_tx_witness \<Rightarrow> nat" where
  "ptx_out u ptx =
     (\<Sum>out \<leftarrow> ptxw_outputs ptx. if nw_unit (ow_note out) = u then unat (nw_value (ow_note out)) else 0)"

definition ptx_in :: "unit_id \<Rightarrow> partial_tx_witness \<Rightarrow> nat" where
  "ptx_in u ptx =
     (\<Sum>i \<leftarrow> ptxw_inputs ptx. if nw_unit (iw_note i) = u then unat (nw_value (iw_note i)) else 0)"

definition bundle_out :: "unit_id \<Rightarrow> bundle_witness \<Rightarrow> nat" where
  "bundle_out u bw = (\<Sum>ptx \<leftarrow> partial_witnesses bw. ptx_out u ptx)"

definition bundle_in :: "unit_id \<Rightarrow> bundle_witness \<Rightarrow> nat" where
  "bundle_in u bw = (\<Sum>ptx \<leftarrow> partial_witnesses bw. ptx_in u ptx)"

lemma insert_sel [simp]:
  "balances (insert_positive u v w) = add_pos u v (balances w)"
  "balances (insert_negative u v w) = add_neg u v (balances w)"
  "balances (clear_zeros w) = clear_loop 0 (balances w)"
  "balances (balance_zero bl) = []"
  by (simp_all add: insert_positive_def insert_negative_def clear_zeros_def balance_zero_def)

lemma units_distinct_Nil [simp]: "units_distinct []"
  by (simp add: units_distinct_def)

lemma fold_inputs:
  "units_distinct (balances w) \<Longrightarrow>
   units_distinct (balances (foldl (\<lambda>w i. insert_negative (f i) (g i) w) w is)) \<and>
   net u (balances (foldl (\<lambda>w i. insert_negative (f i) (g i) w) w is)) =
     net u (balances w) - (\<Sum>i \<leftarrow> is. if f i = u then g i else 0)"
  by (induction "is" arbitrary: w) auto

lemma fold_outputs:
  "units_distinct (balances w) \<Longrightarrow>
   units_distinct (balances (foldl (\<lambda>w i. insert_positive (f i) (g i) w) w is)) \<and>
   net u (balances (foldl (\<lambda>w i. insert_positive (f i) (g i) w) w is)) =
     net u (balances w) + (\<Sum>i \<leftarrow> is. if f i = u then g i else 0)"
  by (induction "is" arbitrary: w) auto

lemma of_nat_sum_list_unat:
  "of_nat (\<Sum>x \<leftarrow> xs. if P x then unat (f x) else 0) = (\<Sum>x \<leftarrow> xs. if P x then f x else (0 :: u64))"
  by (induction xs) auto

lemma from_ptx_net:
  "net u (balances (from_ptx ptx bl)) = of_nat (ptx_out u ptx) - of_nat (ptx_in u ptx)"
proof -
  let ?w = "foldl (\<lambda>w i. insert_negative (nw_unit (iw_note i)) (nw_value (iw_note i)) w)
    (balance_zero bl) (ptxw_inputs ptx)"
  have "units_distinct (balances ?w)" "net u (balances ?w) = - of_nat (ptx_in u ptx)"
    using fold_inputs [of "balance_zero bl" "\<lambda>i. nw_unit (iw_note i)" "\<lambda>i. nw_value (iw_note i)"
      "ptxw_inputs ptx"] by (simp_all add: ptx_in_def of_nat_sum_list_unat)
  then show ?thesis
    using fold_outputs [of ?w "\<lambda>i. nw_unit (ow_note i)" "\<lambda>i. nw_value (ow_note i)" "ptxw_outputs ptx"]
    by (simp add: from_ptx_def ptx_out_def of_nat_sum_list_unat)
qed

lemma combine_entry_net:
  "units_distinct (balances c) \<Longrightarrow> units_distinct (balances (combine_entry c b))"
  "net u (balances (combine_entry c b)) =
     net u (balances c) + (if ub_unit b = u then ub_pos b - ub_neg b else 0)"
  by (auto simp: combine_entry_def)

lemma combine_entries_net:
  "units_distinct (balances c) \<Longrightarrow>
   units_distinct (balances (foldl combine_entry c bs)) \<and>
   net u (balances (foldl combine_entry c bs)) = net u (balances c) + net u bs"
  by (induction bs arbitrary: c) (auto simp: combine_entry_net)

lemma combine_net:
  "units_distinct (balances c) \<Longrightarrow>
   units_distinct (balances (foldl (\<lambda>c w. foldl combine_entry c (balances w)) c ws)) \<and>
   net u (balances (foldl (\<lambda>c w. foldl combine_entry c (balances w)) c ws)) =
     net u (balances c) + (\<Sum>w \<leftarrow> ws. net u (balances w))"
  by (induction ws arbitrary: c) (auto simp: combine_entries_net)

lemma combine_is_zero:
  "balance_is_zero (combine ws bl) \<longleftrightarrow> (\<forall>u. (\<Sum>w \<leftarrow> ws. net u (balances w)) = 0)"
  using combine_net [of "balance_zero bl" ws]
  by (simp add: balance_is_zero_def combine_def cleared_empty_iff)

lemma bundle_net:
  "(\<Sum>w \<leftarrow> map ptxw_balance ptxs. net u (balances w)) =
     of_nat (\<Sum>p \<leftarrow> ptxs. ptx_out u p) - of_nat (\<Sum>p \<leftarrow> ptxs. ptx_in u p)"
  by (induction ptxs) (simp_all add: ptxw_balance_def from_ptx_net)

lemma of_nat_u64_eq_iff: "(of_nat m :: u64) = of_nat n \<longleftrightarrow> m mod 2 ^ 64 = n mod 2 ^ 64"
  by (simp add: word_of_nat_eq_iff take_bit_eq_mod)

lemma bundle_zero_words:
  "balance_is_zero (bundle_balance bw) \<longleftrightarrow>
     (\<forall>u. (of_nat (bundle_out u bw) :: u64) = of_nat (bundle_in u bw))"
  by (simp only: bundle_balance_def combine_is_zero bundle_net bundle_out_def bundle_in_def
    right_minus_eq)

lemma padded_path_verifies:
  assumes "length es \<le> n" and "is_power_of_two n" and "i < length es"
  obtains leaves p where "padded_leaves H n es = Some leaves" "merkle_path H leaves i = Some p"
    "root H leaves = Some (path_root H (leaf H (es ! i)) p)"
proof -
  define leaves where "leaves = map (leaf H) es @ replicate (n - length es) (replicate 32 0)"
  have "length leaves = n" "leaves ! i = leaf H (es ! i)"
    using assms by (simp_all add: leaves_def nth_append)
  then show ?thesis
    using path_exists [of leaves i H] assms that [of leaves]
    by (auto simp: padded_leaves_def leaves_def)
qed

section \<open>Properties\<close>

text \<open>
  A bundle has zero balance exactly when, for every unit, the values of all outputs and of
  all inputs of its partial transactions have the same sum modulo \<open>2 ^ 64\<close>; partial transactions
  may move value between each other but not in or out of the bundle.
\<close>

theorem bundle_zero_iff:
  "balance_is_zero (bundle_balance bw) \<longleftrightarrow>
     (\<forall>u. bundle_out u bw mod 2 ^ 64 = bundle_in u bw mod 2 ^ 64)"
  by (simp only: bundle_zero_words of_nat_u64_eq_iff)

text \<open>
  The sums wrap, so a bundle that creates value passes as balanced: two outputs of \<open>2 ^ 63\<close>
  of a unit and no input at all have zero balance.
\<close>

theorem overflow_mints_value:
  "\<exists>bw u. balance_is_zero (bundle_balance bw) \<and> bundle_in u bw = 0 \<and> bundle_out u bw = 2 ^ 64"
proof -
  define u where "u = replicate 32 (1 :: u8)"
  define out where "out = output_witness_new (note_basic (2 ^ 63) u (\<lambda>n. replicate n 0)) u"
  define bw where "bw = \<lparr>partial_witnesses =
    [\<lparr>ptxw_inputs = [], ptxw_outputs = [out, out], balance_blinding = replicate 16 0\<rparr>]\<rparr>"
  have "nw_unit (ow_note out) = u" "nw_value (ow_note out) = 2 ^ 63"
    by (simp_all add: out_def output_witness_new_def note_basic_def note_witness_new_def)
  then have outs: "bundle_out v bw = (if v = u then 2 ^ 64 else 0)" for v
    by (simp add: bw_def bundle_out_def ptx_out_def)
  have ins: "bundle_in v bw = 0" for v by (simp add: bw_def bundle_in_def ptx_in_def)
  have "balance_is_zero (bundle_balance bw)" by (simp add: bundle_zero_words outs ins)
  then show ?thesis using ins outs by metis
qed

text \<open>
  Merkle witnesses of a partial transaction: for every input (output) of a transaction with
  at most \<open>MAX_INPUTS\<close> (\<open>MAX_OUTPUTS\<close>) of them the witness exists, carries that input (output),
  and its root is the input (output) root of the committed transaction.
\<close>

theorem ptx_witness_roots:
  assumes "length (ptxw_inputs ptx) \<le> MAX_INPUTS" and "length (ptxw_outputs ptx) \<le> MAX_OUTPUTS"
    and "i < length (ptxw_inputs ptx)" and "j < length (ptxw_outputs ptx)"
  shows "\<exists>wi wo. ptxw_input_witness H ptx i = Some wi \<and> ptxi_input wi = ptxw_inputs ptx ! i \<and>
      ptx_input_root H (ptxw_commit H ptx) = Some (ptxi_input_root H wi) \<and>
      ptxw_output_witness H ptx j = Some wo \<and> ptxo_output wo = ptxw_outputs ptx ! j \<and>
      ptx_output_root H (ptxw_commit H ptx) = Some (ptxo_output_root H wo)"
proof -
  have pow: "is_power_of_two 8" using is_power_of_two_exp [of 3] by simp
  obtain leaves p where i: "padded_leaves H 8 (map (\<lambda>i. input_to_bytes (input_commit H i))
      (ptxw_inputs ptx)) = Some leaves" "merkle_path H leaves i = Some p"
    "root H leaves = Some (path_root H (leaf H (input_to_bytes (input_commit H (ptxw_inputs ptx ! i)))) p)"
    using padded_path_verifies [of "map (\<lambda>i. input_to_bytes (input_commit H i)) (ptxw_inputs ptx)" 8 i H]
      assms(1,3) pow by (auto simp: MAX_INPUTS_def)
  have ins: "\<exists>wi. ptxw_input_witness H ptx i = Some wi \<and> ptxi_input wi = ptxw_inputs ptx ! i \<and>
      ptx_input_root H (ptxw_commit H ptx) = Some (ptxi_input_root H wi)"
    using i assms(3) by (simp add: ptxw_input_witness_def ptx_input_root_def ptxw_commit_def
      ptxi_input_root_def MAX_INPUTS_def comp_def)
  obtain leaves' p' where j: "padded_leaves H 8 (map (\<lambda>out. output_to_bytes (output_commit H out))
      (ptxw_outputs ptx)) = Some leaves'" "merkle_path H leaves' j = Some p'"
    "root H leaves' =
      Some (path_root H (leaf H (output_to_bytes (output_commit H (ptxw_outputs ptx ! j)))) p')"
    using padded_path_verifies [of "map (\<lambda>out. output_to_bytes (output_commit H out)) (ptxw_outputs ptx)" 8 j H]
      assms(2,4) pow by (auto simp: MAX_OUTPUTS_def)
  have outs: "\<exists>wo. ptxw_output_witness H ptx j = Some wo \<and> ptxo_output wo = ptxw_outputs ptx ! j \<and>
      ptx_output_root H (ptxw_commit H ptx) = Some (ptxo_output_root H wo)"
    using j assms(4) by (simp add: ptxw_output_witness_def ptx_output_root_def ptxw_commit_def
      ptxo_output_root_def MAX_OUTPUTS_def comp_def)
  show ?thesis using ins outs by blast
qed

theorem ptx_witness_roots_witness:
  "\<exists>wi. ptxw_input_witness id \<lparr>ptxw_inputs = [sample_input []],
      ptxw_outputs = [output_witness_new sample_note [3]], balance_blinding = [0]\<rparr> 0 = Some wi \<and>
    ptxi_input wi = sample_input []"
  using ptx_witness_roots [of "\<lparr>ptxw_inputs = [sample_input []],
      ptxw_outputs = [output_witness_new sample_note [3]], balance_blinding = [0]\<rparr>" 0 0 id]
  by (auto simp: MAX_INPUTS_def MAX_OUTPUTS_def)

end
