(* ===== verification/Leadership.thy ===== *)
theory Leadership
  imports Note_Tree Transactions Slots
begin

text \<open>
  The leader lottery and the statements the zero knowledge proofs prove:
  \<open>nomos-core/proof_statements/src\<close>, the guest programs under \<open>nomos-core/risc0_proofs\<close> and the
  leader of \<open>nomos-services/cryptarchia-consensus/src/leadership.rs\<close>.

  The 256 bit integers come from the crate \<open>crypto_bigint\<close>: their operations are a parameter
  \<open>ops\<close>, with the documented behaviour of checked arithmetic as the predicate \<open>u256_laws\<close>. The one
  floating point expression, \<open>(-ln(1 - f) * u64::MAX) as u64\<close>, is the parameter \<open>neg_ln\<close>. A guest
  program is a function from what it reads to what it commits; a failed \<open>assert!\<close> is \<open>None\<close>. The
  prover is a parameter of the leader.
\<close>

section \<open>The lottery\<close>

record 'u u256_ops =
  u_from_u64 :: "u64 \<Rightarrow> 'u"
  u_max :: 'u
  u_checked_mul :: "'u \<Rightarrow> 'u \<Rightarrow> 'u option"
  u_checked_sub :: "'u \<Rightarrow> 'u \<Rightarrow> 'u option"
  u_checked_div :: "'u \<Rightarrow> 'u \<Rightarrow> 'u option"
  u_less :: "'u \<Rightarrow> 'u \<Rightarrow> bool"
  u_from_be_bytes :: "bytes \<Rightarrow> 'u"

record 'u leader_public =
  lp_cm_root :: bytes
  lp_epoch_nonce :: bytes
  lp_slot :: u64
  lp_scaled_phi_approx :: "'u \<times> 'u"
  lp_nullifier :: nullifier
  lp_evolved_commitment :: note_commitment

text \<open>The two coefficients of \<open>LeaderPublic::new\<close>; every \<open>unwrap\<close> is a \<open>bind\<close>.\<close>

definition scaled_phi :: "'u u256_ops \<Rightarrow> u64 \<Rightarrow> u64 \<Rightarrow> ('u \<times> 'u) option" where
  "scaled_phi ops neg_f_ln_u64 total_stake =
     (let total_stake_big = u_from_u64 ops total_stake;
          precision_big = u_from_u64 ops (- 1);
          neg_f_ln = u_from_u64 ops neg_f_ln_u64 in
      Option.bind (u_checked_mul ops total_stake_big total_stake_big) (\<lambda>total_stake_sq_big.
      Option.bind (u_checked_mul ops total_stake_sq_big (u_from_u64 ops 2)) (\<lambda>double_sq.
      Option.bind (u_checked_div ops (u_max ops) precision_big) (\<lambda>order_div_precision.
      Option.bind (u_checked_div ops order_div_precision precision_big) (\<lambda>order_div_precision_sq.
      Option.bind (u_checked_mul ops neg_f_ln neg_f_ln) (\<lambda>neg_f_ln_sq.
      Option.bind (u_checked_mul ops order_div_precision neg_f_ln) (\<lambda>neg_f_ln_order.
      Option.bind (u_checked_div ops neg_f_ln_order total_stake_big) (\<lambda>t0.
      Option.bind (u_checked_mul ops order_div_precision_sq neg_f_ln_sq) (\<lambda>p.
      Option.bind (u_checked_div ops p double_sq) (\<lambda>t1. Some (t0, t1)))))))))))"

definition leader_public_new ::
  "'u u256_ops \<Rightarrow> ('f \<Rightarrow> u64) \<Rightarrow> bytes \<Rightarrow> bytes \<Rightarrow> u64 \<Rightarrow> 'f \<Rightarrow> u64 \<Rightarrow> nullifier \<Rightarrow>
     note_commitment \<Rightarrow> 'u leader_public option" where
  "leader_public_new ops neg_ln cm_root epoch_nonce slot coeff total_stake nf evolved =
     map_option (\<lambda>phi. \<lparr>lp_cm_root = cm_root, lp_epoch_nonce = epoch_nonce, lp_slot = slot,
         lp_scaled_phi_approx = phi, lp_nullifier = nf, lp_evolved_commitment = evolved\<rparr>)
       (scaled_phi ops (neg_ln coeff) total_stake)"

definition phi_approx :: "'u u256_ops \<Rightarrow> 'u \<Rightarrow> 'u \<times> 'u \<Rightarrow> 'u option" where
  "phi_approx ops stake approx =
     Option.bind (u_checked_mul ops (snd approx) stake) (\<lambda>m.
     Option.bind (u_checked_sub ops (fst approx) m) (\<lambda>d. u_checked_mul ops stake d))"

definition ticket :: "hash \<Rightarrow> 'u u256_ops \<Rightarrow> input_witness \<Rightarrow> bytes \<Rightarrow> u64 \<Rightarrow> 'u" where
  "ticket H ops i epoch_nonce slot =
     u_from_be_bytes ops (H (ascii ''NOMOS_LEAD'' @ epoch_nonce @ be_bytes 8 slot @
       input_note_commitment H i @ iw_nf_sk i))"

definition check_winning :: "hash \<Rightarrow> 'u u256_ops \<Rightarrow> 'u leader_public \<Rightarrow> input_witness \<Rightarrow> bool option" where
  "check_winning H ops lp i =
     map_option (\<lambda>threshold. u_less ops (ticket H ops i (lp_epoch_nonce lp) (lp_slot lp)) threshold)
       (phi_approx ops (u_from_u64 ops (nw_value (iw_note i))) (lp_scaled_phi_approx lp))"

section \<open>Guest programs\<close>

definition NMO_UNIT :: unit_id where
  "NMO_UNIT =
     [67, 50, 140, 228, 181, 204, 226, 242, 254, 193, 239, 51, 237, 68, 36, 126, 124, 227, 60, 112,
      223, 195, 146, 236, 5, 21, 42, 215, 48, 122, 25, 195]"

definition NOMOS_POL :: bytes where
  "NOMOS_POL = ascii ''NOMOS_POL''"

text \<open>\<open>proof_of_leadership\<close>; \<open>LeaderPrivate\<close> is the input.\<close>

definition proof_of_leadership_main ::
  "hash \<Rightarrow> 'u u256_ops \<Rightarrow> 'u leader_public \<Rightarrow> input_witness \<Rightarrow> 'u leader_public option" where
  "proof_of_leadership_main H ops lp i =
     Option.bind (check_winning H ops lp i) (\<lambda>won.
       let note_cm = input_note_commitment H i;
           note_cm_leaf = leaf H note_cm;
           note_cm_root = path_root H note_cm_leaf (iw_cm_path i);
           evolved_output = evolve_output H i NOMOS_POL in
       if won \<and> nw_unit (iw_note i) = NMO_UNIT \<and> note_cm_root = lp_cm_root lp \<and>
          input_nullifier H i = lp_nullifier lp \<and>
          commit_note H evolved_output = lp_evolved_commitment lp
       then Some lp else None)"

record ptx_public =
  pp_ptx :: partial_tx
  pp_cm_root :: bytes

definition ptx_main :: "hash \<Rightarrow> partial_tx_witness \<Rightarrow> bytes \<Rightarrow> ptx_public option" where
  "ptx_main H ptx cm_root =
     (if (\<forall>i \<in> set (ptxw_inputs ptx).
            cm_root = path_root H (leaf H (input_note_commitment H i)) (iw_cm_path i)) \<and>
         (\<forall>out \<in> set (ptxw_outputs ptx). nw_value (ow_note out) > 0)
      then Some \<lparr>pp_ptx = ptxw_commit H ptx, pp_cm_root = cm_root\<rparr> else None)"

text \<open>\<open>BundlePublic\<close> is the list of balance commitments.\<close>

definition bundle_balance_main :: "hash \<Rightarrow> balance_witness list \<Rightarrow> bytes list option" where
  "bundle_balance_main H bals =
     (if balance_is_zero (combine bals (replicate 16 0)) then Some (map (balance_commit H) bals)
      else None)"

record covenant_public =
  cp_nf :: nullifier
  cp_ptx_root :: bytes

definition covenant_nop_main :: "covenant_public \<Rightarrow> covenant_public option" where
  "covenant_nop_main public = Some public"

section \<open>Leaders\<close>

text \<open>Header identifiers are a type variable here.\<close>

record ('id, 'f) leader =
  leader_notes :: "'id \<rightharpoonup> note_witness list"
  leader_nf_sk :: nullifier_secret
  leader_config :: "'f ledger_config"

definition leader_new ::
  "'id \<Rightarrow> note_witness list \<Rightarrow> nullifier_secret \<Rightarrow> 'f ledger_config \<Rightarrow> ('id, 'f) leader" where
  "leader_new header_id header_notes nf_sk config =
     \<lparr>leader_notes = [header_id \<mapsto> header_notes], leader_nf_sk = nf_sk, leader_config = config\<rparr>"

record leader_settings =
  ls_notes :: "note_witness list"
  ls_nf_sk :: nullifier_secret

definition leader_from_genesis ::
  "'id \<Rightarrow> leader_settings \<Rightarrow> 'f ledger_config \<Rightarrow> ('id, 'f) leader" where
  "leader_from_genesis genesis cfg config = leader_new genesis (ls_notes cfg) (ls_nf_sk cfg) config"

definition evolve :: "hash \<Rightarrow> note_witness \<Rightarrow> nullifier_secret \<Rightarrow> note_witness" where
  "evolve H n nf_sk = n\<lparr>nw_nonce := evolved_nonce H n nf_sk NOMOS_POL\<rparr>"

definition follow_chain ::
  "hash \<Rightarrow> ('id, 'f) leader \<Rightarrow> 'id \<Rightarrow> 'id \<Rightarrow> nullifier \<Rightarrow> ('id, 'f) leader" where
  "follow_chain H l parent_id i to_evolve =
     (case leader_notes l parent_id of
        None \<Rightarrow> l
      | Some ns \<Rightarrow> l\<lparr>leader_notes := (leader_notes l)(i \<mapsto>
            map (\<lambda>n. if nullifier_new H (leader_nf_sk l) (note_commit H n (secret_commit H (leader_nf_sk l)))
                        = to_evolve
                     then evolve H n (leader_nf_sk l) else n) ns)\<rparr>)"

fun position :: "('a \<Rightarrow> bool) \<Rightarrow> 'a list \<Rightarrow> nat option" where
  "position P [] = None"
| "position P (x # xs) = (if P x then Some 0 else map_option Suc (position P xs))"

text \<open>
  The body of the loop of \<open>build_proof_for\<close> up to the lottery, for a note found in the tree: the
  public inputs, the input witness and whether they win. \<open>None\<close> when a call panics.
\<close>

definition lottery_inputs ::
  "hash \<Rightarrow> 'u u256_ops \<Rightarrow> ('f \<Rightarrow> u64) \<Rightarrow> ('id, 'f) leader \<Rightarrow> note_tree \<Rightarrow> bytes \<Rightarrow> u64 \<Rightarrow> slot \<Rightarrow>
     note_witness \<Rightarrow> nat \<Rightarrow> ('u leader_public \<times> input_witness \<times> bool) option" where
  "lottery_inputs H ops neg_ln l t nonce total_stake slot n index =
     Option.bind (Option.bind (note_tree_witness H t index) id) (\<lambda>input_cm_path.
     Option.bind (note_tree_root H t) (\<lambda>r.
       let i = \<lparr>iw_note = n, iw_nf_sk = leader_nf_sk l, iw_cm_path = input_cm_path\<rparr> in
       Option.bind (leader_public_new ops neg_ln r nonce slot
           (active_slot_coeff (consensus_config (leader_config l))) total_stake
           (nullifier_new H (leader_nf_sk l) (note_commit H n (secret_commit H (leader_nf_sk l))))
           (commit_note H (evolve_output H i NOMOS_POL))) (\<lambda>public_inputs.
       map_option (\<lambda>won. (public_inputs, i, won)) (check_winning H ops public_inputs i))))"

text \<open>
  The loop over the notes of the parent. The prover may fail, in which case the loop goes on with
  the next note. The outer option is \<open>None\<close> when a call panics.
\<close>

fun build_loop ::
  "hash \<Rightarrow> 'u u256_ops \<Rightarrow> ('f \<Rightarrow> u64) \<Rightarrow> ('u leader_public \<Rightarrow> input_witness \<Rightarrow> 'p option) \<Rightarrow>
     ('id, 'f) leader \<Rightarrow> note_tree \<Rightarrow> bytes \<Rightarrow> u64 \<Rightarrow> slot \<Rightarrow> note_witness list \<Rightarrow> 'p option option" where
  "build_loop H ops neg_ln prove l t nonce total_stake slot [] = Some None"
| "build_loop H ops neg_ln prove l t nonce total_stake slot (n # ns) =
     (case position (\<lambda>cm. cm = note_commit H n (secret_commit H (leader_nf_sk l))) (nt_commitments t) of
        None \<Rightarrow> build_loop H ops neg_ln prove l t nonce total_stake slot ns
      | Some index \<Rightarrow>
          Option.bind (lottery_inputs H ops neg_ln l t nonce total_stake slot n index)
            (\<lambda>(public_inputs, i, won).
              if won then
                case prove public_inputs i of
                  Some proof' \<Rightarrow> Some (Some proof')
                | None \<Rightarrow> build_loop H ops neg_ln prove l t nonce total_stake slot ns
              else build_loop H ops neg_ln prove l t nonce total_stake slot ns))"

definition build_proof_for ::
  "hash \<Rightarrow> 'u u256_ops \<Rightarrow> ('f \<Rightarrow> u64) \<Rightarrow> ('u leader_public \<Rightarrow> input_witness \<Rightarrow> 'p option) \<Rightarrow>
     ('id, 'f) leader \<Rightarrow> note_tree \<Rightarrow> bytes \<Rightarrow> u64 \<Rightarrow> slot \<Rightarrow> 'id \<Rightarrow> 'p option option" where
  "build_proof_for H ops neg_ln prove l t nonce total_stake slot parent =
     (case leader_notes l parent of
        None \<Rightarrow> Some None
      | Some ns \<Rightarrow> build_loop H ops neg_ln prove l t nonce total_stake slot ns)"

section \<open>Checked 256 bit arithmetic\<close>

definition u256_laws :: "'u u256_ops \<Rightarrow> ('u \<Rightarrow> nat) \<Rightarrow> bool" where
  "u256_laws ops val \<longleftrightarrow>
     (\<forall>x. val (u_from_u64 ops x) = unat x) \<and> val (u_max ops) = 2 ^ 256 - 1 \<and>
     (\<forall>a b. if val a * val b < 2 ^ 256
        then \<exists>r. u_checked_mul ops a b = Some r \<and> val r = val a * val b
        else u_checked_mul ops a b = None) \<and>
     (\<forall>a b. if val b \<le> val a
        then \<exists>r. u_checked_sub ops a b = Some r \<and> val r = val a - val b
        else u_checked_sub ops a b = None) \<and>
     (\<forall>a b. if val b \<noteq> 0
        then \<exists>r. u_checked_div ops a b = Some r \<and> val r = val a div val b
        else u_checked_div ops a b = None) \<and>
     (\<forall>a b. u_less ops a b \<longleftrightarrow> val a < val b)"

lemma u256_lawsE:
  assumes "u256_laws ops val"
  shows u256_from: "val (u_from_u64 ops x) = unat x"
    and u256_max: "val (u_max ops) = 2 ^ 256 - 1"
    and u256_mul: "val a * val b < 2 ^ 256 \<Longrightarrow>
      \<exists>r. u_checked_mul ops a b = Some r \<and> val r = val a * val b"
    and u256_sub: "val b \<le> val a \<Longrightarrow> \<exists>r. u_checked_sub ops a b = Some r \<and> val r = val a - val b"
    and u256_div: "val b \<noteq> 0 \<Longrightarrow> \<exists>r. u_checked_div ops a b = Some r \<and> val r = val a div val b"
    and u256_div0: "val b = 0 \<Longrightarrow> u_checked_div ops a b = None"
    and u256_less: "u_less ops a b \<longleftrightarrow> val a < val b"
  using assms unfolding u256_laws_def by meson+

text \<open>Machine words of 256 bits satisfy the laws.\<close>

definition word256_ops :: "256 word u256_ops" where
  "word256_ops =
     \<lparr>u_from_u64 = ucast, u_max = - 1,
      u_checked_mul = (\<lambda>a b. if unat a * unat b < 2 ^ 256 then Some (a * b) else None),
      u_checked_sub = (\<lambda>a b. if b \<le> a then Some (a - b) else None),
      u_checked_div = checked_div,
      u_less = (<),
      u_from_be_bytes = (\<lambda>bs. of_nat (foldl (\<lambda>n b. 256 * n + unat b) 0 bs))\<rparr>"

lemma word256_laws: "u256_laws word256_ops unat"
  unfolding u256_laws_def word256_ops_def
proof (intro conjI allI)
  show "unat (u_max \<lparr>u_from_u64 = ucast, u_max = - 1, u_checked_mul = f, u_checked_sub = g,
      u_checked_div = h, u_less = l, u_from_be_bytes = b\<rparr> :: 256 word) = 2 ^ 256 - 1" for f g h l b
    using unat_max_word [where 'w = 256] by simp
qed (auto simp: unat_ucast_up unat_mult_lem [THEN iffD1] word_le_nat_alt unat_sub checked_div_def
    unat_div_distrib word_less_nat_alt unat_eq_zero)

section \<open>The lottery never panics and favours stake\<close>

text \<open>The values of the two coefficients.\<close>

definition phi_order :: nat where "phi_order = 2 ^ 256 - 1"
definition phi_precision :: nat where "phi_precision = 2 ^ 64 - 1"

definition phi_t0 :: "u64 \<Rightarrow> u64 \<Rightarrow> nat" where
  "phi_t0 L T = (phi_order div phi_precision) * unat L div unat T"

definition phi_t1 :: "u64 \<Rightarrow> u64 \<Rightarrow> nat" where
  "phi_t1 L T = (phi_order div phi_precision div phi_precision) * (unat L * unat L) div
     (unat T * unat T * 2)"

lemma unat_le_precision: "unat (x :: u64) \<le> phi_precision"
  using unat_le_max [of x] by (simp add: phi_precision_def)

lemma u64_products:
  "unat (a :: u64) * unat (b :: u64) \<le> phi_precision * phi_precision"
  by (intro mult_mono unat_le_precision) simp_all

lemma phi_t0_numerator: "(phi_order div phi_precision) * unat (L :: u64) \<le> phi_order"
proof -
  have "(phi_order div phi_precision) * unat L \<le> (phi_order div phi_precision) * phi_precision"
    by (intro mult_left_mono unat_le_precision) simp
  then show ?thesis using div_times_less_eq_dividend [of phi_order phi_precision] by linarith
qed

lemma phi_t1_numerator:
  "(phi_order div phi_precision div phi_precision) * (unat (L :: u64) * unat L) \<le>
     (phi_order div phi_precision) * unat L"
proof -
  let ?A = "phi_order div phi_precision"
  have "(?A div phi_precision) * (unat L * unat L) \<le> (?A div phi_precision) * (phi_precision * unat L)"
    by (intro mult_left_mono mult_right_mono unat_le_precision) simp_all
  also have "\<dots> = (?A div phi_precision * phi_precision) * unat L" by (simp only: mult.assoc)
  also have "\<dots> \<le> ?A * unat L"
    by (intro mult_right_mono div_times_less_eq_dividend) simp
  finally show ?thesis .
qed

lemma phi_slope:
  assumes "T \<noteq> 0"
  shows "2 * (phi_t1 L T * unat T) \<le> phi_t0 L T"
proof -
  have T: "0 < unat T" using assms by (simp add: unat_gt_0)
  have "phi_t1 L T * (unat T * unat T * 2) \<le> (phi_order div phi_precision) * unat L"
    using div_times_less_eq_dividend [of _ "unat T * unat T * 2"] phi_t1_numerator [of L]
    unfolding phi_t1_def by (rule order_trans)
  then have "(2 * (phi_t1 L T * unat T)) * unat T \<le> (phi_order div phi_precision) * unat L"
    by (simp only: ac_simps)
  then show ?thesis using T by (simp add: phi_t0_def less_eq_div_iff_mult_less_eq)
qed

lemma phi_order_less: "n \<le> phi_order \<Longrightarrow> n < 2 ^ 256"
  by (simp add: phi_order_def)

lemma precision_sq_less: "n \<le> phi_precision * phi_precision \<Longrightarrow> n * 2 < 2 ^ 256"
  by (simp add: phi_precision_def)

lemma scaled_phi_total:
  assumes laws: "u256_laws ops val" and T: "T \<noteq> 0"
  obtains t0 t1 where "scaled_phi ops L T = Some (t0, t1)" "val t0 = phi_t0 L T" "val t1 = phi_t1 L T"
proof -
  note from' = u256_from [OF laws] and mul = u256_mul [OF laws] and div' = u256_div [OF laws]
  have p: "unat (- 1 :: u64) = phi_precision"
    using unat_max_word [where 'w = 64] by (simp add: phi_precision_def)
  have small: "unat (a :: u64) * unat (b :: u64) * 2 < 2 ^ 256" for a b
    using precision_sq_less [OF u64_products] .
  then have small': "unat (a :: u64) * unat (b :: u64) < 2 ^ 256" for a b
    by (metis le_less_trans mult_2_right le_add1)
  obtain sq where sq: "u_checked_mul ops (u_from_u64 ops T) (u_from_u64 ops T) = Some sq"
    "val sq = unat T * unat T" using mul [of "u_from_u64 ops T" "u_from_u64 ops T"] small' from' by auto
  obtain dbl where dbl: "u_checked_mul ops sq (u_from_u64 ops 2) = Some dbl"
    "val dbl = unat T * unat T * 2" using mul [of sq "u_from_u64 ops 2"] small sq(2) from' by auto
  have pne: "phi_precision \<noteq> 0" by (simp add: phi_precision_def)
  obtain a where a: "u_checked_div ops (u_max ops) (u_from_u64 ops (- 1)) = Some a"
    "val a = phi_order div phi_precision"
    using div' [of "u_from_u64 ops (- 1)" "u_max ops"] from' p pne u256_max [OF laws]
    by (auto simp: phi_order_def)
  obtain b where b: "u_checked_div ops a (u_from_u64 ops (- 1)) = Some b"
    "val b = phi_order div phi_precision div phi_precision"
    using div' [of "u_from_u64 ops (- 1)" a] from' p pne a(2) by auto
  obtain l where l: "u_checked_mul ops (u_from_u64 ops L) (u_from_u64 ops L) = Some l"
    "val l = unat L * unat L" using mul [of "u_from_u64 ops L" "u_from_u64 ops L"] small' from' by auto
  obtain o' where o': "u_checked_mul ops a (u_from_u64 ops L) = Some o'"
    "val o' = (phi_order div phi_precision) * unat L"
    using mul [of a "u_from_u64 ops L"] a(2) from' phi_order_less [OF phi_t0_numerator [of L]] by auto
  have T': "unat T \<noteq> 0" using T by (simp add: unat_eq_zero)
  obtain t0 where t0: "u_checked_div ops o' (u_from_u64 ops T) = Some t0" "val t0 = phi_t0 L T"
    using div' [of "u_from_u64 ops T" o'] o'(2) from' T' by (auto simp: phi_t0_def)
  obtain q where q: "u_checked_mul ops b l = Some q"
    "val q = (phi_order div phi_precision div phi_precision) * (unat L * unat L)"
    using mul [of b l] b(2) l(2)
      phi_order_less [OF order_trans [OF phi_t1_numerator [of L] phi_t0_numerator [of L]]] by auto
  obtain t1 where t1: "u_checked_div ops q dbl = Some t1" "val t1 = phi_t1 L T"
    using div' [of dbl q] q(2) dbl(2) T' by (auto simp: phi_t1_def)
  show ?thesis
    by (rule that [of t0 t1])
      (simp_all add: scaled_phi_def Let_def sq(1) dbl(1) a(1) b(1) l(1) o'(1) t0 q(1) t1)
qed

lemma phi_fits: "T \<noteq> 0 \<Longrightarrow> s \<le> unat T \<Longrightarrow> s * phi_t0 L T \<le> phi_order"
proof -
  assume T: "T \<noteq> 0" and s: "s \<le> unat T"
  have "s * phi_t0 L T \<le> unat T * phi_t0 L T" using s by (rule mult_right_mono) simp
  also have "\<dots> \<le> (phi_order div phi_precision) * unat L"
    unfolding phi_t0_def by (rule times_div_less_eq_dividend)
  also have "\<dots> \<le> phi_order" by (rule phi_t0_numerator)
  finally show ?thesis .
qed

lemma phi_approx_total:
  assumes laws: "u256_laws ops val" and T: "T \<noteq> 0" and s: "unat s \<le> unat T"
    and phi: "val t0 = phi_t0 L T" "val t1 = phi_t1 L T"
  obtains r where "phi_approx ops (u_from_u64 ops s) (t0, t1) = Some r"
    "val r = unat s * (phi_t0 L T - phi_t1 L T * unat s)"
proof -
  have le: "phi_t1 L T * unat s \<le> phi_t0 L T"
  proof -
    have "phi_t1 L T * unat s \<le> phi_t1 L T * unat T" using s by (rule mult_left_mono) simp
    also have "\<dots> \<le> phi_t0 L T" using phi_slope [OF T, of L] by linarith
    finally show ?thesis .
  qed
  have "phi_t0 L T \<le> unat T * phi_t0 L T" using T by (simp add: unat_gt_0 Suc_le_eq)
  then have t0: "phi_t0 L T \<le> phi_order" using phi_fits [OF T order_refl, of L] by (rule order_trans)
  obtain m where m: "u_checked_mul ops t1 (u_from_u64 ops s) = Some m" "val m = phi_t1 L T * unat s"
    using u256_mul [OF laws, of t1 "u_from_u64 ops s"] u256_from [OF laws] phi(2)
      phi_order_less [OF order_trans [OF le t0]] by auto
  obtain d where d: "u_checked_sub ops t0 m = Some d" "val d = phi_t0 L T - phi_t1 L T * unat s"
    using u256_sub [OF laws, of m t0] m(2) phi(1) le by auto
  have "unat s * val d \<le> unat s * phi_t0 L T" unfolding d(2) by (intro mult_left_mono) simp_all
  then have "unat s * val d < 2 ^ 256" using phi_order_less phi_fits [OF T s] order_trans by blast
  then obtain r where "u_checked_mul ops (u_from_u64 ops s) d = Some r" "val r = unat s * val d"
    using u256_mul [OF laws, of "u_from_u64 ops s" d] u256_from [OF laws] by auto
  then show ?thesis using that m(1) d by (simp add: phi_approx_def)
qed

lemma phi_mono:
  assumes T: "T \<noteq> 0" and le: "s \<le> s'" "s' \<le> unat T"
  shows "s * (phi_t0 L T - phi_t1 L T * s) \<le> s' * (phi_t0 L T - phi_t1 L T * s')"
proof -
  define a where "a = int (phi_t0 L T)"
  define b where "b = int (phi_t1 L T)"
  have "phi_t1 L T * (s + s') \<le> phi_t1 L T * (2 * unat T)" using le by (intro mult_left_mono) simp_all
  then have slope: "phi_t1 L T * (s + s') \<le> phi_t0 L T" using phi_slope [OF T, of L] by linarith
  have sub: "phi_t1 L T * s \<le> phi_t0 L T" "phi_t1 L T * s' \<le> phi_t0 L T"
    using slope by (simp_all add: distrib_left)
  have "0 \<le> (int s' - int s) * (a - b * (int s + int s'))"
    using le slope by (intro mult_nonneg_nonneg) (simp_all add: a_def b_def flip: of_nat_add of_nat_mult)
  also have "\<dots> = int s' * (a - b * int s') - int s * (a - b * int s)" by (simp add: algebra_simps)
  finally have "int s * (a - b * int s) \<le> int s' * (a - b * int s')" by simp
  then have "int (s * (phi_t0 L T - phi_t1 L T * s)) \<le> int (s' * (phi_t0 L T - phi_t1 L T * s'))"
    using sub by (simp add: a_def b_def of_nat_diff)
  then show ?thesis by (simp only: of_nat_le_iff)
qed

lemma scaled_phi_zero_stake:
  assumes laws: "u256_laws ops val"
  shows "scaled_phi ops L 0 = None"
proof -
  have "u_checked_div ops x (u_from_u64 ops 0) = None" for x
    using u256_div0 [OF laws] u256_from [OF laws, of 0] by simp
  then show ?thesis by (simp add: scaled_phi_def Let_def Option.bind_eq_None_conv)
qed

lemma check_winning_eq:
  assumes laws: "u256_laws ops val" and T: "T \<noteq> 0"
    and lp: "leader_public_new ops neg_ln r nonce slot coeff T nf ev = Some lp"
    and s: "unat (nw_value (iw_note i)) \<le> unat T"
  shows "check_winning H ops lp i =
    Some (val (ticket H ops i nonce slot) <
      unat (nw_value (iw_note i)) *
        (phi_t0 (neg_ln coeff) T - phi_t1 (neg_ln coeff) T * unat (nw_value (iw_note i))))"
proof -
  obtain t0 t1 where t: "scaled_phi ops (neg_ln coeff) T = Some (t0, t1)"
    "val t0 = phi_t0 (neg_ln coeff) T" "val t1 = phi_t1 (neg_ln coeff) T"
    using scaled_phi_total [OF laws T] .
  obtain x where "phi_approx ops (u_from_u64 ops (nw_value (iw_note i))) (t0, t1) = Some x"
    "val x = unat (nw_value (iw_note i)) *
      (phi_t0 (neg_ln coeff) T - phi_t1 (neg_ln coeff) T * unat (nw_value (iw_note i)))"
    using phi_approx_total [OF laws T s t(2,3)] .
  then show ?thesis
    using lp t(1) u256_less [OF laws] by (auto simp: leader_public_new_def check_winning_def)
qed

lemma leader_public_new_total:
  assumes "u256_laws ops val" and "T \<noteq> 0"
  obtains lp where "leader_public_new ops neg_ln r nonce slot coeff T nf ev = Some lp"
proof -
  obtain t0 t1 where "scaled_phi ops (neg_ln coeff) T = Some (t0, t1)"
    using scaled_phi_total [OF assms] by metis
  then show ?thesis using that by (simp add: leader_public_new_def)
qed

lemma leader_public_new_sel:
  "leader_public_new ops neg_ln r nonce slot coeff T nf ev = Some lp \<Longrightarrow>
     lp_cm_root lp = r \<and> lp_epoch_nonce lp = nonce \<and> lp_slot lp = slot \<and> lp_nullifier lp = nf \<and>
     lp_evolved_commitment lp = ev \<and> scaled_phi ops (neg_ln coeff) T = Some (lp_scaled_phi_approx lp)"
  by (auto simp: leader_public_new_def)

section \<open>Leaders\<close>

lemma position_Some: "position P xs = Some i \<Longrightarrow> i < length xs \<and> P (xs ! i)"
  by (induction xs arbitrary: i) (auto split: if_splits)

text \<open>The guest program accepts what wins in the body of the loop.\<close>

lemma lottery_inputs_true:
  assumes tree: "length (nt_commitments t) \<le> MAX_NOTE_COMMS" and index: "index < length (nt_commitments t)"
    and cm: "nt_commitments t ! index = note_commit H n (secret_commit H (leader_nf_sk l))"
    and inputs: "lottery_inputs H ops neg_ln l t nonce T slot n index = Some (lp, i, True)"
    and unit: "nw_unit n = NMO_UNIT"
  shows "iw_note i = n \<and> lp_epoch_nonce lp = nonce \<and> lp_slot lp = slot \<and>
    note_tree_root H t = Some (lp_cm_root lp) \<and> proof_of_leadership_main H ops lp i = Some lp"
proof -
  let ?cm = "note_commit H n (secret_commit H (leader_nf_sk l))"
  obtain p where p: "note_tree_witness H t index = Some (Some p)"
    "note_tree_root H t = Some (path_root H (leaf H ?cm) p)"
    using note_tree_witness_path [OF tree index, of H] cm by metis
  have i: "i = \<lparr>iw_note = n, iw_nf_sk = leader_nf_sk l, iw_cm_path = p\<rparr>"
    and lp: "leader_public_new ops neg_ln (path_root H (leaf H ?cm) p) nonce slot
        (active_slot_coeff (consensus_config (leader_config l))) T
        (nullifier_new H (leader_nf_sk l) ?cm) (commit_note H (evolve_output H i NOMOS_POL)) = Some lp"
    and won: "check_winning H ops lp i = Some True"
    using inputs p by (auto simp: lottery_inputs_def Let_def bind_eq_Some_conv)
  have sel: "iw_note i = n" "iw_nf_sk i = leader_nf_sk l" "iw_cm_path i = p" by (simp_all add: i)
  have lpsel: "lp_epoch_nonce lp = nonce" "lp_slot lp = slot"
    "lp_cm_root lp = path_root H (leaf H ?cm) p" "lp_nullifier lp = nullifier_new H (leader_nf_sk l) ?cm"
    "lp_evolved_commitment lp = commit_note H (evolve_output H i NOMOS_POL)"
    using lp by (auto simp: leader_public_new_def)
  have "proof_of_leadership_main H ops lp i = Some lp"
    using won sel lpsel unit
    by (simp add: proof_of_leadership_main_def input_note_commitment_def input_nullifier_def)
  then show ?thesis using sel(1) lpsel p(2) by simp
qed

lemma build_loop_sound:
  assumes tree: "length (nt_commitments t) \<le> MAX_NOTE_COMMS"
  shows "\<forall>n \<in> set ns. nw_unit n = NMO_UNIT \<Longrightarrow>
    build_loop H ops neg_ln prove l t nonce T slot ns = Some (Some pf) \<Longrightarrow>
    \<exists>lp i. prove lp i = Some pf \<and> iw_note i \<in> set ns \<and> lp_epoch_nonce lp = nonce \<and>
      lp_slot lp = slot \<and> note_tree_root H t = Some (lp_cm_root lp) \<and>
      proof_of_leadership_main H ops lp i = Some lp"
proof (induction ns)
  case (Cons n ns)
  let ?cm = "note_commit H n (secret_commit H (leader_nf_sk l))"
  let ?rest = "build_loop H ops neg_ln prove l t nonce T slot ns"
  have rest: ?case if "?rest = Some (Some pf)" using Cons that by fastforce
  show ?case
  proof (cases "position (\<lambda>cm. cm = ?cm) (nt_commitments t)")
    case None
    then show ?thesis using rest Cons.prems(2) by simp
  next
    case (Some index)
    then have idx: "index < length (nt_commitments t)" "nt_commitments t ! index = ?cm"
      using position_Some by fastforce+
    obtain lp i won where lp: "lottery_inputs H ops neg_ln l t nonce T slot n index = Some (lp, i, won)"
      "(if won then (case prove lp i of Some pf' \<Rightarrow> Some (Some pf') | None \<Rightarrow> ?rest) else ?rest)
        = Some (Some pf)"
      using Cons.prems(2) Some by (auto simp: bind_eq_Some_conv split: prod.splits)
    show ?thesis
    proof (cases "won \<and> prove lp i = Some pf")
      case True
      then show ?thesis
        using lottery_inputs_true [OF tree idx, of ops neg_ln nonce T slot lp i] lp(1) Cons.prems(1)
        by auto
    next
      case False
      then show ?thesis using rest lp(2) by (auto split: if_splits option.splits)
    qed
  qed
qed simp

lemma lottery_inputs_total:
  assumes laws: "u256_laws ops val" and T: "T \<noteq> 0"
    and tree: "length (nt_commitments t) \<le> MAX_NOTE_COMMS" and index: "index < length (nt_commitments t)"
    and val: "nw_value n \<le> T"
  obtains r where "lottery_inputs H ops neg_ln l t nonce T slot n index = Some r"
proof -
  obtain p r where p: "note_tree_witness H t index = Some (Some p)" "note_tree_root H t = Some r"
    using note_tree_witness_path [OF tree index] by metis
  define i where "i = \<lparr>iw_note = n, iw_nf_sk = leader_nf_sk l, iw_cm_path = p\<rparr>"
  have v: "unat (nw_value (iw_note i)) \<le> unat T" using val by (simp add: i_def word_le_nat_alt)
  obtain lp where lp: "leader_public_new ops neg_ln r nonce slot
      (active_slot_coeff (consensus_config (leader_config l))) T
      (nullifier_new H (leader_nf_sk l) (note_commit H n (secret_commit H (leader_nf_sk l))))
      (commit_note H (evolve_output H i NOMOS_POL)) = Some lp"
    using leader_public_new_total [OF laws T] .
  show ?thesis
    using that p lp check_winning_eq [OF laws T lp v, of H]
    by (simp add: lottery_inputs_def Let_def i_def)
qed

lemma build_loop_total:
  assumes laws: "u256_laws ops val" and T: "T \<noteq> 0"
    and tree: "length (nt_commitments t) \<le> MAX_NOTE_COMMS"
  shows "\<forall>n \<in> set ns. nw_value n \<le> T \<Longrightarrow>
    build_loop H ops neg_ln prove l t nonce T slot ns \<noteq> None"
proof (induction ns)
  case (Cons n ns)
  let ?cm = "note_commit H n (secret_commit H (leader_nf_sk l))"
  show ?case
  proof (cases "position (\<lambda>cm. cm = ?cm) (nt_commitments t)")
    case None
    then show ?thesis using Cons by simp
  next
    case (Some index)
    then have idx: "index < length (nt_commitments t)" using position_Some by fastforce
    have v: "nw_value n \<le> T" using Cons.prems by simp
    obtain r where "lottery_inputs H ops neg_ln l t nonce T slot n index = Some r"
      using lottery_inputs_total [OF laws T tree idx v] .
    then show ?thesis using Cons Some by (cases r) (auto split: option.split)
  qed
qed simp

section \<open>Properties\<close>

text \<open>
  The lottery does not panic: \<open>LeaderPublic::new\<close> fails exactly for a total stake of zero, and
  \<open>check_winning\<close> returns for every note of at most the total stake. It favours stake: of two
  notes with the same ticket, the one of the higher value wins whenever the other does.
\<close>

theorem lottery_total_and_monotone:
  assumes "u256_laws ops val"
  shows "(leader_public_new ops neg_ln r nonce slot coeff T nf ev = None \<longleftrightarrow> T = 0) \<and>
    (\<forall>lp. leader_public_new ops neg_ln r nonce slot coeff T nf ev = Some lp \<longrightarrow>
      (\<forall>i. nw_value (iw_note i) \<le> T \<longrightarrow> check_winning H ops lp i \<noteq> None) \<and>
      (\<forall>i j. nw_value (iw_note i) \<le> nw_value (iw_note j) \<and> nw_value (iw_note j) \<le> T \<and>
         ticket H ops i nonce slot = ticket H ops j nonce slot \<and>
         check_winning H ops lp i = Some True \<longrightarrow> check_winning H ops lp j = Some True))"
proof (cases "T = 0")
  case True
  then show ?thesis
    using scaled_phi_zero_stake [OF assms] by (simp add: leader_public_new_def)
next
  case False
  note eq = check_winning_eq [OF assms False]
  have "check_winning H ops lp j = Some True"
    if lp: "leader_public_new ops neg_ln r nonce slot coeff T nf ev = Some lp"
      and le: "nw_value (iw_note i) \<le> nw_value (iw_note j)" "nw_value (iw_note j) \<le> T"
      and t: "ticket H ops i nonce slot = ticket H ops j nonce slot"
      and win: "check_winning H ops lp i = Some True" for lp i j
  proof -
    have s: "unat (nw_value (iw_note i)) \<le> unat (nw_value (iw_note j))"
      "unat (nw_value (iw_note j)) \<le> unat T" using le by (simp_all add: word_le_nat_alt)
    show ?thesis
      using win t eq [OF lp, of i H] eq [OF lp s(2), of H] s
        phi_mono [OF False s, of "neg_ln coeff"] by auto
  qed
  moreover have "check_winning H ops lp i \<noteq> None"
    if "leader_public_new ops neg_ln r nonce slot coeff T nf ev = Some lp" "nw_value (iw_note i) \<le> T"
    for lp i
    using eq [OF that(1), of i H] that(2) by (simp add: word_le_nat_alt)
  moreover have "leader_public_new ops neg_ln r nonce slot coeff T nf ev \<noteq> None"
    using leader_public_new_total [OF assms False] by (metis option.distinct(1))
  ultimately show ?thesis using False by blast
qed

theorem lottery_total_and_monotone_witness:
  "leader_public_new word256_ops (\<lambda>_. 7) [] [] 3 () 0 [] [] = None \<and>
   leader_public_new word256_ops (\<lambda>_. 7) [] [] 3 () 100 [] [] \<noteq> None"
  using lottery_total_and_monotone [OF word256_laws, of "\<lambda>_. 7" "[]" "[]" 3 "()" 0 "[]" "[]"]
    lottery_total_and_monotone [OF word256_laws, of "\<lambda>_. 7" "[]" "[]" 3 "()" 100 "[]" "[]"]
  by simp

text \<open>
  A leader only asks for proofs of true statements: whatever proof \<open>build_proof_for\<close> returns
  was made by the prover for one of the leader's notes and for public inputs that the guest
  program \<open>proof_of_leadership\<close> accepts, at the asked slot and epoch nonce and the current root of
  the note tree. It does not panic when the total stake is positive and bounds the notes.
\<close>

theorem leader_proves_true_statements:
  assumes "u256_laws ops val" and "length (nt_commitments t) \<le> MAX_NOTE_COMMS" and "T \<noteq> 0"
    and "leader_notes l parent = Some ns"
    and "\<forall>n \<in> set ns. nw_unit n = NMO_UNIT \<and> nw_value n \<le> T"
  shows "build_proof_for H ops neg_ln prove l t nonce T slot parent \<noteq> None \<and>
    (\<forall>pf. build_proof_for H ops neg_ln prove l t nonce T slot parent = Some (Some pf) \<longrightarrow>
      (\<exists>lp i. prove lp i = Some pf \<and> iw_note i \<in> set ns \<and> lp_epoch_nonce lp = nonce \<and>
        lp_slot lp = slot \<and> note_tree_root H t = Some (lp_cm_root lp) \<and>
        proof_of_leadership_main H ops lp i = Some lp))"
proof -
  have eq: "build_proof_for H ops neg_ln prove l t nonce T slot parent =
      build_loop H ops neg_ln prove l t nonce T slot ns"
    using assms(4) by (simp add: build_proof_for_def)
  have ok: "\<forall>n \<in> set ns. nw_unit n = NMO_UNIT" "\<forall>n \<in> set ns. nw_value n \<le> T"
    using assms(5) by auto
  show ?thesis
    unfolding eq
    by (intro conjI allI impI build_loop_total [OF assms(1,3,2) ok(2)] build_loop_sound [OF assms(2) ok(1)])
qed

definition sample_leader :: "(nat, unit) leader" where
  "sample_leader = leader_new 0 [note_witness_new 5 NMO_UNIT [] [] []] [1]
     \<lparr>epoch_config = \<lparr>epoch_stake_distribution_stabilization = 3, epoch_period_nonce_buffer = 3,
        epoch_period_nonce_stabilization = 4\<rparr>,
      consensus_config = \<lparr>security_param = 1, active_slot_coeff = ()\<rparr>\<rparr>"

theorem leader_proves_true_statements_witness:
  "build_proof_for id word256_ops (\<lambda>_. 7) (\<lambda>lp i. Some (lp_slot lp)) sample_leader
     \<lparr>nt_commitments = [[2]], nt_roots = {}\<rparr> [] 10 3 0 \<noteq> None"
proof -
  have "leader_notes sample_leader 0 = Some [note_witness_new 5 NMO_UNIT [] [] []]"
    by (simp add: sample_leader_def leader_new_def)
  then show ?thesis
    using leader_proves_true_statements [OF word256_laws, of "\<lparr>nt_commitments = [[2]], nt_roots = {}\<rparr>" 10
      sample_leader 0 "[note_witness_new 5 NMO_UNIT [] [] []]" id "\<lambda>_. 7" "\<lambda>lp i. Some (lp_slot lp)" "[]" 3]
    by (simp add: note_witness_new_def MAX_NOTE_COMMS_def)
qed

end
