(* ===== verification/Header_Store.thy ===== *)
theory Header_Store
  imports Prelude
begin

text \<open>
  The interface shared by the components that grow by headers: the engine, the ledger and the
  consensus state that pairs them. A store knows a set of identifiers; adding a header requires
  its parent and adds exactly its own identifier. The interpretations are in the theories of
  the components.
\<close>

fun add_all :: "('h \<Rightarrow> 's \<Rightarrow> ('e, 's) outcome) \<Rightarrow> 'h list \<Rightarrow> 's \<Rightarrow> ('e, 's) outcome" where
  "add_all add [] s = Ok s"
| "add_all add (h # hs) s = bind_outcome (add h s) (add_all add hs)"

definition pair_add ::
  "('h \<Rightarrow> 'a \<Rightarrow> ('e, 'a) outcome) \<Rightarrow> ('h \<Rightarrow> 'b \<Rightarrow> ('e, 'b) outcome) \<Rightarrow> 'h \<Rightarrow> 'a \<times> 'b \<Rightarrow>
     ('e, 'a \<times> 'b) outcome" where
  "pair_add adda addb h ab =
     bind_outcome (adda h (fst ab)) (\<lambda>a. bind_outcome (addb h (snd ab)) (\<lambda>b. Ok (a, b)))"

locale header_store =
  fixes known :: "'s \<Rightarrow> 'id set"
    and add :: "'h \<Rightarrow> 's \<Rightarrow> ('e, 's) outcome"
    and header_id :: "'h \<Rightarrow> 'id"
    and parent_id :: "'h \<Rightarrow> 'id"
  assumes add_known: "add h s = Ok s' \<Longrightarrow> known s' = insert (header_id h) (known s)"
    and add_parent: "add h s = Ok s' \<Longrightarrow> parent_id h \<in> known s"
begin

lemma add_all_known: "add_all add hs s = Ok s' \<Longrightarrow> known s' = known s \<union> header_id ` set hs"
  by (induction hs arbitrary: s) (auto dest: add_known)

lemma add_all_parents:
  "add_all add hs s = Ok s' \<Longrightarrow> i < length hs \<Longrightarrow>
     parent_id (hs ! i) \<in> known s \<union> header_id ` set (take i hs)"
proof (induction hs arbitrary: s i)
  case (Cons h hs)
  obtain t where t: "add h s = Ok t" "add_all add hs t = Ok s'" using Cons.prems(1) by auto
  show ?case
  proof (cases i)
    case 0
    then show ?thesis using add_parent [OF t(1)] by simp
  next
    case (Suc j)
    then have "parent_id (hs ! j) \<in> known t \<union> header_id ` set (take j hs)"
      using Cons.IH [OF t(2), of j] Cons.prems(2) by simp
    then show ?thesis using Suc add_known [OF t(1)] by auto
  qed
qed simp

lemma known_grows: "add_all add hs s = Ok s' \<Longrightarrow> known s \<subseteq> known s'"
  using add_all_known by blast

end

text \<open>Two stores fed with the same headers know the same identifiers.\<close>

locale paired_stores =
  a: header_store knowna adda header_id parent_id + b: header_store knownb addb header_id parent_id
  for knowna :: "'a \<Rightarrow> 'id set" and adda :: "'h \<Rightarrow> 'a \<Rightarrow> ('e, 'a) outcome"
    and knownb :: "'b \<Rightarrow> 'id set" and addb :: "'h \<Rightarrow> 'b \<Rightarrow> ('e, 'b) outcome"
    and header_id :: "'h \<Rightarrow> 'id" and parent_id :: "'h \<Rightarrow> 'id"
begin

lemma pair_in_step:
  assumes "pair_add adda addb h s = Ok s'" and "knowna (fst s) = knownb (snd s)"
  shows "knowna (fst s') = knownb (snd s') \<and> knowna (fst s') = insert (header_id h) (knowna (fst s)) \<and>
    parent_id h \<in> knowna (fst s)"
  using assms a.add_known b.add_known a.add_parent by (fastforce simp: pair_add_def)

lemma pair_in_sync:
  "add_all (pair_add adda addb) hs s = Ok s' \<Longrightarrow> knowna (fst s) = knownb (snd s) \<Longrightarrow>
     knowna (fst s') = knownb (snd s') \<and> knowna (fst s') = knowna (fst s) \<union> header_id ` set hs"
proof (induction hs arbitrary: s)
  case (Cons h hs)
  obtain t where t: "pair_add adda addb h s = Ok t" "add_all (pair_add adda addb) hs t = Ok s'"
    using Cons.prems(1) by auto
  have "knowna (fst t) = knownb (snd t)" "knowna (fst t) = insert (header_id h) (knowna (fst s))"
    using pair_in_step [OF t(1) Cons.prems(2)] by blast+
  then show ?case
    using Cons.IH [OF t(2)] by (metis Un_insert_left Un_insert_right image_insert list.simps(15))
qed simp

end

sublocale paired_stores \<subseteq> pair: header_store "\<lambda>s. knowna (fst s)" "pair_add adda addb" header_id parent_id
  by unfold_locales (auto simp: pair_add_def dest: a.add_known a.add_parent)

end
