(* ===== verification/Ledger.thy ===== *)
theory Ledger
  imports Leadership Header_Store
begin

text \<open>
  The ledger, \<open>ledger/nomos-ledger/src/lib.rs\<close> and \<open>leader_proof.rs\<close>: the state after every block
  (note trees, nullifiers, nonce, epoch snapshots) and its update by a leader proof.

  What the code takes from elsewhere is the record \<open>chain_env\<close>: SHA-256, Blake2b, the 256 bit
  integers and the two floating point expressions. A leader proof is the record of the methods
  of the trait \<open>LeaderProof\<close>.
\<close>

record ('u, 'f) chain_env =
  sha :: hash
  blake :: hash
  u256 :: "'u u256_ops"
  floor_quot :: "'f floor_div"
  neg_ln :: "'f \<Rightarrow> u64"

record 'u leader_proof =
  pf_verify :: "'u leader_public \<Rightarrow> bool"
  pf_nullifier :: nullifier
  pf_evolved_commitment :: note_commitment
  pf_merke_root :: bytes

record orphan_proof =
  op_nullifier :: nullifier
  op_commitment :: note_commitment
  op_cm_root :: bytes

definition to_orphan_proof :: "'u leader_proof \<Rightarrow> orphan_proof" where
  "to_orphan_proof p =
     \<lparr>op_nullifier = pf_nullifier p, op_commitment = pf_evolved_commitment p,
      op_cm_root = pf_merke_root p\<rparr>"

text \<open>\<open>Risc0LeaderProof\<close> of \<open>chain-defs/src/proofs/leader_proof.rs\<close>: valid by contract.\<close>

definition risc0_leader_proof :: "'u leader_public \<Rightarrow> 'u leader_proof" where
  "risc0_leader_proof pub =
     \<lparr>pf_verify = (\<lambda>p. p = pub), pf_nullifier = lp_nullifier pub,
      pf_evolved_commitment = lp_evolved_commitment pub, pf_merke_root = lp_cm_root pub\<rparr>"

datatype 'id ledger_error =
    DoubleSpend nullifier
  | InvalidSlot slot slot
  | ParentNotFound 'id
  | OrphanMissing 'id
  | InvalidProof
  | InvalidRoot

record epoch_state =
  es_epoch :: epoch
  es_nonce :: bytes
  es_commitments :: note_tree
  es_total_stake :: u64

record ledger_state =
  lead_commitments :: note_tree
  spend_commitments :: note_tree
  nullifiers :: "nullifier set"
  state_nonce :: bytes
  state_slot :: slot
  next_epoch_state :: epoch_state
  cur_epoch_state :: epoch_state

type_synonym 'id state_result = "('id ledger_error, ledger_state) outcome"

text \<open>\<open>EpochState::update_from_ledger\<close>; \<open>None\<close> when a snapshot slot cannot be computed.\<close>

definition update_from_ledger ::
  "'f floor_div \<Rightarrow> 'f ledger_config \<Rightarrow> epoch_state \<Rightarrow> ledger_state \<Rightarrow> epoch_state option" where
  "update_from_ledger fdiv cfg es st =
     Option.bind (nonce_snapshot fdiv cfg (es_epoch es)) (\<lambda>nonce_snapshot_slot.
     Option.bind (stake_distribution_snapshot fdiv cfg (es_epoch es)) (\<lambda>stake_snapshot_slot.
       Some \<lparr>es_epoch = es_epoch es,
             es_nonce = (if state_slot st < nonce_snapshot_slot then state_nonce st else es_nonce es),
             es_commitments = (if state_slot st < stake_snapshot_slot then spend_commitments st
                               else es_commitments es),
             es_total_stake = es_total_stake es\<rparr>))"

definition update_epoch_state ::
  "'f floor_div \<Rightarrow> 'f ledger_config \<Rightarrow> slot \<Rightarrow> ledger_state \<Rightarrow> 'id state_result" where
  "update_epoch_state fdiv cfg slot st =
     (if slot \<le> state_slot st then Err (InvalidSlot (state_slot st) slot)
      else
        let total_stake = es_total_stake (cur_epoch_state st) in
        bind_outcome (expect (lc_epoch fdiv cfg (state_slot st))) (\<lambda>current_epoch.
        bind_outcome (expect (lc_epoch fdiv cfg slot)) (\<lambda>new_epoch.
        let snapshot = (\<lambda>e. \<lparr>es_epoch = e, es_nonce = state_nonce st,
              es_commitments = spend_commitments st, es_total_stake = total_stake\<rparr>) in
        if current_epoch = new_epoch then
          bind_outcome (expect (update_from_ledger fdiv cfg (next_epoch_state st) st)) (\<lambda>next.
            Ok (st\<lparr>state_slot := slot, next_epoch_state := next\<rparr>))
        else if new_epoch = current_epoch + 1 then
          Ok (st\<lparr>state_slot := slot, next_epoch_state := snapshot (new_epoch + 1),
                 cur_epoch_state := next_epoch_state st\<rparr>)
        else
          Ok (st\<lparr>state_slot := slot, next_epoch_state := snapshot (new_epoch + 1),
                 cur_epoch_state := snapshot new_epoch\<rparr>))))"

definition is_nullified :: "ledger_state \<Rightarrow> nullifier \<Rightarrow> bool" where
  "is_nullified st nf \<longleftrightarrow> nf \<in> nullifiers st"

definition try_apply_proof_outputs ::
  "hash \<Rightarrow> bytes \<Rightarrow> nullifier \<Rightarrow> note_commitment \<Rightarrow> ledger_state \<Rightarrow>
     'id state_result" where
  "try_apply_proof_outputs H cm_root nf evolved st =
     (if \<not> is_valid_root (lead_commitments st) cm_root \<and>
         \<not> is_valid_root (es_commitments (cur_epoch_state st)) cm_root then Err InvalidRoot
      else if is_nullified st nf then Err (DoubleSpend nf)
      else
        bind_outcome (expect (note_tree_insert H (lead_commitments st) evolved)) (\<lambda>lead.
        bind_outcome (expect (note_tree_insert H (spend_commitments st) evolved)) (\<lambda>spend.
          Ok (st\<lparr>lead_commitments := lead, spend_commitments := spend,
                 nullifiers := insert nf (nullifiers st)\<rparr>))))"

definition try_apply_proof ::
  "('u, 'f) chain_env \<Rightarrow> 'f ledger_config \<Rightarrow> slot \<Rightarrow> 'u leader_proof \<Rightarrow> ledger_state \<Rightarrow>
     'id state_result" where
  "try_apply_proof env cfg slot proof' st =
     bind_outcome (expect (lc_epoch (floor_quot env) cfg slot)) (\<lambda>e.
     bind_outcome (assert_that (e = es_epoch (cur_epoch_state st))) (\<lambda>_.
     bind_outcome (expect (leader_public_new (u256 env) (neg_ln env) (pf_merke_root proof')
         (es_nonce (cur_epoch_state st)) slot (active_slot_coeff (consensus_config cfg))
         (es_total_stake (cur_epoch_state st)) (pf_nullifier proof') (pf_evolved_commitment proof')))
       (\<lambda>public_inputs.
     if \<not> pf_verify proof' public_inputs then Err InvalidProof
     else try_apply_proof_outputs (sha env) (pf_merke_root proof') (pf_nullifier proof')
            (pf_evolved_commitment proof') st)))"

definition update_nonce :: "hash \<Rightarrow> nullifier \<Rightarrow> slot \<Rightarrow> ledger_state \<Rightarrow> ledger_state" where
  "update_nonce B nf slot st =
     st\<lparr>state_nonce := B (ascii ''epoch-nonce'' @ state_nonce st @ nf @ be_bytes 8 slot)\<rparr>"

fun apply_orphans ::
  "hash \<Rightarrow> orphan_proof list \<Rightarrow> ledger_state \<Rightarrow> 'id state_result" where
  "apply_orphans H [] st = Ok st"
| "apply_orphans H (orphan # orphans) st =
     bind_outcome (try_apply_proof_outputs H (op_cm_root orphan) (op_nullifier orphan)
       (op_commitment orphan) st) (apply_orphans H orphans)"

definition try_apply_leadership ::
  "('u, 'f) chain_env \<Rightarrow> 'f ledger_config \<Rightarrow> slot \<Rightarrow> 'u leader_proof \<Rightarrow> orphan_proof list \<Rightarrow>
     ledger_state \<Rightarrow> 'id state_result" where
  "try_apply_leadership env cfg slot proof' orphans st =
     bind_outcome (apply_orphans (sha env) orphans st) (\<lambda>st1.
     bind_outcome (try_apply_proof env cfg slot proof' st1) (\<lambda>st2.
       Ok (update_nonce (blake env) (pf_nullifier proof') slot st2)))"

definition state_try_update ::
  "('u, 'f) chain_env \<Rightarrow> 'f ledger_config \<Rightarrow> slot \<Rightarrow> 'u leader_proof \<Rightarrow> orphan_proof list \<Rightarrow>
     ledger_state \<Rightarrow> 'id state_result" where
  "state_try_update env cfg slot proof' orphans st =
     bind_outcome (update_epoch_state (floor_quot env) cfg slot st)
       (try_apply_leadership env cfg slot proof' orphans)"

definition from_commitments :: "hash \<Rightarrow> note_commitment list \<Rightarrow> u64 \<Rightarrow> ledger_state option" where
  "from_commitments H cs total_stake =
     map_option (\<lambda>t.
       let es = (\<lambda>e. \<lparr>es_epoch = e, es_nonce = replicate 32 0, es_commitments = note_tree_default,
                      es_total_stake = total_stake\<rparr>) in
       \<lparr>lead_commitments = t, spend_commitments = t, nullifiers = {}, state_nonce = replicate 32 0,
        state_slot = 0, next_epoch_state = es 1, cur_epoch_state = es 0\<rparr>)
     (note_tree_from_iter H cs)"

section \<open>The ledger\<close>

record ('id, 'f) ledger =
  states :: "'id \<rightharpoonup> ledger_state"
  ledger_conf :: "'f ledger_config"

definition ledger_new :: "'id \<Rightarrow> ledger_state \<Rightarrow> 'f ledger_config \<Rightarrow> ('id, 'f) ledger" where
  "ledger_new i st cfg = \<lparr>states = [i \<mapsto> st], ledger_conf = cfg\<rparr>"

fun check_orphans :: "('id \<rightharpoonup> ledger_state) \<Rightarrow> 'id list \<Rightarrow> ('id ledger_error, unit) outcome" where
  "check_orphans m [] = Ok ()"
| "check_orphans m (i # is) = (if m i = None then Err (OrphanMissing i) else check_orphans m is)"

definition ledger_try_update ::
  "('u, 'f) chain_env \<Rightarrow> 'id \<Rightarrow> 'id \<Rightarrow> slot \<Rightarrow> 'u leader_proof \<Rightarrow> ('id \<times> orphan_proof) list \<Rightarrow>
     ('id, 'f) ledger \<Rightarrow> ('id ledger_error, ('id, 'f) ledger) outcome" where
  "ledger_try_update env i parent slot proof' orphans l =
     bind_outcome (ok_or (states l parent) (ParentNotFound parent)) (\<lambda>parent_state.
     bind_outcome (check_orphans (states l) (map fst orphans)) (\<lambda>_.
     bind_outcome (state_try_update env (ledger_conf l) slot proof' (map snd orphans) parent_state)
       (\<lambda>new_state. Ok (l\<lparr>states := (states l)(i \<mapsto> new_state)\<rparr>))))"

definition ledger_state_of :: "('id, 'f) ledger \<Rightarrow> 'id \<Rightarrow> ledger_state option" where
  "ledger_state_of l i = states l i"

section \<open>The invariant of ledger states\<close>

definition wf_state :: "('u, 'f) chain_env \<Rightarrow> 'f ledger_config \<Rightarrow> ledger_state \<Rightarrow> bool" where
  "wf_state env cfg st \<longleftrightarrow>
     lc_epoch (floor_quot env) cfg (state_slot st) = Some (es_epoch (cur_epoch_state st)) \<and>
     es_epoch (next_epoch_state st) = es_epoch (cur_epoch_state st) + 1 \<and>
     es_total_stake (next_epoch_state st) = es_total_stake (cur_epoch_state st) \<and>
     lead_commitments st = spend_commitments st \<and>
     wf_note_tree (sha env) (spend_commitments st)"

text \<open>What an update leaves alone.\<close>

definition same_notes :: "ledger_state \<Rightarrow> ledger_state \<Rightarrow> bool" where
  "same_notes st st' \<longleftrightarrow>
     lead_commitments st' = lead_commitments st \<and> spend_commitments st' = spend_commitments st \<and>
     nullifiers st' = nullifiers st \<and> state_nonce st' = state_nonce st"

definition same_epochs :: "ledger_state \<Rightarrow> ledger_state \<Rightarrow> bool" where
  "same_epochs st st' \<longleftrightarrow>
     cur_epoch_state st' = cur_epoch_state st \<and> next_epoch_state st' = next_epoch_state st \<and>
     state_slot st' = state_slot st"

lemma snapshots_total:
  assumes "lc_epoch fdiv cfg slot = Some e"
  shows "update_from_ledger fdiv cfg es st \<noteq> None"
proof -
  obtain n where "base_period_length fdiv (consensus_config cfg) = Some n"
    using assms by (auto simp: lc_epoch_def bind_eq_Some_conv)
  then show ?thesis
    by (simp add: update_from_ledger_def nonce_snapshot_def stake_distribution_snapshot_def
      lc_base_period_length_def lc_epoch_length_def Let_def)
qed

lemma update_from_ledger_sel:
  "update_from_ledger fdiv cfg es st = Some es' \<Longrightarrow>
     es_epoch es' = es_epoch es \<and> es_total_stake es' = es_total_stake es"
  by (auto simp: update_from_ledger_def bind_eq_Some_conv)

lemma update_epoch_state_ok:
  assumes wf: "wf_state env cfg st" and ok: "update_epoch_state (floor_quot env) cfg slot st = Ok st'"
  shows "wf_state env cfg st' \<and> same_notes st st' \<and> state_slot st' = slot \<and> state_slot st < slot \<and>
    es_total_stake (cur_epoch_state st') = es_total_stake (cur_epoch_state st) \<and>
    (es_epoch (cur_epoch_state st') = es_epoch (cur_epoch_state st) \<longrightarrow>
       cur_epoch_state st' = cur_epoch_state st) \<and>
    (es_epoch (cur_epoch_state st') = es_epoch (cur_epoch_state st) + 1 \<longrightarrow>
       cur_epoch_state st' = next_epoch_state st) \<and>
    (es_epoch (cur_epoch_state st') \<notin> {es_epoch (cur_epoch_state st), es_epoch (cur_epoch_state st) + 1} \<longrightarrow>
       cur_epoch_state st' = \<lparr>es_epoch = es_epoch (cur_epoch_state st'), es_nonce = state_nonce st,
         es_commitments = spend_commitments st, es_total_stake = es_total_stake (cur_epoch_state st)\<rparr>)"
proof -
  let ?e = "es_epoch (cur_epoch_state st)"
  have lt: "state_slot st < slot" using ok by (auto simp: update_epoch_state_def split: if_splits)
  obtain e where e: "lc_epoch (floor_quot env) cfg slot = Some e"
    using ok lt by (auto simp: update_epoch_state_def Let_def split: if_splits)
  have cur: "lc_epoch (floor_quot env) cfg (state_slot st) = Some ?e"
    using wf by (simp add: wf_state_def)
  let ?snap = "\<lambda>e. \<lparr>es_epoch = e, es_nonce = state_nonce st, es_commitments = spend_commitments st,
      es_total_stake = es_total_stake (cur_epoch_state st)\<rparr>"
  consider (same) es where "e = ?e" "update_from_ledger (floor_quot env) cfg (next_epoch_state st) st = Some es"
      "st' = st\<lparr>state_slot := slot, next_epoch_state := es\<rparr>"
    | (succ) "e = ?e + 1" "e \<noteq> ?e" "st' = st\<lparr>state_slot := slot, next_epoch_state := ?snap (e + 1),
        cur_epoch_state := next_epoch_state st\<rparr>"
    | (later) "e \<noteq> ?e" "e \<noteq> ?e + 1" "st' = st\<lparr>state_slot := slot, next_epoch_state := ?snap (e + 1),
        cur_epoch_state := ?snap e\<rparr>"
    using ok lt e cur by (auto simp: update_epoch_state_def Let_def split: if_splits)
  then show ?thesis
  proof cases
    case same
    then show ?thesis
      using update_from_ledger_sel [OF same(2)] wf lt e by (simp add: wf_state_def same_notes_def)
  next
    case succ
    then show ?thesis using wf lt e by (simp add: wf_state_def same_notes_def)
  next
    case later
    then show ?thesis using wf lt e by (simp add: wf_state_def same_notes_def)
  qed
qed

lemma update_epoch_state_result:
  assumes wf: "wf_state env cfg st"
  shows "update_epoch_state (floor_quot env) cfg slot st =
      (Err (InvalidSlot (state_slot st) slot) :: 'id state_result)
      \<longleftrightarrow> slot \<le> state_slot st"
    and "update_epoch_state (floor_quot env) cfg slot st =
      (Abort :: 'id state_result)
      \<longleftrightarrow> state_slot st < slot \<and> lc_epoch (floor_quot env) cfg slot = None"
    and "update_epoch_state (floor_quot env) cfg slot st =
      (Err err :: 'id state_result) \<Longrightarrow> slot \<le> state_slot st"
proof -
  obtain e where cur: "lc_epoch (floor_quot env) cfg (state_slot st) = Some e"
    using wf by (auto simp: wf_state_def)
  obtain es where es: "update_from_ledger (floor_quot env) cfg (next_epoch_state st) st = Some es"
    using snapshots_total [OF cur] by blast
  show "update_epoch_state (floor_quot env) cfg slot st =
      (Err (InvalidSlot (state_slot st) slot) :: 'id state_result)
      \<longleftrightarrow> slot \<le> state_slot st"
    and "update_epoch_state (floor_quot env) cfg slot st =
      (Abort :: 'id state_result)
      \<longleftrightarrow> state_slot st < slot \<and> lc_epoch (floor_quot env) cfg slot = None"
    and "update_epoch_state (floor_quot env) cfg slot st =
      (Err err :: 'id state_result) \<Longrightarrow> slot \<le> state_slot st"
    using cur es
    by (cases "lc_epoch (floor_quot env) cfg slot"; force simp: update_epoch_state_def Let_def split: if_splits)+
qed

lemma apply_outputs_ok:
  assumes "try_apply_proof_outputs H r nf cm st = Ok st'"
  shows "(is_valid_root (lead_commitments st) r \<or> is_valid_root (es_commitments (cur_epoch_state st)) r) \<and>
    nf \<notin> nullifiers st \<and> nullifiers st' = insert nf (nullifiers st) \<and> same_epochs st st' \<and>
    state_nonce st' = state_nonce st \<and>
    note_tree_insert H (lead_commitments st) cm = Some (lead_commitments st') \<and>
    note_tree_insert H (spend_commitments st) cm = Some (spend_commitments st')"
  using assms
  by (auto simp: try_apply_proof_outputs_def is_nullified_def same_epochs_def split: if_splits)

lemma apply_outputs_wf:
  assumes "wf_state env cfg st" and "try_apply_proof_outputs (sha env) r nf cm st = Ok st'"
  shows "wf_state env cfg st'"
  using apply_outputs_ok [OF assms(2)] assms(1) note_tree_insert_wf
  by (auto simp: wf_state_def same_epochs_def)

lemma insert_commitments:
  "note_tree_insert H t cm = Some t' \<Longrightarrow> nt_commitments t' = nt_commitments t @ [cm]"
  by (auto simp: note_tree_insert_eq split: if_splits)

lemma insert_keeps_roots: "note_tree_insert H t cm = Some t' \<Longrightarrow> is_valid_root t r \<Longrightarrow> is_valid_root t' r"
  by (auto simp: note_tree_insert_eq is_valid_root_def split: if_splits)

lemma apply_orphans_ok:
  "(apply_orphans H orphans st :: 'id state_result) = Ok st' \<Longrightarrow>
     distinct (map op_nullifier orphans) \<and> nullifiers st \<inter> op_nullifier ` set orphans = {} \<and>
     nullifiers st' = nullifiers st \<union> op_nullifier ` set orphans \<and> same_epochs st st' \<and>
     state_nonce st' = state_nonce st \<and>
     nt_commitments (spend_commitments st') =
       nt_commitments (spend_commitments st) @ map op_commitment orphans"
proof (induction orphans arbitrary: st)
  case (Cons p orphans)
  obtain st1 where st1: "(try_apply_proof_outputs H (op_cm_root p) (op_nullifier p) (op_commitment p) st
      :: 'id state_result) = Ok st1" "(apply_orphans H orphans st1 :: 'id state_result) = Ok st'"
    using Cons.prems by auto
  show ?case
    using Cons.IH [OF st1(2)] apply_outputs_ok [OF st1(1)]
    by (auto simp: same_epochs_def dest: insert_commitments)
qed (simp add: same_epochs_def)

lemma apply_orphans_wf:
  "wf_state env cfg st \<Longrightarrow> (apply_orphans (sha env) orphans st :: 'id state_result) = Ok st' \<Longrightarrow>
     wf_state env cfg st'"
proof (induction orphans arbitrary: st)
  case (Cons p orphans)
  obtain st1 where st1: "(try_apply_proof_outputs (sha env) (op_cm_root p) (op_nullifier p)
      (op_commitment p) st :: 'id state_result) = Ok st1"
    "(apply_orphans (sha env) orphans st1 :: 'id state_result) = Ok st'"
    using Cons.prems(2) by auto
  show ?case using Cons.IH [OF apply_outputs_wf [OF Cons.prems(1) st1(1)] st1(2)] .
qed simp

lemma try_apply_proof_ok:
  assumes "(try_apply_proof env cfg slot pf st :: 'id state_result) = Ok st'"
  obtains lp where
    "leader_public_new (u256 env) (neg_ln env) (pf_merke_root pf) (es_nonce (cur_epoch_state st)) slot
       (active_slot_coeff (consensus_config cfg)) (es_total_stake (cur_epoch_state st))
       (pf_nullifier pf) (pf_evolved_commitment pf) = Some lp"
    "pf_verify pf lp"
    "(try_apply_proof_outputs (sha env) (pf_merke_root pf) (pf_nullifier pf) (pf_evolved_commitment pf) st
       :: 'id state_result) = Ok st'"
  using assms by (auto simp: try_apply_proof_def split: if_splits)

lemma state_try_update_stages:
  assumes "(state_try_update env cfg slot pf orphans st :: 'id state_result) = Ok st'"
  obtains st1 st2 st3 where
    "(update_epoch_state (floor_quot env) cfg slot st :: 'id state_result) = Ok st1"
    "(apply_orphans (sha env) orphans st1 :: 'id state_result) = Ok st2"
    "(try_apply_proof env cfg slot pf st2 :: 'id state_result) = Ok st3"
    "st' = update_nonce (blake env) (pf_nullifier pf) slot st3"
  using assms by (auto simp: state_try_update_def try_apply_leadership_def)

lemma update_nonce_wf: "wf_state env cfg st \<Longrightarrow> wf_state env cfg (update_nonce B nf slot st)"
  by (simp add: wf_state_def update_nonce_def)

lemma update_nonce_sel [simp]:
  "nullifiers (update_nonce B nf slot st) = nullifiers st"
  "state_slot (update_nonce B nf slot st) = state_slot st"
  "spend_commitments (update_nonce B nf slot st) = spend_commitments st"
  "lead_commitments (update_nonce B nf slot st) = lead_commitments st"
  "cur_epoch_state (update_nonce B nf slot st) = cur_epoch_state st"
  "next_epoch_state (update_nonce B nf slot st) = next_epoch_state st"
  by (simp_all add: update_nonce_def)

text \<open>One block: what it requires of the state and what it leaves behind.\<close>

lemma state_try_update_wf:
  assumes wf: "wf_state env cfg st"
    and ok: "(state_try_update env cfg slot pf orphans st :: 'id state_result) = Ok st'"
  shows "wf_state env cfg st' \<and> state_slot st < slot \<and> state_slot st' = slot \<and>
    es_total_stake (cur_epoch_state st') = es_total_stake (cur_epoch_state st)"
proof -
  obtain st1 st2 st3 where s: "(update_epoch_state (floor_quot env) cfg slot st :: 'id state_result) = Ok st1"
    "(apply_orphans (sha env) orphans st1 :: 'id state_result) = Ok st2"
    "(try_apply_proof env cfg slot pf st2 :: 'id state_result) = Ok st3"
    "st' = update_nonce (blake env) (pf_nullifier pf) slot st3"
    using state_try_update_stages [OF ok] .
  obtain lp where out: "(try_apply_proof_outputs (sha env) (pf_merke_root pf) (pf_nullifier pf)
      (pf_evolved_commitment pf) st2 :: 'id state_result) = Ok st3"
    using try_apply_proof_ok [OF s(3)] by blast
  note e = update_epoch_state_ok [OF wf s(1)]
  then have "wf_state env cfg st2" using apply_orphans_wf [OF _ s(2)] by blast
  then have "wf_state env cfg st'" using apply_outputs_wf [OF _ out] update_nonce_wf s(4) by blast
  then show ?thesis
    using e apply_orphans_ok [OF s(2)] apply_outputs_ok [OF out] s(4) by (auto simp: same_epochs_def)
qed

lemma state_try_update_notes:
  assumes wf: "wf_state env cfg st"
    and ok: "(state_try_update env cfg slot pf orphans st :: 'id state_result) = Ok st'"
  shows "distinct (map op_nullifier orphans @ [pf_nullifier pf]) \<and>
    nullifiers st \<inter> set (map op_nullifier orphans @ [pf_nullifier pf]) = {} \<and>
    nullifiers st' = nullifiers st \<union> set (map op_nullifier orphans @ [pf_nullifier pf]) \<and>
    nt_commitments (spend_commitments st') =
      nt_commitments (spend_commitments st) @ map op_commitment orphans @ [pf_evolved_commitment pf]"
proof -
  obtain st1 st2 st3 where s: "(update_epoch_state (floor_quot env) cfg slot st :: 'id state_result) = Ok st1"
    "(apply_orphans (sha env) orphans st1 :: 'id state_result) = Ok st2"
    "(try_apply_proof env cfg slot pf st2 :: 'id state_result) = Ok st3"
    "st' = update_nonce (blake env) (pf_nullifier pf) slot st3"
    using state_try_update_stages [OF ok] .
  obtain lp where out: "(try_apply_proof_outputs (sha env) (pf_merke_root pf) (pf_nullifier pf)
      (pf_evolved_commitment pf) st2 :: 'id state_result) = Ok st3"
    using try_apply_proof_ok [OF s(3)] by blast
  have "same_notes st st1" using update_epoch_state_ok [OF wf s(1)] by blast
  then show ?thesis
    using apply_orphans_ok [OF s(2)] apply_outputs_ok [OF out] s(4)
    by (auto simp: same_notes_def dest: insert_commitments)
qed

section \<open>Totality\<close>

lemma outputs_not_abort:
  assumes "wf_state env cfg st" and "length (nt_commitments (spend_commitments st)) < MAX_NOTE_COMMS"
  shows "(try_apply_proof_outputs (sha env) r nf cm st :: 'id state_result) \<noteq> Abort"
  using assms by (auto simp: try_apply_proof_outputs_def note_tree_insert_eq wf_state_def)

lemma apply_orphans_not_abort:
  "wf_state env cfg st \<Longrightarrow>
   length (nt_commitments (spend_commitments st)) + length orphans \<le> MAX_NOTE_COMMS \<Longrightarrow>
   (apply_orphans (sha env) orphans st :: 'id state_result) \<noteq> Abort"
proof (induction orphans arbitrary: st)
  case (Cons p orphans)
  let ?r = "try_apply_proof_outputs (sha env) (op_cm_root p) (op_nullifier p) (op_commitment p) st
    :: 'id state_result"
  have "?r \<noteq> Abort" using outputs_not_abort [OF Cons.prems(1)] Cons.prems(2) by simp
  moreover have "apply_orphans (sha env) orphans st1 \<noteq> (Abort :: 'id state_result)" if "?r = Ok st1" for st1
    using Cons.IH [OF apply_outputs_wf [OF Cons.prems(1) that]] apply_outputs_ok [OF that] Cons.prems(2)
    by (auto dest: insert_commitments)
  ultimately show ?case by (cases ?r) auto
qed simp

lemma try_apply_proof_not_abort:
  assumes wf: "wf_state env cfg st" and laws: "u256_laws (u256 env) val"
    and stake: "es_total_stake (cur_epoch_state st) \<noteq> 0"
    and room: "length (nt_commitments (spend_commitments st)) < MAX_NOTE_COMMS"
    and slot: "state_slot st = slot"
  shows "(try_apply_proof env cfg slot pf st :: 'id state_result) \<noteq> Abort"
proof -
  obtain lp where "leader_public_new (u256 env) (neg_ln env) (pf_merke_root pf)
      (es_nonce (cur_epoch_state st)) slot (active_slot_coeff (consensus_config cfg))
      (es_total_stake (cur_epoch_state st)) (pf_nullifier pf) (pf_evolved_commitment pf) = Some lp"
    using leader_public_new_total [OF laws stake] .
  then show ?thesis
    using wf slot outputs_not_abort [OF wf room]
    by (auto simp: try_apply_proof_def wf_state_def assert_that_def)
qed

section \<open>Chains of blocks\<close>

record 'u block_update =
  bu_slot :: slot
  bu_proof :: "'u leader_proof"
  bu_orphans :: "orphan_proof list"

definition bu_nullifiers :: "'u block_update \<Rightarrow> nullifier list" where
  "bu_nullifiers b = map op_nullifier (bu_orphans b) @ [pf_nullifier (bu_proof b)]"

definition bu_commitments :: "'u block_update \<Rightarrow> note_commitment list" where
  "bu_commitments b = map op_commitment (bu_orphans b) @ [pf_evolved_commitment (bu_proof b)]"

fun apply_blocks ::
  "('u, 'f) chain_env \<Rightarrow> 'f ledger_config \<Rightarrow> 'u block_update list \<Rightarrow> ledger_state \<Rightarrow> 'id state_result" where
  "apply_blocks env cfg [] st = Ok st"
| "apply_blocks env cfg (b # bs) st =
     bind_outcome (state_try_update env cfg (bu_slot b) (bu_proof b) (bu_orphans b) st)
       (apply_blocks env cfg bs)"

lemma from_commitments_wf:
  assumes "from_commitments (sha env) cs T = Some st"
    and "lc_epoch (floor_quot env) cfg 0 = Some 0"
  shows "wf_state env cfg st"
  using assms note_tree_from_iter_wf
  by (auto simp: from_commitments_def wf_state_def Let_def)

text \<open>The store of ledger states is a header store.\<close>

definition ledger_add ::
  "('u, 'f) chain_env \<Rightarrow> 'id \<times> 'id \<times> slot \<times> 'u leader_proof \<times> ('id \<times> orphan_proof) list \<Rightarrow>
     ('id, 'f) ledger \<Rightarrow> ('id ledger_error, ('id, 'f) ledger) outcome" where
  "ledger_add env h l = (case h of (i, p, s, pf, os) \<Rightarrow> ledger_try_update env i p s pf os l)"

definition ledger_known :: "('id, 'f) ledger \<Rightarrow> 'id set" where
  "ledger_known l = dom (states l)"

interpretation ledger_headers: header_store ledger_known "ledger_add env" fst "\<lambda>h. fst (snd h)" for env
  by unfold_locales (auto simp: ledger_known_def ledger_add_def ledger_try_update_def)

section \<open>A sample chain\<close>

definition sample_env :: "hash \<Rightarrow> (256 word, unit) chain_env" where
  "sample_env H = \<lparr>sha = H, blake = id, u256 = word256_ops, floor_quot = (\<lambda>_ _. 10), neg_ln = (\<lambda>_. 7)\<rparr>"

definition sample_config :: "unit ledger_config" where
  "sample_config = leader_config sample_leader"

definition sample_state :: "hash \<Rightarrow> note_commitment \<Rightarrow> ledger_state" where
  "sample_state H cm = the (from_commitments H [cm] 100)"

definition sample_proof :: "256 word leader_proof" where
  "sample_proof = \<lparr>pf_verify = (\<lambda>_. True), pf_nullifier = [5], pf_evolved_commitment = [6],
     pf_merke_root = tree_root id [[1]]\<rparr>"

lemma sample_env_sel [simp]:
  "sha (sample_env H) = H" "blake (sample_env H) = id" "u256 (sample_env H) = word256_ops"
  "floor_quot (sample_env H) = (\<lambda>_ _. 10)" "neg_ln (sample_env H) = (\<lambda>_. 7)"
  by (simp_all add: sample_env_def)

lemma sample_proof_sel [simp]:
  "pf_verify sample_proof lp" "pf_nullifier sample_proof = [5]"
  "pf_evolved_commitment sample_proof = [6]" "pf_merke_root sample_proof = tree_root id [[1]]"
  by (simp_all add: sample_proof_def)

lemma sample_base: "base_period_length (\<lambda>_ _. 10) (consensus_config sample_config) = Some 10"
  by (simp add: base_period_length_def)

lemma sample_epoch_config: "valid_epoch_config (epoch_config sample_config)"
  "unat (epoch_length (epoch_config sample_config) 10) = 100"
  by (simp_all add: sample_config_def sample_leader_def leader_new_def valid_epoch_config_def
    unat_epoch_length periods_def)

lemma sample_epoch_eq:
  assumes slot: "unat slot div 100 = unat e"
  shows "lc_epoch (\<lambda>_ _. 10) sample_config slot = Some e"
proof -
  have "epoch_length (epoch_config sample_config) 10 \<noteq> 0"
    using epoch_length_nonzero sample_epoch_config(1) by simp
  then have "epoch_of (epoch_config sample_config) slot 10 = Some e"
    using slot sample_epoch_config(2)
    by (simp add: epoch_of_eq epoch_try_from_Some_iff unat_div_distrib)
  then show ?thesis by (simp add: lc_epoch_def sample_base)
qed

lemma sample_epoch: "unat slot < 100 \<Longrightarrow> lc_epoch (\<lambda>_ _. 10) sample_config slot = Some 0"
  by (rule sample_epoch_eq) simp

lemma sample_from_commitments: "from_commitments H [cm] 100 = Some (sample_state H cm)"
  by (simp add: sample_state_def from_commitments_def note_tree_from_iter_eq MAX_NOTE_COMMS_def)

lemma sample_state_sel [simp]:
  "state_slot (sample_state H cm) = 0" "nullifiers (sample_state H cm) = {}"
  "spend_commitments (sample_state H cm) = \<lparr>nt_commitments = [cm], nt_roots = {tree_root H [cm]}\<rparr>"
  "lead_commitments (sample_state H cm) = \<lparr>nt_commitments = [cm], nt_roots = {tree_root H [cm]}\<rparr>"
  "es_total_stake (cur_epoch_state (sample_state H cm)) = 100"
  "es_nonce (cur_epoch_state (sample_state H cm)) = replicate 32 0"
  by (simp_all add: sample_state_def from_commitments_def note_tree_from_iter_eq MAX_NOTE_COMMS_def Let_def)

lemma sample_state_wf: "wf_state (sample_env H) sample_config (sample_state H cm)"
  by (rule from_commitments_wf) (use sample_from_commitments sample_epoch [of 0] in simp_all)

lemma sample_update:
  assumes root: "pf_merke_root pf = tree_root H [cm]"
    and verify: "\<And>lp. leader_public_new word256_ops (\<lambda>_. 7) (pf_merke_root pf) (replicate 32 0) 5
      (active_slot_coeff (consensus_config sample_config)) 100 (pf_nullifier pf) (pf_evolved_commitment pf)
      = Some lp \<Longrightarrow> pf_verify pf lp"
  shows "\<exists>st. (state_try_update (sample_env H) sample_config 5 pf [] (sample_state H cm)
    :: 'id state_result) = Ok st"
proof -
  have e: "lc_epoch (\<lambda>_ _. 10) sample_config 0 = Some 0" "lc_epoch (\<lambda>_ _. 10) sample_config 5 = Some 0"
    using sample_epoch [of 0] sample_epoch [of 5] by simp_all
  let ?st = "sample_state H cm"
  obtain es where es: "update_from_ledger (\<lambda>_ _. 10) sample_config (next_epoch_state ?st) ?st = Some es"
    using snapshots_total [OF e(1)] by blast
  let ?st1 = "?st\<lparr>state_slot := 5, next_epoch_state := es\<rparr>"
  have st1: "(update_epoch_state (\<lambda>_ _. 10) sample_config 5 ?st :: 'id state_result) = Ok ?st1"
    by (simp add: update_epoch_state_def e es Let_def)
  have epoch: "es_epoch (cur_epoch_state ?st1) = 0"
    using sample_state_wf [of H cm] e(1) by (simp add: wf_state_def)
  have ne: "(100 :: u64) \<noteq> 0" by simp
  obtain lp where lp: "leader_public_new word256_ops (\<lambda>_. 7) (pf_merke_root pf) (replicate 32 0) 5
      (active_slot_coeff (consensus_config sample_config)) 100 (pf_nullifier pf) (pf_evolved_commitment pf)
      = Some lp"
    using leader_public_new_total [OF word256_laws ne] .
  then have "\<exists>st2. (try_apply_proof (sample_env H) sample_config 5 pf ?st1 :: 'id state_result) = Ok st2"
    using e(2) epoch verify [OF lp] root
    by (simp add: try_apply_proof_def assert_that_def try_apply_proof_outputs_def is_valid_root_def
      is_nullified_def note_tree_insert_eq MAX_NOTE_COMMS_def)
  then show ?thesis using st1 by (auto simp: state_try_update_def try_apply_leadership_def)
qed

text \<open>A proof that verifies for every input is taken at any later slot, whatever its epoch.\<close>

lemma sample_update_at:
  assumes "lc_epoch (\<lambda>_ _. 10) sample_config slot = Some e" and "0 < slot"
  shows "\<exists>st. (state_try_update (sample_env id) sample_config slot sample_proof [] (sample_state id [1])
    :: 'id state_result) = Ok st"
proof -
  let ?st = "sample_state id [1]"
  note res = update_epoch_state_result [OF sample_state_wf [of id "[1]"], of slot]
  obtain st1 where st1: "(update_epoch_state (\<lambda>_ _. 10) sample_config slot ?st :: 'id state_result) = Ok st1"
    using res(2,3) assms by (cases "update_epoch_state (\<lambda>_ _. 10) sample_config slot ?st :: 'id state_result") auto
  then have up: "(update_epoch_state (floor_quot (sample_env id)) sample_config slot ?st :: 'id state_result) = Ok st1"
    by simp
  have ok: "wf_state (sample_env id) sample_config st1" "same_notes ?st st1" "state_slot st1 = slot"
      "es_total_stake (cur_epoch_state st1) = 100"
    using update_epoch_state_ok [OF sample_state_wf [of id "[1]"] up] by simp_all
  have epoch: "e = es_epoch (cur_epoch_state st1)" using ok(1,3) assms(1) by (simp add: wf_state_def)
  have ne: "(100 :: u64) \<noteq> 0" by simp
  obtain lp where lp: "leader_public_new word256_ops (\<lambda>_. 7) (tree_root id [[1]]) (es_nonce (cur_epoch_state st1)) slot
      (active_slot_coeff (consensus_config sample_config)) 100 [5] [6] = Some lp"
    using leader_public_new_total [OF word256_laws ne] .
  then have "\<exists>st2. (try_apply_proof (sample_env id) sample_config slot sample_proof st1 :: 'id state_result) = Ok st2"
    using assms(1) epoch ok(2,4)
    by (simp add: try_apply_proof_def assert_that_def try_apply_proof_outputs_def is_valid_root_def
      is_nullified_def note_tree_insert_eq MAX_NOTE_COMMS_def same_notes_def)
  then show ?thesis using st1 by (auto simp: state_try_update_def try_apply_leadership_def)
qed

section \<open>Properties\<close>

text \<open>
  C5. Updating a ledger state does not panic and keeps the invariant (the epoch snapshots belong
  to the slot, lead and spend commitments agree, every root of the tree is known), as long as
  the slot has an epoch number, there is stake and the note tree has room for the block. In
  particular the assertion on the epoch in \<open>try_apply_proof\<close> cannot fail.
\<close>

theorem ledger_update_total:
  fixes st :: ledger_state
  assumes "wf_state env cfg st" and "u256_laws (u256 env) val"
    and "es_total_stake (cur_epoch_state st) \<noteq> 0"
    and "lc_epoch (floor_quot env) cfg slot = Some e"
    and "length (nt_commitments (spend_commitments st)) + length orphans < MAX_NOTE_COMMS"
  shows "(state_try_update env cfg slot pf orphans st :: 'id state_result) \<noteq> Abort \<and>
    (\<forall>st'. (state_try_update env cfg slot pf orphans st :: 'id state_result) = Ok st' \<longrightarrow>
       wf_state env cfg st' \<and> state_slot st < slot \<and> state_slot st' = slot)"
proof -
  let ?u = "update_epoch_state (floor_quot env) cfg slot st :: 'id state_result"
  have "?u \<noteq> Abort" by (simp add: update_epoch_state_result(2) [OF assms(1)] assms(4))
  moreover have "try_apply_leadership env cfg slot pf orphans st1 \<noteq> (Abort :: 'id state_result)"
    if st1: "?u = Ok st1" for st1
  proof -
    note u = update_epoch_state_ok [OF assms(1) st1]
    have wf1: "wf_state env cfg st1" using u by blast
    have len: "length (nt_commitments (spend_commitments st1)) + length orphans < MAX_NOTE_COMMS"
      using u assms(5) by (simp add: same_notes_def)
    let ?o = "apply_orphans (sha env) orphans st1 :: 'id state_result"
    have "?o \<noteq> Abort" by (rule apply_orphans_not_abort [OF wf1]) (use len in simp)
    moreover have "try_apply_proof env cfg slot pf st2 \<noteq> (Abort :: 'id state_result)"
      if st2: "?o = Ok st2" for st2
      by (rule try_apply_proof_not_abort [OF apply_orphans_wf [OF wf1 st2] assms(2)])
        (use apply_orphans_ok [OF st2] u assms(3) len in \<open>simp_all add: same_epochs_def\<close>)
    ultimately show ?thesis
      by (auto simp: try_apply_leadership_def bind_outcome_Abort_iff)
  qed
  ultimately have "(state_try_update env cfg slot pf orphans st :: 'id state_result) \<noteq> Abort"
    by (auto simp: state_try_update_def bind_outcome_Abort_iff)
  then show ?thesis using state_try_update_wf [OF assms(1), where 'id = 'id] by blast
qed

theorem ledger_update_total_witness:
  "(state_try_update (sample_env id) sample_config 5 sample_proof [] (sample_state id [1]) :: nat state_result) \<noteq> Abort"
  using ledger_update_total [OF sample_state_wf [of id "[1]"], of unat 5 0 "[]" sample_proof, where 'id = nat]
    word256_laws sample_epoch [of 5] by (simp add: MAX_NOTE_COMMS_def)

text \<open>
  C24. A header with a slot past the last epoch makes the ledger panic: for every parent state,
  proof and orphans \<open>try_update\<close> aborts, before the proof is looked at, when the slot is at least
  \<open>2 ^ 32\<close> epochs away from the genesis.
\<close>

theorem far_slot_aborts:
  assumes "wf_state env cfg st" and "valid_epoch_config (epoch_config cfg)"
    and "base_period_length (floor_quot env) (consensus_config cfg) = Some n"
    and "2 ^ 32 * unat (epoch_length (epoch_config cfg) n) \<le> unat slot"
  shows "(state_try_update env cfg slot pf orphans st :: 'id state_result) = Abort"
proof -
  have none: "lc_epoch (floor_quot env) cfg slot = None"
    using epoch_of_None_iff [OF assms(2)] base_period_length_nonzero [OF assms(3)] assms(3,4)
    by (simp add: lc_epoch_def)
  have "state_slot st < slot"
  proof (rule ccontr)
    assume "\<not> state_slot st < slot"
    then have "unat slot \<le> unat (state_slot st)" by (simp add: word_less_nat_alt)
    then have "lc_epoch (floor_quot env) cfg (state_slot st) = None"
      using epoch_of_None_iff [OF assms(2), of n "state_slot st"] base_period_length_nonzero [OF assms(3)]
        assms(3,4) by (simp add: lc_epoch_def)
    then show False using assms(1) by (simp add: wf_state_def)
  qed
  then have "(update_epoch_state (floor_quot env) cfg slot st :: 'id state_result) = Abort"
    using update_epoch_state_result(2) [OF assms(1)] none by blast
  then show ?thesis by (simp add: state_try_update_def)
qed

theorem far_slot_aborts_witness:
  "(state_try_update (sample_env id) sample_config (2 ^ 60) sample_proof [] (sample_state id [1]) :: nat state_result) = Abort"
  using far_slot_aborts [OF sample_state_wf [of id "[1]"] sample_epoch_config(1), of 10 "2 ^ 60" sample_proof "[]",
    where 'id = nat]
    sample_base sample_epoch_config(2) by simp

text \<open>
  C4. No double spend on a chain: in every sequence of blocks the ledger accepts, the nullifiers
  of all leader proofs and orphans are pairwise distinct and new to the starting state, the slots
  strictly increase, and the commitments are appended in order.
\<close>

theorem chain_no_double_spend:
  assumes "wf_state env cfg st" and "(apply_blocks env cfg bs st :: 'id state_result) = Ok st'"
  shows "distinct (concat (map bu_nullifiers bs)) \<and>
    nullifiers st \<inter> set (concat (map bu_nullifiers bs)) = {} \<and>
    nullifiers st' = nullifiers st \<union> set (concat (map bu_nullifiers bs)) \<and>
    sorted_wrt (<) (state_slot st # map bu_slot bs) \<and>
    nt_commitments (spend_commitments st') =
      nt_commitments (spend_commitments st) @ concat (map bu_commitments bs)"
  using assms
proof (induction bs arbitrary: st)
  case (Cons b bs)
  obtain st1 where st1: "(state_try_update env cfg (bu_slot b) (bu_proof b) (bu_orphans b) st
      :: 'id state_result) = Ok st1" "(apply_blocks env cfg bs st1 :: 'id state_result) = Ok st'"
    using Cons.prems(2) by auto
  note w = state_try_update_wf [OF Cons.prems(1) st1(1)]
  note n = state_try_update_notes [OF Cons.prems(1) st1(1)]
  have ih: "distinct (concat (map bu_nullifiers bs))"
    "nullifiers st1 \<inter> set (concat (map bu_nullifiers bs)) = {}"
    "nullifiers st' = nullifiers st1 \<union> set (concat (map bu_nullifiers bs))"
    "sorted_wrt (<) (state_slot st1 # map bu_slot bs)"
    "nt_commitments (spend_commitments st') =
      nt_commitments (spend_commitments st1) @ concat (map bu_commitments bs)"
    using Cons.IH [OF _ st1(2)] w by blast+
  have new: "nullifiers st1 = nullifiers st \<union> set (bu_nullifiers b)" "distinct (bu_nullifiers b)"
    "nullifiers st \<inter> set (bu_nullifiers b) = {}"
    "nt_commitments (spend_commitments st1) = nt_commitments (spend_commitments st) @ bu_commitments b"
    using n by (simp_all add: bu_nullifiers_def bu_commitments_def)
  have "sorted_wrt (<) (state_slot st # map bu_slot (b # bs))"
    using ih(4) w by (auto intro: less_trans)
  then show ?case using ih new by auto
qed simp

theorem chain_no_double_spend_witness:
  "\<exists>st. (apply_blocks (sample_env id) sample_config
      [\<lparr>bu_slot = 5, bu_proof = sample_proof, bu_orphans = []\<rparr>] (sample_state id [1]) :: nat state_result) = Ok st \<and>
    nullifiers st = {[5]} \<and> nt_commitments (spend_commitments st) = [[1], [6]]"
proof -
  obtain st where st: "(apply_blocks (sample_env id) sample_config
      [\<lparr>bu_slot = 5, bu_proof = sample_proof, bu_orphans = []\<rparr>] (sample_state id [1]) :: nat state_result) = Ok st"
    using sample_update [of sample_proof id "[1]"] by auto
  show ?thesis
    using chain_no_double_spend [OF sample_state_wf [of id "[1]"] st] st by (auto simp: bu_nullifiers_def bu_commitments_def)
qed

text \<open>
  C23. The lottery is fixed for an epoch: as long as a block stays in the epoch of its parent, the
  epoch state (nonce, stake snapshot, total stake) that leaders are checked against does not
  change; in the following epoch it is exactly the rolling snapshot of the parent; and when whole
  epochs were skipped it consists of the parent's own nonce and commitments. The total stake
  never changes.
\<close>

theorem epoch_state_fixed:
  assumes "wf_state env cfg st"
    and "(state_try_update env cfg slot pf orphans st :: 'id state_result) = Ok st'"
  shows "(es_epoch (cur_epoch_state st') = es_epoch (cur_epoch_state st) \<longrightarrow>
       cur_epoch_state st' = cur_epoch_state st) \<and>
    (es_epoch (cur_epoch_state st') = es_epoch (cur_epoch_state st) + 1 \<longrightarrow>
       cur_epoch_state st' = next_epoch_state st) \<and>
    (es_epoch (cur_epoch_state st') \<notin> {es_epoch (cur_epoch_state st), es_epoch (cur_epoch_state st) + 1} \<longrightarrow>
       cur_epoch_state st' = \<lparr>es_epoch = es_epoch (cur_epoch_state st'), es_nonce = state_nonce st,
         es_commitments = spend_commitments st, es_total_stake = es_total_stake (cur_epoch_state st)\<rparr>) \<and>
    es_total_stake (cur_epoch_state st') = es_total_stake (cur_epoch_state st) \<and>
    lc_epoch (floor_quot env) cfg slot = Some (es_epoch (cur_epoch_state st'))"
proof -
  obtain st1 st2 st3 where s: "(update_epoch_state (floor_quot env) cfg slot st :: 'id state_result) = Ok st1"
    "(apply_orphans (sha env) orphans st1 :: 'id state_result) = Ok st2"
    "(try_apply_proof env cfg slot pf st2 :: 'id state_result) = Ok st3"
    "st' = update_nonce (blake env) (pf_nullifier pf) slot st3"
    using state_try_update_stages [OF assms(2)] .
  obtain lp where out: "(try_apply_proof_outputs (sha env) (pf_merke_root pf) (pf_nullifier pf)
      (pf_evolved_commitment pf) st2 :: 'id state_result) = Ok st3"
    using try_apply_proof_ok [OF s(3)] by blast
  have "cur_epoch_state st' = cur_epoch_state st1"
    using apply_orphans_ok [OF s(2)] apply_outputs_ok [OF out] s(4) by (simp add: same_epochs_def)
  then show ?thesis
    using update_epoch_state_ok [OF assms(1) s(1)] by (auto simp: wf_state_def)
qed

text \<open>A genesis state of epoch 0 followed by a block of epoch 0, of epoch 1 and of epoch 2.\<close>

theorem epoch_state_fixed_witness:
  "let st = sample_state id [1];
       next = \<lambda>slot. state_try_update (sample_env id) sample_config slot sample_proof [] st :: nat state_result
   in (\<exists>st'. next 5 = Ok st' \<and> cur_epoch_state st' = cur_epoch_state st) \<and>
      (\<exists>st'. next 105 = Ok st' \<and> es_epoch (cur_epoch_state st') = 1 \<and> cur_epoch_state st' = next_epoch_state st) \<and>
      (\<exists>st'. next 205 = Ok st' \<and> cur_epoch_state st' = \<lparr>es_epoch = 2, es_nonce = state_nonce st,
         es_commitments = spend_commitments st, es_total_stake = 100\<rparr>)"
proof -
  have e: "lc_epoch (\<lambda>_ _. 10) sample_config 5 = Some 0" "lc_epoch (\<lambda>_ _. 10) sample_config 105 = Some 1"
      "lc_epoch (\<lambda>_ _. 10) sample_config 205 = Some 2"
    by (rule sample_epoch_eq; simp)+
  have zero: "es_epoch (cur_epoch_state (sample_state id [1])) = 0"
    using sample_state_wf [of id "[1]"] sample_epoch [of 0] by (simp add: wf_state_def)
  obtain st1 st2 st3 where
      st: "state_try_update (sample_env id) sample_config 5 sample_proof [] (sample_state id [1]) = (Ok st1 :: nat state_result)"
        "state_try_update (sample_env id) sample_config 105 sample_proof [] (sample_state id [1]) = (Ok st2 :: nat state_result)"
        "state_try_update (sample_env id) sample_config 205 sample_proof [] (sample_state id [1]) = (Ok st3 :: nat state_result)"
    using sample_update_at [OF e(1)] sample_update_at [OF e(2)] sample_update_at [OF e(3)] by auto
  note fixed = epoch_state_fixed [OF sample_state_wf [of id "[1]"], simplified zero]
  have "cur_epoch_state st1 = cur_epoch_state (sample_state id [1])" using fixed [OF st(1)] e(1) by simp
  moreover have "es_epoch (cur_epoch_state st2) = 1" "cur_epoch_state st2 = next_epoch_state (sample_state id [1])"
    using fixed [OF st(2)] e(2) by simp_all
  moreover have two: "es_epoch (cur_epoch_state st3) = 2" using fixed [OF st(3)] e(3) by simp
  moreover have "cur_epoch_state st3 = \<lparr>es_epoch = 2, es_nonce = state_nonce (sample_state id [1]),
      es_commitments = spend_commitments (sample_state id [1]), es_total_stake = 100\<rparr>"
    using fixed [OF st(3), unfolded two] by simp
  ultimately show ?thesis using st by (simp add: Let_def)
qed

text \<open>
  C6. A block is accepted only from a leader that won its slot: when the receipt is sound (the
  guest program accepts the public inputs for some private input), the leader owns a note of the
  staking unit whose commitment hashes up to a root the ledger knows (of the lead commitments or
  of the epoch snapshot), its ticket for this slot and the epoch's nonce is below the threshold
  for its value and the total stake, its nullifier was not spent before and is spent now, and the
  commitment appended last is that of the evolved note.
\<close>

theorem accepted_leader_won:
  assumes "wf_state env cfg st"
    and "\<exists>i. proof_of_leadership_main (sha env) (u256 env) pub i = Some pub"
    and "(state_try_update env cfg slot (risc0_leader_proof pub) orphans st :: 'id state_result) = Ok st'"
  shows "\<exists>i phi threshold.
    nw_unit (iw_note i) = NMO_UNIT \<and>
    (let r = path_root (sha env) (leaf (sha env) (input_note_commitment (sha env) i)) (iw_cm_path i) in
     is_valid_root (lead_commitments st') r \<or> is_valid_root (es_commitments (cur_epoch_state st')) r) \<and>
    scaled_phi (u256 env) (neg_ln env (active_slot_coeff (consensus_config cfg)))
      (es_total_stake (cur_epoch_state st')) = Some phi \<and>
    phi_approx (u256 env) (u_from_u64 (u256 env) (nw_value (iw_note i))) phi = Some threshold \<and>
    u_less (u256 env) (ticket (sha env) (u256 env) i (es_nonce (cur_epoch_state st')) slot) threshold \<and>
    input_nullifier (sha env) i \<notin> nullifiers st \<and> input_nullifier (sha env) i \<in> nullifiers st' \<and>
    last (nt_commitments (spend_commitments st')) =
      commit_note (sha env) (evolve_output (sha env) i NOMOS_POL)"
proof -
  let ?pf = "risc0_leader_proof pub"
  obtain st1 st2 st3 where s: "(update_epoch_state (floor_quot env) cfg slot st :: 'id state_result) = Ok st1"
    "(apply_orphans (sha env) orphans st1 :: 'id state_result) = Ok st2"
    "(try_apply_proof env cfg slot ?pf st2 :: 'id state_result) = Ok st3"
    "st' = update_nonce (blake env) (pf_nullifier ?pf) slot st3"
    using state_try_update_stages [OF assms(3)] .
  obtain lp where lp: "leader_public_new (u256 env) (neg_ln env) (pf_merke_root ?pf)
      (es_nonce (cur_epoch_state st2)) slot (active_slot_coeff (consensus_config cfg))
      (es_total_stake (cur_epoch_state st2)) (pf_nullifier ?pf) (pf_evolved_commitment ?pf) = Some lp"
    "pf_verify ?pf lp"
    "(try_apply_proof_outputs (sha env) (pf_merke_root ?pf) (pf_nullifier ?pf)
       (pf_evolved_commitment ?pf) st2 :: 'id state_result) = Ok st3"
    using try_apply_proof_ok [OF s(3)] .
  have pub: "lp = pub" using lp(2) by (simp add: risc0_leader_proof_def)
  have cur: "cur_epoch_state st' = cur_epoch_state st2"
    using apply_outputs_ok [OF lp(3)] s(4) by (simp add: same_epochs_def)
  note phi = leader_public_new_sel [OF lp(1), unfolded pub]
  obtain i where i: "proof_of_leadership_main (sha env) (u256 env) pub i = Some pub"
    using assms(2) by blast
  have guest: "check_winning (sha env) (u256 env) pub i = Some True" "nw_unit (iw_note i) = NMO_UNIT"
    "path_root (sha env) (leaf (sha env) (input_note_commitment (sha env) i)) (iw_cm_path i) = lp_cm_root pub"
    "input_nullifier (sha env) i = lp_nullifier pub"
    "commit_note (sha env) (evolve_output (sha env) i NOMOS_POL) = lp_evolved_commitment pub"
    using i by (auto simp: proof_of_leadership_main_def bind_eq_Some_conv Let_def split: if_splits)
  obtain threshold where "phi_approx (u256 env) (u_from_u64 (u256 env) (nw_value (iw_note i)))
      (lp_scaled_phi_approx pub) = Some threshold"
    "u_less (u256 env) (ticket (sha env) (u256 env) i (es_nonce (cur_epoch_state st2)) slot) threshold"
    using guest(1) phi by (auto simp: check_winning_def)
  moreover have "is_valid_root (lead_commitments st') (lp_cm_root pub) \<or>
      is_valid_root (es_commitments (cur_epoch_state st')) (lp_cm_root pub)"
    using apply_outputs_ok [OF lp(3)] s(4) cur
    by (auto simp: risc0_leader_proof_def intro: insert_keeps_roots)
  moreover have "lp_nullifier pub \<notin> nullifiers st \<and> lp_nullifier pub \<in> nullifiers st' \<and>
      last (nt_commitments (spend_commitments st')) = lp_evolved_commitment pub"
    using state_try_update_notes [OF assms(1,3)] by (auto simp: risc0_leader_proof_def)
  ultimately show ?thesis
    using guest phi cur
    by (intro exI [of _ i] exI [of _ "lp_scaled_phi_approx pub"] exI [of _ threshold]) (simp add: Let_def)
qed

text \<open>The note of the sample leader wins under the hash that is constantly zero.\<close>

lemma foldl_zero_bytes: "foldl (\<lambda>n b. 256 * n + unat (b :: u8)) 0 (replicate k 0) = 0"
  by (induction k) simp_all

lemma zero_ticket_wins:
  fixes H :: hash
  assumes "H = (\<lambda>_. replicate 32 0)" and "nw_value (iw_note i) = 5"
    and "leader_public_new word256_ops (\<lambda>_. 7) r nonce slot coeff 100 nf ev = Some lp"
  shows "check_winning H word256_ops lp i = Some True"
proof -
  have "unat (ticket H word256_ops i nonce slot) = 0"
    unfolding ticket_def assms(1) by (simp add: word256_ops_def foldl_zero_bytes)
  moreover have "0 < 5 * (phi_t0 7 100 - phi_t1 7 100 * 5)"
    by (simp add: phi_t0_def phi_t1_def phi_order_def phi_precision_def)
  moreover have "unat (nw_value (iw_note i)) = 5" using assms(2) by simp
  ultimately show ?thesis
    using check_winning_eq [OF word256_laws _ assms(3), of i H] by simp
qed

theorem accepted_leader_won_witness:
  "\<exists>pub st'. (\<exists>i. proof_of_leadership_main (\<lambda>_. replicate 32 0) word256_ops pub i = Some pub) \<and>
    (state_try_update (sample_env (\<lambda>_. replicate 32 0)) sample_config 5 (risc0_leader_proof pub) []
      (sample_state (\<lambda>_. replicate 32 0) (replicate 32 0)) :: nat state_result) = Ok st' \<and>
    (\<exists>i. nw_unit (iw_note i) = NMO_UNIT \<and> input_nullifier (\<lambda>_. replicate 32 0) i \<in> nullifiers st')"
proof -
  define z where "z = replicate 32 (0 :: u8)"
  define H :: hash where "H = (\<lambda>_. z)"
  have hz: "H x = z" for x by (simp add: H_def)
  have room: "length (nt_commitments \<lparr>nt_commitments = [z], nt_roots = {}\<rparr>) \<le> MAX_NOTE_COMMS"
    by (simp add: MAX_NOTE_COMMS_def)
  obtain p where p: "note_tree_root H \<lparr>nt_commitments = [z], nt_roots = {}\<rparr> = Some (path_root H (leaf H z) p)"
    using note_tree_witness_path [OF room, of 0 H] by auto
  then have root: "path_root H (leaf H z) p = tree_root H [z]" using note_tree_root_eq [OF room, of H] by simp
  define i where "i = \<lparr>iw_note = note_witness_new 5 NMO_UNIT [] [] [], iw_nf_sk = [1], iw_cm_path = p\<rparr>"
  have sel: "nw_value (iw_note i) = 5" "nw_unit (iw_note i) = NMO_UNIT" "iw_cm_path i = p"
    by (simp_all add: i_def note_witness_new_def)
  have ne: "(100 :: u64) \<noteq> 0" by simp
  obtain pub where pub: "leader_public_new word256_ops (\<lambda>_. 7) (tree_root H [z]) z 5
      (active_slot_coeff (consensus_config sample_config)) 100 z z = Some pub"
    using leader_public_new_total [OF word256_laws ne] .
  note psel = leader_public_new_sel [OF pub]
  have guest: "proof_of_leadership_main H word256_ops pub i = Some pub"
    using zero_ticket_wins [OF _ sel(1) pub, of H] sel psel root
    by (simp add: proof_of_leadership_main_def input_note_commitment_def note_commit_def hz
      input_nullifier_def nullifier_new_def commit_note_def) (simp add: H_def z_def)
  have "\<exists>st'. (state_try_update (sample_env H) sample_config 5 (risc0_leader_proof pub) []
      (sample_state H z) :: nat state_result) = Ok st'"
    by (rule sample_update) (use pub psel in \<open>auto simp: risc0_leader_proof_def z_def\<close>)
  then obtain st' where st': "(state_try_update (sample_env H) sample_config 5 (risc0_leader_proof pub) []
      (sample_state H z) :: nat state_result) = Ok st'" by blast
  have "\<exists>i. nw_unit (iw_note i) = NMO_UNIT \<and> input_nullifier H i \<in> nullifiers st'"
    using accepted_leader_won [OF sample_state_wf _ st'] guest by fastforce
  then show ?thesis using guest st' unfolding H_def z_def by blast
qed

end
