(* ===== verification/Blocks.thy ===== *)
theory Blocks
  imports Ledger
begin

text \<open>
  Headers and blocks: \<open>nomos-core/chain-defs/src/header/mod.rs\<close>, \<open>block/builder.rs\<close>,
  \<open>utils/select.rs\<close>, \<open>tx/select.rs\<close> and \<open>da/blob/select.rs\<close>. Blake2b is a parameter \<open>B\<close>; of a leader
  proof only the public inputs matter here. The wire format (bincode) is a parameter \<open>wire\<close> that
  gives the bytes of a value, or \<open>None\<close> when serialisation fails.
\<close>

section \<open>Headers\<close>

type_synonym header_hash = bytes
type_synonym content_id = bytes

datatype 'u header = Header
  (h_parent: header_hash) (h_slot: slot) (h_content_size: u32) (h_content_id: content_id)
  (h_leader_proof: "'u leader_public") (h_orphaned_proofs: "'u header list")

text \<open>What \<open>update_hasher\<close> feeds to the hash.\<close>

fun update_hasher :: "'u header \<Rightarrow> bytes" where
  "update_hasher (Header parent slot content_size content_id proof' orphans) =
     [1] @ be_bytes 4 content_size @ content_id @ be_bytes 8 slot @ parent @
     lp_nullifier proof' @ lp_evolved_commitment proof' @ concat (map update_hasher orphans)"

definition header_id :: "hash \<Rightarrow> 'u header \<Rightarrow> header_hash" where
  "header_id B h = B (update_hasher h)"

definition header_new ::
  "header_hash \<Rightarrow> u32 \<Rightarrow> content_id \<Rightarrow> slot \<Rightarrow> 'u leader_public \<Rightarrow> 'u header" where
  "header_new parent content_size content_id slot proof' =
     Header parent slot content_size content_id proof' []"

definition with_orphaned_proofs :: "'u header \<Rightarrow> 'u header list \<Rightarrow> 'u header" where
  "with_orphaned_proofs h orphans =
     Header (h_parent h) (h_slot h) (h_content_size h) (h_content_id h) (h_leader_proof h) orphans"

record 'u header_builder =
  hb_parent :: header_hash
  hb_slot :: slot
  hb_leader_proof :: "'u leader_public"
  hb_orphaned_proofs :: "'u header list"

definition header_builder_new :: "header_hash \<Rightarrow> slot \<Rightarrow> 'u leader_public \<Rightarrow> 'u header_builder" where
  "header_builder_new parent slot proof' =
     \<lparr>hb_parent = parent, hb_slot = slot, hb_leader_proof = proof', hb_orphaned_proofs = []\<rparr>"

definition builder_with_orphaned_proofs :: "'u header_builder \<Rightarrow> 'u header list \<Rightarrow> 'u header_builder" where
  "builder_with_orphaned_proofs b orphans = b\<lparr>hb_orphaned_proofs := orphans\<rparr>"

definition header_build :: "'u header_builder \<Rightarrow> content_id \<Rightarrow> u32 \<Rightarrow> 'u header" where
  "header_build b content_id content_size =
     Header (hb_parent b) (hb_slot b) content_size content_id (hb_leader_proof b) (hb_orphaned_proofs b)"

section \<open>Selection of block contents\<close>

text \<open>\<open>select_from_till_fill_size\<close>: the closure of \<open>take_while\<close> carries the size so far, a
  \<open>usize\<close> that wraps.\<close>

fun fill_from :: "u64 \<Rightarrow> ('a \<Rightarrow> u64) \<Rightarrow> u64 \<Rightarrow> 'a list \<Rightarrow> 'a list" where
  "fill_from limit size_of current [] = []"
| "fill_from limit size_of current (x # xs) =
     (let current' = current + size_of x in
      if current' \<le> limit then x # fill_from limit size_of current' xs else [])"

definition select_from_till_fill_size :: "u64 \<Rightarrow> ('a \<Rightarrow> u64) \<Rightarrow> 'a list \<Rightarrow> 'a list" where
  "select_from_till_fill_size limit size_of items = fill_from limit size_of 0 items"

definition select_tx_from :: "u64 \<Rightarrow> ('tx \<Rightarrow> bytes) \<Rightarrow> 'tx list \<Rightarrow> 'tx list" where
  "select_tx_from limit as_bytes txs =
     select_from_till_fill_size limit (\<lambda>tx. of_nat (length (as_bytes tx))) txs"

definition select_blob_from :: "u64 \<Rightarrow> ('b \<Rightarrow> u64) \<Rightarrow> 'b list \<Rightarrow> 'b list" where
  "select_blob_from limit blob_size certificates =
     select_from_till_fill_size limit blob_size certificates"

section \<open>Blocks\<close>

text \<open>Collecting into an \<open>IndexSet\<close> keeps the first of equal elements, in order.\<close>

definition index_set :: "'a list \<Rightarrow> 'a list" where
  "index_set xs = foldl (\<lambda>s x. if x \<in> set s then s else s @ [x]) [] xs"

record ('u, 'tx, 'b) block =
  bl_header :: "'u header"
  cl_transactions :: "'tx list"
  bl_blobs :: "'b list"

datatype build_error = ContentTooBig nat | IncompleteBlock

record ('u, 'tx, 'b) block_builder =
  bb_select_tx :: "'tx list \<Rightarrow> 'tx list"
  bb_select_blob :: "'b list \<Rightarrow> 'b list"
  bb_header_builder :: "'u header_builder"
  bb_txs :: "'tx list option"
  bb_blobs :: "'b list option"

definition block_builder_new ::
  "('tx list \<Rightarrow> 'tx list) \<Rightarrow> ('b list \<Rightarrow> 'b list) \<Rightarrow> 'u header_builder \<Rightarrow> ('u, 'tx, 'b) block_builder" where
  "block_builder_new tx_selector blob_selector header_builder =
     \<lparr>bb_select_tx = tx_selector, bb_select_blob = blob_selector,
      bb_header_builder = header_builder, bb_txs = None, bb_blobs = None\<rparr>"

definition with_transactions :: "('u, 'tx, 'b) block_builder \<Rightarrow> 'tx list \<Rightarrow> ('u, 'tx, 'b) block_builder" where
  "with_transactions b txs = b\<lparr>bb_txs := Some txs\<rparr>"

definition with_blobs_info :: "('u, 'tx, 'b) block_builder \<Rightarrow> 'b list \<Rightarrow> ('u, 'tx, 'b) block_builder" where
  "with_blobs_info b blobs = b\<lparr>bb_blobs := Some blobs\<rparr>"

definition block_build ::
  "hash \<Rightarrow> ('tx list \<times> 'b list \<Rightarrow> bytes option) \<Rightarrow> ('u, 'tx, 'b) block_builder \<Rightarrow>
     (build_error, ('u, 'tx, 'b) block) outcome" where
  "block_build B wire b =
     (case (bb_txs b, bb_blobs b) of
        (Some txs, Some blobs) \<Rightarrow>
          let txs' = index_set (bb_select_tx b txs);
              blobs' = index_set (bb_select_blob b blobs) in
          bind_outcome (expect (wire (txs', blobs'))) (\<lambda>serialized_content.
            if length serialized_content \<ge> 2 ^ 32 then Err (ContentTooBig (length serialized_content))
            else
              let header = header_build (bb_header_builder b) (B serialized_content)
                             (of_nat (length serialized_content)) in
              Ok \<lparr>bl_header = header, cl_transactions = txs', bl_blobs = blobs'\<rparr>)
      | _ \<Rightarrow> Err IncompleteBlock)"

definition block_as_bytes ::
  "(('u, 'tx, 'b) block \<Rightarrow> bytes option) \<Rightarrow> ('u, 'tx, 'b) block \<Rightarrow> bytes option" where
  "block_as_bytes wire_block b = wire_block b"

section \<open>Properties\<close>

definition header_sizes :: "'u header \<Rightarrow> bool" where
  "header_sizes h \<longleftrightarrow>
     length (h_parent h) = 32 \<and> length (h_content_id h) = 32 \<and>
     length (lp_nullifier (h_leader_proof h)) = 32 \<and>
     length (lp_evolved_commitment (h_leader_proof h)) = 32"

lemma update_hasher_eq:
  "update_hasher h =
     [1] @ be_bytes 4 (h_content_size h) @ h_content_id h @ be_bytes 8 (h_slot h) @ h_parent h @
     lp_nullifier (h_leader_proof h) @ lp_evolved_commitment (h_leader_proof h) @
     concat (map update_hasher (h_orphaned_proofs h))"
  by (cases h) simp

lemma update_hasher_inject:
  assumes "header_sizes h" and "header_sizes h'" and "update_hasher h = update_hasher h'"
  shows "h_parent h = h_parent h' \<and> h_slot h = h_slot h' \<and> h_content_size h = h_content_size h' \<and>
    h_content_id h = h_content_id h' \<and>
    lp_nullifier (h_leader_proof h) = lp_nullifier (h_leader_proof h') \<and>
    lp_evolved_commitment (h_leader_proof h) = lp_evolved_commitment (h_leader_proof h') \<and>
    concat (map update_hasher (h_orphaned_proofs h)) = concat (map update_hasher (h_orphaned_proofs h'))"
proof -
  have "be_bytes 4 (h_content_size h) = be_bytes 4 (h_content_size h') \<and>
    h_content_id h = h_content_id h' \<and> be_bytes 8 (h_slot h) = be_bytes 8 (h_slot h') \<and>
    h_parent h = h_parent h' \<and>
    lp_nullifier (h_leader_proof h) = lp_nullifier (h_leader_proof h') \<and>
    lp_evolved_commitment (h_leader_proof h) = lp_evolved_commitment (h_leader_proof h') \<and>
    concat (map update_hasher (h_orphaned_proofs h)) = concat (map update_hasher (h_orphaned_proofs h'))"
    using assms by (subst (asm) (1 2) update_hasher_eq) (simp add: header_sizes_def)
  then show ?thesis
    using be_bytes_inject [of 4 "h_content_size h" "h_content_size h'"]
      be_bytes_inject [of 8 "h_slot h" "h_slot h'"] by simp
qed

definition sample_header :: "header_hash \<Rightarrow> slot \<Rightarrow> unit header" where
  "sample_header parent slot = header_new parent 7 (replicate 32 2) slot
     \<lparr>lp_cm_root = [], lp_epoch_nonce = [], lp_slot = slot, lp_scaled_phi_approx = ((), ()),
      lp_nullifier = replicate 32 3, lp_evolved_commitment = replicate 32 4\<rparr>"

text \<open>
  A header identifier binds the header's own position and contents: headers of equal
  identifier have the same parent, slot, content size and id, nullifier and evolved commitment,
  unless Blake2b collides on them. So a header that is delivered again under its identifier is
  consistent with what the engine stored.
\<close>

theorem header_id_binds:
  assumes "header_sizes h" and "header_sizes h'"
    and "inj_on B {update_hasher h, update_hasher h'}" and "header_id B h = header_id B h'"
  shows "h_parent h = h_parent h' \<and> h_slot h = h_slot h' \<and> h_content_size h = h_content_size h' \<and>
    h_content_id h = h_content_id h' \<and>
    lp_nullifier (h_leader_proof h) = lp_nullifier (h_leader_proof h') \<and>
    lp_evolved_commitment (h_leader_proof h) = lp_evolved_commitment (h_leader_proof h')"
proof -
  have "update_hasher h = update_hasher h'"
    by (rule inj_onD [OF assms(3)]) (use assms(4) in \<open>simp_all add: header_id_def\<close>)
  then show ?thesis using update_hasher_inject [OF assms(1,2)] by blast
qed

theorem header_id_binds_witness:
  "h_parent (sample_header (replicate 32 1) 9) =
   h_parent (with_orphaned_proofs (sample_header (replicate 32 1) 9) [])"
  using header_id_binds [of "sample_header (replicate 32 1) 9"
    "with_orphaned_proofs (sample_header (replicate 32 1) 9) []" id]
  by (simp add: header_sizes_def sample_header_def header_new_def with_orphaned_proofs_def header_id_def)

text \<open>
  A header identifier does not bind the orphaned proofs: moving the orphans of an orphan one
  level up gives a different header with the same identifier, under every hash. The two headers
  spend different nullifiers, since only the top level of orphans reaches the ledger.
\<close>

theorem header_id_ignores_nesting:
  "header_id B (with_orphaned_proofs h [with_orphaned_proofs a [b]]) =
     header_id B (with_orphaned_proofs h [with_orphaned_proofs a [], b]) \<and>
   with_orphaned_proofs h [with_orphaned_proofs a [b]] \<noteq>
     with_orphaned_proofs h [with_orphaned_proofs a [], b]"
  by (simp add: header_id_def with_orphaned_proofs_def)

lemma fill_from_prefix:
  "unat current + (\<Sum>x \<leftarrow> xs. unat (size_of x)) < 2 ^ 64 \<Longrightarrow> unat current \<le> unat limit \<Longrightarrow>
     \<exists>n \<le> length xs. fill_from limit size_of current xs = take n xs \<and>
       unat current + (\<Sum>x \<leftarrow> take n xs. unat (size_of x)) \<le> unat limit \<and>
       (n < length xs \<longrightarrow>
          unat limit < unat current + (\<Sum>x \<leftarrow> take (Suc n) xs. unat (size_of x)))"
proof (induction xs arbitrary: current)
  case (Cons x xs)
  have sum: "unat (current + size_of x) = unat current + unat (size_of x)"
    using Cons.prems(1) by (simp add: unat_word_ariths)
  show ?case
  proof (cases "current + size_of x \<le> limit")
    case True
    then obtain n where "n \<le> length xs" "fill_from limit size_of (current + size_of x) xs = take n xs"
      "unat (current + size_of x) + (\<Sum>y \<leftarrow> take n xs. unat (size_of y)) \<le> unat limit"
      "n < length xs \<longrightarrow>
         unat limit < unat (current + size_of x) + (\<Sum>y \<leftarrow> take (Suc n) xs. unat (size_of y))"
      using Cons.IH [of "current + size_of x"] Cons.prems(1) sum by (auto simp: word_le_nat_alt)
    then show ?thesis using True sum by (intro exI [of _ "Suc n"]) (auto simp: Let_def add.assoc)
  next
    case False
    then show ?thesis
      using sum Cons.prems(2) by (intro exI [of _ 0]) (simp add: Let_def word_le_nat_alt)
  qed
qed simp

text \<open>
  Block contents: as long as the sizes of all items fit a \<open>usize\<close>, the selector returns the
  longest prefix of the items whose total size does not exceed the limit.
\<close>

theorem fill_size_longest_prefix:
  assumes "(\<Sum>x \<leftarrow> items. unat (size_of x)) < 2 ^ 64"
  shows "\<exists>n \<le> length items. select_from_till_fill_size limit size_of items = take n items \<and>
    (\<Sum>x \<leftarrow> take n items. unat (size_of x)) \<le> unat limit \<and>
    (n < length items \<longrightarrow> unat limit < (\<Sum>x \<leftarrow> take (Suc n) items. unat (size_of x)))"
  using fill_from_prefix [of 0 size_of items limit] assms by (simp add: select_from_till_fill_size_def)

theorem fill_size_longest_prefix_witness:
  "(\<Sum>x \<leftarrow> select_from_till_fill_size 10 id [4, 5, 6]. unat (id x :: u64)) \<le> 10"
  using fill_size_longest_prefix [of id "[4, 5, 6]" 10] by auto

end
