(* ===== verification/Consensus.thy ===== *)
theory Consensus
  imports Engine Blocks "HOL-Library.List_Lexorder"
begin

text \<open>
  The consensus service, \<open>nomos-services/cryptarchia-consensus/src/lib.rs\<close> and \<open>states.rs\<close>: the
  engine and the ledger side by side (\<open>Cryptarchia\<close>), the handlers of blocks, slot ticks and
  queries, and the recovery of a stopped node.

  A handler returns the new state together with the messages it sends to the other services, in
  the order in which it sends them. Replies of other services are arguments: the sampled blobs,
  the contents of the mempools (\<open>None\<close> when the request fails) and the blocks in storage. The
  hash of a transaction and the identifier of a blob are functions of the generic types. A result
  \<open>None\<close> is a panic.
\<close>

section \<open>Ledger and engine\<close>

datatype consensus_error =
    LedgerFailed "header_hash ledger_error"
  | EngineFailed "header_hash engine_error"

record 'f consensus =
  cs_ledger :: "(header_hash, 'f) ledger"
  cs_engine :: "(header_hash, 'f) cryptarchia"

definition consensus_new :: "header_hash \<Rightarrow> ledger_state \<Rightarrow> 'f ledger_config \<Rightarrow> 'f consensus" where
  "consensus_new i st cfg =
     \<lparr>cs_ledger = ledger_new i st cfg, cs_engine = cryptarchia_new i (consensus_config cfg)\<rparr>"

definition consensus_tip :: "'f consensus \<Rightarrow> header_hash" where
  "consensus_tip c = tip (cs_engine c)"

definition tip_state :: "'f consensus \<Rightarrow> ledger_state option" where
  "tip_state c = ledger_state_of (cs_ledger c) (consensus_tip c)"

definition consensus_genesis :: "'f consensus \<Rightarrow> header_hash" where
  "consensus_genesis c = genesis_id (cs_engine c)"

definition header_orphans :: "hash \<Rightarrow> 'u header \<Rightarrow> (header_hash \<times> orphan_proof) list" where
  "header_orphans B h =
     map (\<lambda>imported. (header_id B imported, to_orphan_proof (risc0_leader_proof (h_leader_proof imported))))
       (h_orphaned_proofs h)"

definition ledger_apply ::
  "('u, 'f) chain_env \<Rightarrow> 'u header \<Rightarrow> (header_hash, 'f) ledger \<Rightarrow>
     (consensus_error, (header_hash, 'f) ledger) outcome" where
  "ledger_apply env h l =
     map_err LedgerFailed (ledger_try_update env (header_id (blake env) h) (h_parent h) (h_slot h)
       (risc0_leader_proof (h_leader_proof h)) (header_orphans (blake env) h) l)"

definition engine_apply ::
  "(header_hash set \<Rightarrow> header_hash list) \<Rightarrow> ('u, 'f) chain_env \<Rightarrow> 'u header \<Rightarrow>
     (header_hash, 'f) cryptarchia \<Rightarrow> (consensus_error, (header_hash, 'f) cryptarchia) outcome" where
  "engine_apply iter env h c =
     map_err EngineFailed
       (receive_block iter (floor_quot env) c (header_id (blake env) h) (h_parent h) (h_slot h))"

definition try_apply_header ::
  "(header_hash set \<Rightarrow> header_hash list) \<Rightarrow> ('u, 'f) chain_env \<Rightarrow> 'u header \<Rightarrow> 'f consensus \<Rightarrow>
     (consensus_error, 'f consensus) outcome" where
  "try_apply_header iter env h c =
     bind_outcome (ledger_apply env h (cs_ledger c)) (\<lambda>l.
     bind_outcome (engine_apply iter env h (cs_engine c)) (\<lambda>e.
       Ok \<lparr>cs_ledger = l, cs_engine = e\<rparr>))"

text \<open>The outer option is \<open>None\<close> when a call panics.\<close>

definition epoch_state_for_slot ::
  "'f floor_div \<Rightarrow> 'f consensus \<Rightarrow> slot \<Rightarrow> epoch_state option option" where
  "epoch_state_for_slot fdiv c slot =
     Option.bind (tip_state c) (\<lambda>state.
     Option.bind (lc_epoch fdiv (ledger_conf (cs_ledger c)) slot) (\<lambda>requested_epoch.
       Some (if es_epoch (cur_epoch_state state) = requested_epoch then Some (cur_epoch_state state)
             else if requested_epoch = es_epoch (next_epoch_state state) then Some (next_epoch_state state)
             else None)))"

section \<open>Blocks\<close>

datatype ('u, 'tx, 'b, 'tk, 'bk) service_msg =
    MarkTransactions "'tk list" header_hash
  | MarkBlobsInfo "'bk list" header_hash
  | MarkSampled "'bk list"
  | StoreBlock header_hash "('u, 'tx, 'b) block"
  | BroadcastBlock "('u, 'tx, 'b) block"

definition validate_block :: "('b \<Rightarrow> 'bk) \<Rightarrow> ('u, 'tx, 'b) block \<Rightarrow> 'bk set \<Rightarrow> bool" where
  "validate_block blob_id b sampled_blobs_ids =
     list_all (\<lambda>blob. blob_id blob \<in> sampled_blobs_ids) (bl_blobs b)"

definition process_block ::
  "(header_hash set \<Rightarrow> header_hash list) \<Rightarrow> ('u, 'f) chain_env \<Rightarrow> ('tx \<Rightarrow> 'tk) \<Rightarrow> ('b \<Rightarrow> 'bk) \<Rightarrow>
     'bk set option \<Rightarrow> ('u, 'tx, 'b) block \<Rightarrow> 'f consensus \<Rightarrow> (header_hash, 'f) leader \<Rightarrow>
     ('f consensus \<times> (header_hash, 'f) leader \<times> ('u, 'tx, 'b, 'tk, 'bk) service_msg list) option" where
  "process_block iter env tx_id blob_id sampled_blobs b c l =
     (let h = bl_header b; i = header_id (blake env) h in
      case sampled_blobs of
        None \<Rightarrow> Some (c, l, [])
      | Some sampled \<Rightarrow>
          if \<not> validate_block blob_id b sampled then Some (c, l, [])
          else
            case try_apply_header iter env h c of
              Ok c' \<Rightarrow>
                Some (c', follow_chain (sha env) l (h_parent h) i (lp_nullifier (h_leader_proof h)),
                  [MarkTransactions (map tx_id (cl_transactions b)) i,
                   MarkBlobsInfo (map blob_id (bl_blobs b)) i,
                   MarkSampled (map blob_id (bl_blobs b)),
                   StoreBlock i b,
                   BroadcastBlock b])
            | Err e \<Rightarrow> Some (c, l, [])
            | Abort \<Rightarrow> None)"

definition propose_block ::
  "hash \<Rightarrow> ('tx list \<times> 'b list \<Rightarrow> bytes option) \<Rightarrow> ('b \<Rightarrow> 'bk) \<Rightarrow> header_hash \<Rightarrow> slot \<Rightarrow>
     'u leader_public \<Rightarrow> ('tx list \<Rightarrow> 'tx list) \<Rightarrow> ('b list \<Rightarrow> 'b list) \<Rightarrow>
     'tx list option \<Rightarrow> 'b list option \<Rightarrow> 'bk set option \<Rightarrow> ('u, 'tx, 'b) block option option" where
  "propose_block B wire blob_id parent slot proof' tx_selector blob_selector cl_txs da_certs blobs_ids =
     (case (cl_txs, da_certs, blobs_ids) of
        (Some txs, Some da_blobs_info, Some ids) \<Rightarrow>
          (case block_build B wire
             (with_blobs_info
               (with_transactions
                 (block_builder_new tx_selector blob_selector (header_builder_new parent slot proof')) txs)
               (filter (\<lambda>info. blob_id info \<in> ids) da_blobs_info)) of
             Ok b \<Rightarrow> Some (Some b)
           | _ \<Rightarrow> None)
      | _ \<Rightarrow> Some None)"

text \<open>The branch of \<open>run\<close> for a slot tick: the block handed to the blend service, if any. The
  prover is an argument that returns the public inputs a valid proof exists for.\<close>

definition slot_tick_block ::
  "('u, 'f) chain_env \<Rightarrow> ('u leader_public \<Rightarrow> input_witness \<Rightarrow> 'u leader_public option) \<Rightarrow>
     ('tx list \<times> 'b list \<Rightarrow> bytes option) \<Rightarrow> ('b \<Rightarrow> 'bk) \<Rightarrow> ('tx list \<Rightarrow> 'tx list) \<Rightarrow>
     ('b list \<Rightarrow> 'b list) \<Rightarrow> 'tx list option \<Rightarrow> 'b list option \<Rightarrow> 'bk set option \<Rightarrow> slot \<Rightarrow>
     'f consensus \<Rightarrow> (header_hash, 'f) leader \<Rightarrow> ('u, 'tx, 'b) block option option" where
  "slot_tick_block env prove wire blob_id tx_selector blob_selector cl_txs da_certs blobs_ids slot c l =
     Option.bind (tip_state c) (\<lambda>state.
     Option.bind (epoch_state_for_slot (floor_quot env) c slot) (\<lambda>es.
       case es of
         None \<Rightarrow> Some None
       | Some epoch_state \<Rightarrow>
           Option.bind (build_proof_for (sha env) (u256 env) (neg_ln env) prove l (lead_commitments state)
               (es_nonce epoch_state) (es_total_stake epoch_state) slot (consensus_tip c)) (\<lambda>proof'.
             case proof' of
               None \<Rightarrow> Some None
             | Some p \<Rightarrow>
                 propose_block (blake env) wire blob_id (consensus_tip c) slot p tx_selector blob_selector
                   cl_txs da_certs blobs_ids)))"

section \<open>Queries\<close>

definition HEADERS_LIMIT :: nat where "HEADERS_LIMIT = 512"

record cryptarchia_info =
  info_tip :: header_hash
  info_slot :: slot
  info_height :: nat

datatype consensus_msg = Info | GetHeaders "header_hash option" "header_hash option"

datatype consensus_reply = InfoReply cryptarchia_info | HeadersReply "header_hash list"

text \<open>The loop of \<open>GetHeaders\<close>; the number is the room left in the reply.\<close>

fun headers_walk :: "'id branches \<Rightarrow> 'id \<Rightarrow> 'id \<Rightarrow> nat \<Rightarrow> 'id \<Rightarrow> 'id list" where
  "headers_walk bs to genesis 0 cur = []"
| "headers_walk bs to genesis (Suc n) cur =
     (case branches_get bs cur of
        None \<Rightarrow> []
      | Some h \<Rightarrow>
          branch_id h # (if cur = to \<or> cur = genesis \<or> n = 0 then []
                         else headers_walk bs to genesis n (branch_parent h)))"

definition consensus_process_message :: "'f consensus \<Rightarrow> consensus_msg \<Rightarrow> consensus_reply option" where
  "consensus_process_message c msg =
     (case msg of
        Info \<Rightarrow>
          Option.bind (tip_state c) (\<lambda>state.
          Option.bind (branches_get (branches_of (cs_engine c)) (consensus_tip c)) (\<lambda>branch.
            Some (InfoReply \<lparr>info_tip = consensus_tip c, info_slot = state_slot state,
                             info_height = branch_length branch\<rparr>)))
      | GetHeaders from to \<Rightarrow>
          let from' = (case from of None \<Rightarrow> consensus_tip c | Some i \<Rightarrow> i);
              to' = (case to of None \<Rightarrow> consensus_genesis c | Some i \<Rightarrow> i) in
          Some (HeadersReply (headers_walk (branches_of (cs_engine c)) to' (consensus_genesis c)
                                HEADERS_LIMIT from')))"

section \<open>Recovery\<close>

record consensus_state =
  rs_tip :: "header_hash option"
  rs_security_block :: "header_hash option"
  rs_security_ledger_state :: "ledger_state option"
  rs_security_leader_notes :: "note_witness list option"

definition from_settings :: consensus_state where
  "from_settings = \<lparr>rs_tip = None, rs_security_block = None, rs_security_ledger_state = None,
     rs_security_leader_notes = None\<rparr>"

definition from_cryptarchia :: "'f consensus \<Rightarrow> (header_hash, 'f) leader \<Rightarrow> consensus_state" where
  "from_cryptarchia c l =
     (let security_block_header = get_security_block_header_id (cs_engine c) in
      \<lparr>rs_tip = Some (consensus_tip c),
       rs_security_block = security_block_header,
       rs_security_ledger_state = Option.bind security_block_header (ledger_state_of (cs_ledger c)),
       rs_security_leader_notes = Option.bind security_block_header (leader_notes l)\<rparr>)"

definition can_recover :: "consensus_state \<Rightarrow> bool" where
  "can_recover s \<longleftrightarrow> rs_tip s \<noteq> None"

definition can_recover_from_security :: "consensus_state \<Rightarrow> bool" where
  "can_recover_from_security s \<longleftrightarrow>
     can_recover s \<and> rs_security_block s \<noteq> None \<and> rs_security_ledger_state s \<noteq> None \<and>
     rs_security_leader_notes s \<noteq> None"

datatype initialisation_strategy =
    GenesisStrategy
  | RecoveryFromGenesis header_hash
  | RecoveryFromSecurity header_hash header_hash ledger_state "note_witness list"

definition recovery_strategy :: "consensus_state \<Rightarrow> initialisation_strategy" where
  "recovery_strategy s =
     (if can_recover_from_security s then
        RecoveryFromSecurity (the (rs_tip s)) (the (rs_security_block s))
          (the (rs_security_ledger_state s)) (the (rs_security_leader_notes s))
      else if can_recover s then RecoveryFromGenesis (the (rs_tip s))
      else GenesisStrategy)"

text \<open>The stream of \<open>get_blocks_in_range\<close>, from the tip backwards; a missing block is a panic, and
  the stream does not end when the parents never reach \<open>from\<close>.\<close>

partial_function (option) blocks_back ::
  "(header_hash \<Rightarrow> ('u, 'tx, 'b) block option) \<Rightarrow> header_hash \<Rightarrow> header_hash \<Rightarrow>
     ('u, 'tx, 'b) block list option" where
  "blocks_back get_block from i =
     (if i = from then Some []
      else Option.bind (get_block i) (\<lambda>b.
           Option.bind (blocks_back get_block from (h_parent (bl_header b))) (\<lambda>bs. Some (b # bs))))"

definition get_blocks_in_range ::
  "(header_hash \<Rightarrow> ('u, 'tx, 'b) block option) \<Rightarrow> header_hash \<Rightarrow> header_hash \<Rightarrow>
     ('u, 'tx, 'b) block list option" where
  "get_blocks_in_range get_block from to = map_option rev (blocks_back get_block from to)"

text \<open>Blocks one after the other; \<open>sampled b\<close> is the reply of the sampling service for \<open>b\<close>.\<close>

fun process_blocks ::
  "(header_hash set \<Rightarrow> header_hash list) \<Rightarrow> ('u, 'f) chain_env \<Rightarrow> ('tx \<Rightarrow> 'tk) \<Rightarrow> ('b \<Rightarrow> 'bk) \<Rightarrow>
     (('u, 'tx, 'b) block \<Rightarrow> 'bk set option) \<Rightarrow> ('u, 'tx, 'b) block list \<Rightarrow> 'f consensus \<Rightarrow>
     (header_hash, 'f) leader \<Rightarrow>
     ('f consensus \<times> (header_hash, 'f) leader \<times> ('u, 'tx, 'b, 'tk, 'bk) service_msg list) option" where
  "process_blocks iter env tx_id blob_id sampled [] c l = Some (c, l, [])"
| "process_blocks iter env tx_id blob_id sampled (b # bs) c l =
     Option.bind (process_block iter env tx_id blob_id (sampled b) b c l) (\<lambda>(c1, l1, m1).
     Option.bind (process_blocks iter env tx_id blob_id sampled bs c1 l1) (\<lambda>(c2, l2, m2).
       Some (c2, l2, m1 @ m2)))"

definition recover_cryptarchia ::
  "(header_hash set \<Rightarrow> header_hash list) \<Rightarrow> ('u, 'f) chain_env \<Rightarrow> ('tx \<Rightarrow> 'tk) \<Rightarrow> ('b \<Rightarrow> 'bk) \<Rightarrow>
     (('u, 'tx, 'b) block \<Rightarrow> 'bk set option) \<Rightarrow> (header_hash \<Rightarrow> ('u, 'tx, 'b) block option) \<Rightarrow>
     header_hash \<Rightarrow> ledger_state \<Rightarrow> header_hash \<Rightarrow> (header_hash, 'f) leader \<Rightarrow> 'f ledger_config \<Rightarrow>
     ('f consensus \<times> (header_hash, 'f) leader \<times> ('u, 'tx, 'b, 'tk, 'bk) service_msg list) option" where
  "recover_cryptarchia iter env tx_id blob_id sampled get_block from st to l cfg =
     Option.bind (get_blocks_in_range get_block from to) (\<lambda>blocks.
       process_blocks iter env tx_id blob_id sampled blocks (consensus_new from st cfg) l)"

definition build_from_genesis ::
  "header_hash \<Rightarrow> ledger_state \<Rightarrow> leader_settings \<Rightarrow> 'f ledger_config \<Rightarrow>
     'f consensus \<times> (header_hash, 'f) leader" where
  "build_from_genesis g st ls cfg = (consensus_new g st cfg, leader_from_genesis g ls cfg)"

definition recover_from_genesis ::
  "(header_hash set \<Rightarrow> header_hash list) \<Rightarrow> ('u, 'f) chain_env \<Rightarrow> ('tx \<Rightarrow> 'tk) \<Rightarrow> ('b \<Rightarrow> 'bk) \<Rightarrow>
     (('u, 'tx, 'b) block \<Rightarrow> 'bk set option) \<Rightarrow> (header_hash \<Rightarrow> ('u, 'tx, 'b) block option) \<Rightarrow>
     header_hash \<Rightarrow> header_hash \<Rightarrow> ledger_state \<Rightarrow> leader_settings \<Rightarrow> 'f ledger_config \<Rightarrow>
     ('f consensus \<times> (header_hash, 'f) leader \<times> ('u, 'tx, 'b, 'tk, 'bk) service_msg list) option" where
  "recover_from_genesis iter env tx_id blob_id sampled get_block to g st ls cfg =
     recover_cryptarchia iter env tx_id blob_id sampled get_block g st to (leader_from_genesis g ls cfg) cfg"

definition recover_from_security ::
  "(header_hash set \<Rightarrow> header_hash list) \<Rightarrow> ('u, 'f) chain_env \<Rightarrow> ('tx \<Rightarrow> 'tk) \<Rightarrow> ('b \<Rightarrow> 'bk) \<Rightarrow>
     (('u, 'tx, 'b) block \<Rightarrow> 'bk set option) \<Rightarrow> (header_hash \<Rightarrow> ('u, 'tx, 'b) block option) \<Rightarrow>
     header_hash \<Rightarrow> header_hash \<Rightarrow> ledger_state \<Rightarrow> note_witness list \<Rightarrow> leader_settings \<Rightarrow>
     'f ledger_config \<Rightarrow>
     ('f consensus \<times> (header_hash, 'f) leader \<times> ('u, 'tx, 'b, 'tk, 'bk) service_msg list) option" where
  "recover_from_security iter env tx_id blob_id sampled get_block to sec st notes' ls cfg =
     recover_cryptarchia iter env tx_id blob_id sampled get_block sec st to
       (leader_new sec notes' (ls_nf_sk ls) cfg) cfg"

definition build_cryptarchia ::
  "(header_hash set \<Rightarrow> header_hash list) \<Rightarrow> ('u, 'f) chain_env \<Rightarrow> ('tx \<Rightarrow> 'tk) \<Rightarrow> ('b \<Rightarrow> 'bk) \<Rightarrow>
     (('u, 'tx, 'b) block \<Rightarrow> 'bk set option) \<Rightarrow> (header_hash \<Rightarrow> ('u, 'tx, 'b) block option) \<Rightarrow>
     consensus_state \<Rightarrow> header_hash \<Rightarrow> ledger_state \<Rightarrow> leader_settings \<Rightarrow> 'f ledger_config \<Rightarrow>
     ('f consensus \<times> (header_hash, 'f) leader \<times> ('u, 'tx, 'b, 'tk, 'bk) service_msg list) option" where
  "build_cryptarchia iter env tx_id blob_id sampled get_block init g st ls cfg =
     (case recovery_strategy init of
        GenesisStrategy \<Rightarrow> (case build_from_genesis g st ls cfg of (c, l) \<Rightarrow> Some (c, l, []))
      | RecoveryFromGenesis to \<Rightarrow>
          recover_from_genesis iter env tx_id blob_id sampled get_block to g st ls cfg
      | RecoveryFromSecurity to sec sec_state sec_notes \<Rightarrow>
          recover_from_security iter env tx_id blob_id sampled get_block to sec sec_state sec_notes ls cfg)"

text \<open>The branch of \<open>run\<close> for a block from the network: the new state is saved.\<close>

definition incoming_block ::
  "(header_hash set \<Rightarrow> header_hash list) \<Rightarrow> ('u, 'f) chain_env \<Rightarrow> ('tx \<Rightarrow> 'tk) \<Rightarrow> ('b \<Rightarrow> 'bk) \<Rightarrow>
     'bk set option \<Rightarrow> ('u, 'tx, 'b) block \<Rightarrow> 'f consensus \<Rightarrow> (header_hash, 'f) leader \<Rightarrow>
     ('f consensus \<times> (header_hash, 'f) leader \<times> ('u, 'tx, 'b, 'tk, 'bk) service_msg list \<times> consensus_state)
       option" where
  "incoming_block iter env tx_id blob_id sampled_blobs b c l =
     map_option (\<lambda>(c', l', ms). (c', l', ms, from_cryptarchia c' l'))
       (process_block iter env tx_id blob_id sampled_blobs b c l)"

section \<open>Ledger and engine know the same headers\<close>

definition engine_known :: "('id, 'f) cryptarchia \<Rightarrow> 'id set" where
  "engine_known c = dom (branch_map (branches_of c))"

lemma receive_block_known:
  "receive_block iter fdiv c i parent slot = Ok c' \<Longrightarrow>
     engine_known c' = insert i (engine_known c) \<and> parent \<in> engine_known c"
  by (auto simp: receive_block_def apply_header_eq engine_known_def Let_def)

interpretation stores: paired_stores ledger_known "ledger_apply env" engine_known "engine_apply iter env"
  "header_id (blake env)" h_parent for env iter
proof (unfold_locales, goal_cases)
  case (1 h s s')
  then show ?case by (auto simp: ledger_apply_def ledger_known_def ledger_try_update_def)
next
  case (2 h s s')
  then show ?case by (auto simp: ledger_apply_def ledger_known_def ledger_try_update_def)
next
  case (3 h s s')
  then show ?case using receive_block_known by (fastforce simp: engine_apply_def)
next
  case (4 h s s')
  then show ?case using receive_block_known by (fastforce simp: engine_apply_def)
qed

lemma try_apply_header_pair:
  "try_apply_header iter env h c = Ok c' \<longleftrightarrow>
     pair_add (ledger_apply env) (engine_apply iter env) h (cs_ledger c, cs_engine c) =
       Ok (cs_ledger c', cs_engine c')"
  by (cases c') (auto simp: try_apply_header_def pair_add_def)

section \<open>The invariant of a running node\<close>

text \<open>The headers delivered to a node one after the other; a rejected header changes nothing.\<close>

fun apply_headers ::
  "(header_hash set \<Rightarrow> header_hash list) \<Rightarrow> ('u, 'f) chain_env \<Rightarrow> 'u header list \<Rightarrow> 'f consensus \<Rightarrow>
     'f consensus option" where
  "apply_headers iter env [] c = Some c"
| "apply_headers iter env (h # hs) c =
     (case try_apply_header iter env h c of
        Ok c' \<Rightarrow> apply_headers iter env hs c'
      | Err e \<Rightarrow> apply_headers iter env hs c
      | Abort \<Rightarrow> None)"

definition header_update ::
  "('u, 'f) chain_env \<Rightarrow> 'f ledger_config \<Rightarrow> 'u header \<Rightarrow> ledger_state \<Rightarrow> header_hash state_result" where
  "header_update env cfg h ps =
     state_try_update env cfg (h_slot h) (risc0_leader_proof (h_leader_proof h))
       (map snd (header_orphans (blake env) h)) ps"

text \<open>Distinct delivered headers have distinct identifiers, and none has the genesis identifier.\<close>

definition proper_ids :: "hash \<Rightarrow> header_hash \<Rightarrow> 'u header set \<Rightarrow> bool" where
  "proper_ids B g H \<longleftrightarrow> inj_on (header_id B) H \<and> g \<notin> header_id B ` H"

text \<open>Every known header is the genesis or one of \<open>H\<close>, stored with its parent and slot, and its
  ledger state is the update of its parent's.\<close>

definition derived ::
  "('u, 'f) chain_env \<Rightarrow> 'u header set \<Rightarrow> 'f consensus \<Rightarrow> header_hash branch \<Rightarrow> 'u header \<Rightarrow> bool" where
  "derived env H c b h \<longleftrightarrow>
     h \<in> H \<and> header_id (blake env) h = branch_id b \<and> h_parent h = branch_parent b \<and> h_slot h = branch_slot b \<and>
     (\<exists>ps st. states (cs_ledger c) (h_parent h) = Some ps \<and> states (cs_ledger c) (branch_id b) = Some st \<and>
        header_update env (ledger_conf (cs_ledger c)) h ps = Ok st)"

definition node_inv ::
  "('u, 'f) chain_env \<Rightarrow> header_hash \<Rightarrow> ledger_state \<Rightarrow> 'f ledger_config \<Rightarrow> 'u header set \<Rightarrow>
     'f consensus \<Rightarrow> bool" where
  "node_inv env g st0 cfg H c \<longleftrightarrow>
     wf_engine (cs_engine c) \<and> genesis_id (cs_engine c) = g \<and>
     engine_config (cs_engine c) = consensus_config cfg \<and> ledger_conf (cs_ledger c) = cfg \<and>
     ledger_known (cs_ledger c) = engine_known (cs_engine c) \<and> states (cs_ledger c) g = Some st0 \<and>
     (\<forall>b. stored (branches_of (cs_engine c)) b \<and> branch_id b \<noteq> g \<longrightarrow> (\<exists>h. derived env H c b h))"

lemma ledger_apply_Ok:
  "ledger_apply env h l = Ok l' \<longleftrightarrow>
     (\<exists>ps st. states l (h_parent h) = Some ps \<and>
        check_orphans (states l) (map fst (header_orphans (blake env) h)) = Ok () \<and>
        header_update env (ledger_conf l) h ps = Ok st \<and>
        l' = l\<lparr>states := (states l)(header_id (blake env) h \<mapsto> st)\<rparr>)"
  by (auto simp: ledger_apply_def ledger_try_update_def header_update_def)

lemma try_apply_header_Ok:
  "try_apply_header iter env h c = Ok c' \<Longrightarrow>
     ledger_apply env h (cs_ledger c) = Ok (cs_ledger c') \<and>
     receive_block iter (floor_quot env) (cs_engine c) (header_id (blake env) h) (h_parent h) (h_slot h)
       = Ok (cs_engine c')"
  by (auto simp: try_apply_header_def engine_apply_def)

lemma new_node_sel [simp]:
  "cs_ledger (consensus_new g st cfg) = ledger_new g st cfg"
  "cs_engine (consensus_new g st cfg) = cryptarchia_new g (consensus_config cfg)"
  by (simp_all add: consensus_new_def)

lemma new_parts_sel [simp]:
  "states (ledger_new g st cfg) = [g \<mapsto> st]"
  "ledger_conf (ledger_new g st cfg) = cfg"
  "genesis_id (cryptarchia_new g ecfg) = g"
  "engine_config (cryptarchia_new g ecfg) = ecfg"
  "branches_of (cryptarchia_new g ecfg) = from_genesis g"
  by (simp_all add: ledger_new_def cryptarchia_new_def)

lemma new_engine_known [simp]: "engine_known (cryptarchia_new g ecfg) = {g}"
  by (simp add: engine_known_def from_genesis_def)

lemma stored_from_genesis: "stored (from_genesis g) b \<Longrightarrow> branch_id b = g"
  by (simp add: stored_def from_genesis_def split: if_splits)

lemma new_node_inv: "node_inv env g st cfg H (consensus_new g st cfg)"
  unfolding node_inv_def by (simp add: new_wf ledger_known_def, blast dest: stored_from_genesis)

lemma same_header:
  "proper_ids B g H \<Longrightarrow> h \<in> H \<Longrightarrow> k \<in> H \<Longrightarrow> header_id B h = header_id B k \<Longrightarrow> h = k"
  unfolding proper_ids_def by (drule conjunct1) (rule inj_onD)

lemma derived_known:
  assumes inv: "node_inv env g st0 cfg H c" and ids: "proper_ids (blake env) g H" and h: "h \<in> H"
    and b: "branch_map (branches_of (cs_engine c)) (header_id (blake env) h) = Some b"
  shows "derived env H c b h"
proof -
  have wf: "wf_branches g (branches_of (cs_engine c))" using inv by (auto simp: node_inv_def wf_engine_def)
  have i: "branch_id b = header_id (blake env) h" "stored (branches_of (cs_engine c)) b"
    using wf_branchesD(3) [OF wf b] stored_lookup [OF wf b] by auto
  moreover have "header_id (blake env) h \<noteq> g" using ids h by (auto simp: proper_ids_def)
  ultimately obtain h' where h': "derived env H c b h'" using inv by (auto simp: node_inv_def)
  then have "h' = h" using same_header [OF ids _ h, of h'] i(1) by (simp add: derived_def)
  then show ?thesis using h' by simp
qed

lemma node_consistent:
  assumes inv: "node_inv env g st0 cfg H c" and ids: "proper_ids (blake env) g H" and h: "h \<in> H"
    and p: "h_parent h \<in> engine_known (cs_engine c)"
  shows "consistent_header g (branches_of (cs_engine c)) (header_id (blake env) h) (h_parent h) (h_slot h)"
proof -
  let ?bs = "branches_of (cs_engine c)" and ?i = "header_id (blake env) h"
  have wf: "wf_branches g ?bs" using inv by (auto simp: node_inv_def wf_engine_def)
  have ne: "?i \<noteq> g" using ids h by (auto simp: proper_ids_def)
  have same: "branch_parent b = h_parent h \<and> branch_slot b = h_slot h" if "branch_map ?bs ?i = Some b" for b
    using derived_known [OF inv ids h that] by (simp add: derived_def)
  have "?i \<noteq> h_parent h"
  proof
    assume eq: "?i = h_parent h"
    then obtain b where b: "branch_map ?bs ?i = Some b" using p by (auto simp: engine_known_def)
    then show False using wf_branchesD(4) [OF wf b ne] same [OF b] eq by simp
  qed
  then show ?thesis using ne same by (simp add: consistent_header_def)
qed

lemma header_step_inv:
  assumes inv: "node_inv env g st0 cfg H c" and ids: "proper_ids (blake env) g H" and h: "h \<in> H"
    and it: "iterates iter" and s: "s_param (floor_quot env) (consensus_config cfg) = Some s"
    and ok: "try_apply_header iter env h c = Ok c'"
  shows "node_inv env g st0 cfg H c'"
proof -
  let ?i = "header_id (blake env) h" and ?bs = "branches_of (cs_engine c)"
  obtain ps st where l: "states (cs_ledger c) (h_parent h) = Some ps"
    "header_update env cfg h ps = Ok st" "cs_ledger c' = (cs_ledger c)\<lparr>states := (states (cs_ledger c))(?i \<mapsto> st)\<rparr>"
    and r: "receive_block iter (floor_quot env) (cs_engine c) ?i (h_parent h) (h_slot h) = Ok (cs_engine c')"
    using try_apply_header_Ok [OF ok] inv by (auto simp: ledger_apply_Ok node_inv_def)
  have we: "wf_engine (cs_engine c)" and cfgs: "engine_config (cs_engine c) = consensus_config cfg"
    "genesis_id (cs_engine c) = g" "ledger_conf (cs_ledger c) = cfg"
    and sync: "ledger_known (cs_ledger c) = engine_known (cs_engine c)"
    and gst: "states (cs_ledger c) g = Some st0"
    using inv by (auto simp: node_inv_def)
  have p: "h_parent h \<in> engine_known (cs_engine c)" using l(1) sync by (auto simp: ledger_known_def)
  note con = node_consistent [OF inv ids h p]
  obtain bs' where c': "wf_engine (cs_engine c')" "genesis_id (cs_engine c') = g"
    "engine_config (cs_engine c') = consensus_config cfg" "branches_of (cs_engine c') = bs'"
    "apply_header ?bs ?i (h_parent h) (h_slot h) = Ok bs'"
    using receive_block_best [OF we it, of "floor_quot env" s ?i "h_parent h" "h_slot h"] s cfgs con p r
    by (auto simp: engine_known_def)
  have known: "ledger_known (cs_ledger c') = engine_known (cs_engine c')"
    using l(3) sync receive_block_known [OF r] by (auto simp: ledger_known_def)
  have ne: "?i \<noteq> g" "?i \<noteq> h_parent h" using con by (auto simp: consistent_header_def)
  have wf: "wf_branches g ?bs" using we cfgs by (simp add: wf_engine_def)
  have keep: "states (cs_ledger c') j = states (cs_ledger c) j" if j: "j \<in> engine_known (cs_engine c)" for j
  proof (cases "j = ?i")
    case True
    then obtain b where b: "branch_map ?bs ?i = Some b" using j by (auto simp: engine_known_def)
    then have "derived env H c b h" using derived_known [OF inv ids h] by blast
    then show ?thesis using l cfgs True wf_branchesD(3) [OF wf b] by (auto simp: derived_def)
  next
    case False
    then show ?thesis using l(3) by simp
  qed
  have conf: "ledger_conf (cs_ledger c') = ledger_conf (cs_ledger c)" using l(3) by simp
  have "\<exists>h'. derived env H c' b h'" if sb: "stored bs' b" "branch_id b \<noteq> g" for b
  proof (cases "branch_id b = ?i")
    case True
    then have "derived env H c' b h"
      using sb c'(5) l cfgs ne keep [OF p] h by (auto simp: derived_def apply_header_eq stored_def)
    then show ?thesis by blast
  next
    case False
    then have st: "stored ?bs b" using sb c'(5) by (auto simp: apply_header_eq stored_def)
    then obtain h' where h': "derived env H c b h'" using inv sb(2) by (auto simp: node_inv_def)
    have "h_parent h' \<in> engine_known (cs_engine c)" "branch_id b \<in> engine_known (cs_engine c)"
      using h' sync st by (auto simp: derived_def ledger_known_def engine_known_def stored_def)
    note kept = keep [OF this(1)] keep [OF this(2)]
    have "derived env H c' b h'" using h' unfolding derived_def kept conf .
    then show ?thesis by blast
  qed
  then show ?thesis
    using c' known gst ne(1) l(3) cfgs by (simp add: node_inv_def)
qed

lemma apply_headers_inv:
  "node_inv env g st0 cfg H c \<Longrightarrow> set hs \<subseteq> H \<Longrightarrow> proper_ids (blake env) g H \<Longrightarrow> iterates iter \<Longrightarrow>
   s_param (floor_quot env) (consensus_config cfg) = Some s \<Longrightarrow>
   apply_headers iter env hs c = Some c' \<Longrightarrow> node_inv env g st0 cfg H c'"
proof (induction hs arbitrary: c)
  case (Cons h hs)
  then show ?case using header_step_inv [OF Cons.prems(1,3) _ Cons.prems(4,5)] by (auto split: outcome.splits)
qed simp

section \<open>Leader notes and storage\<close>

text \<open>What \<open>follow_chain\<close> makes of the notes of the parent.\<close>

definition evolve_notes :: "hash \<Rightarrow> nullifier_secret \<Rightarrow> nullifier \<Rightarrow> note_witness list \<Rightarrow> note_witness list" where
  "evolve_notes H sk to_evolve ns =
     map (\<lambda>n. if nullifier_new H sk (note_commit H n (secret_commit H sk)) = to_evolve
              then evolve H n sk else n) ns"

lemma follow_chain_eq:
  "leader_notes l parent = Some ns \<Longrightarrow>
     follow_chain H l parent i nf = l\<lparr>leader_notes := (leader_notes l)(i \<mapsto> evolve_notes H (leader_nf_sk l) nf ns)\<rparr>"
  by (simp add: follow_chain_def evolve_notes_def)

text \<open>What the messages of \<open>process_block\<close> leave in storage.\<close>

fun storage_after ::
  "('u, 'tx, 'b, 'tk, 'bk) service_msg list \<Rightarrow> (header_hash \<Rightarrow> ('u, 'tx, 'b) block option) \<Rightarrow>
     header_hash \<Rightarrow> ('u, 'tx, 'b) block option" where
  "storage_after [] m = m"
| "storage_after (StoreBlock i b # ms) m = storage_after ms (m(i \<mapsto> b))"
| "storage_after (_ # ms) m = storage_after ms m"

lemma storage_after_append [simp]: "storage_after (xs @ ys) m = storage_after ys (storage_after xs m)"
proof (induction xs arbitrary: m)
  case (Cons x xs)
  then show ?case by (cases x) (simp_all add: fun_upd_def)
qed simp

definition leader_inv ::
  "('u, 'f) chain_env \<Rightarrow> header_hash \<Rightarrow> leader_settings \<Rightarrow> 'u header set \<Rightarrow> 'f consensus \<Rightarrow>
     (header_hash, 'f) leader \<Rightarrow> bool" where
  "leader_inv env g ls H c l \<longleftrightarrow>
     leader_nf_sk l = ls_nf_sk ls \<and> leader_notes l g = Some (ls_notes ls) \<and>
     (\<forall>h \<in> H. header_id (blake env) h \<in> engine_known (cs_engine c) \<longrightarrow>
        (\<exists>ns. leader_notes l (h_parent h) = Some ns \<and>
           leader_notes l (header_id (blake env) h)
             = Some (evolve_notes (sha env) (ls_nf_sk ls) (lp_nullifier (h_leader_proof h)) ns)))"

definition storage_inv ::
  "('u, 'f) chain_env \<Rightarrow> header_hash \<Rightarrow> ('u, 'tx, 'b) block set \<Rightarrow> 'f consensus \<Rightarrow>
     (header_hash \<Rightarrow> ('u, 'tx, 'b) block option) \<Rightarrow> bool" where
  "storage_inv env g B c m \<longleftrightarrow>
     (\<forall>i \<in> engine_known (cs_engine c) - {g}. \<exists>b \<in> B. m i = Some b \<and> header_id (blake env) (bl_header b) = i)"

lemma leader_invD:
  "leader_inv env g ls H c l \<Longrightarrow> h \<in> H \<Longrightarrow> header_id (blake env) h \<in> engine_known (cs_engine c) \<Longrightarrow>
     \<exists>ns. leader_notes l (h_parent h) = Some ns \<and>
       leader_notes l (header_id (blake env) h)
         = Some (evolve_notes (sha env) (ls_nf_sk ls) (lp_nullifier (h_leader_proof h)) ns)"
  unfolding leader_inv_def by blast

lemma known_header:
  assumes "node_inv env g st0 cfg H c" and "i \<in> engine_known (cs_engine c)" and "i \<noteq> g"
  obtains h where "h \<in> H" "header_id (blake env) h = i" "h_parent h \<in> engine_known (cs_engine c)"
proof -
  have wf: "wf_branches g (branches_of (cs_engine c))"
    and sync: "ledger_known (cs_ledger c) = engine_known (cs_engine c)"
    using assms(1) by (auto simp: node_inv_def wf_engine_def)
  obtain b where b: "branch_map (branches_of (cs_engine c)) i = Some b" using assms(2) by (auto simp: engine_known_def)
  have "branch_id b = i" "stored (branches_of (cs_engine c)) b"
    using wf_branchesD(3) [OF wf b] stored_lookup [OF wf b] by auto
  then obtain h where h: "derived env H c b h" using assms(1,3) by (auto simp: node_inv_def)
  have "h_parent h \<in> ledger_known (cs_ledger c)" using h by (auto simp: derived_def ledger_known_def)
  then have par: "h_parent h \<in> engine_known (cs_engine c)" by (simp only: sync)
  have "h \<in> H" "header_id (blake env) h = branch_id b" using h by (simp_all only: derived_def)
  then show thesis using that [OF _ _ par] \<open>branch_id b = i\<close> by simp
qed

lemma try_apply_header_known:
  assumes "try_apply_header iter env h c = Ok c'"
  shows "engine_known (cs_engine c') = insert (header_id (blake env) h) (engine_known (cs_engine c))"
    and "h_parent h \<in> engine_known (cs_engine c)"
  using receive_block_known [OF conjunct2 [OF try_apply_header_Ok [OF assms]]] by simp_all

lemma leader_notes_known:
  assumes inv: "node_inv env g st0 cfg H c" and lead: "leader_inv env g ls H c l"
    and j: "j \<in> engine_known (cs_engine c)"
  shows "\<exists>ns. leader_notes l j = Some ns"
proof (cases "j = g")
  case True
  then show ?thesis using lead by (simp add: leader_inv_def)
next
  case False
  obtain k where "k \<in> H" "header_id (blake env) k = j" "h_parent k \<in> engine_known (cs_engine c)"
    using known_header [OF inv j False] .
  then show ?thesis using lead j by (auto simp: leader_inv_def)
qed

lemma follow_chain_inv:
  assumes inv: "node_inv env g st0 cfg H c" and ids: "proper_ids (blake env) g H" and h: "h \<in> H"
    and lead: "leader_inv env g ls H c l" and ok: "try_apply_header iter env h c = Ok c'"
  shows "leader_inv env g ls H c'
    (follow_chain (sha env) l (h_parent h) (header_id (blake env) h) (lp_nullifier (h_leader_proof h)))"
proof -
  let ?i = "header_id (blake env) h"
  let ?l = "follow_chain (sha env) l (h_parent h) ?i (lp_nullifier (h_leader_proof h))"
  let ?evo = "\<lambda>h. evolve_notes (sha env) (ls_nf_sk ls) (lp_nullifier (h_leader_proof h))"
  have new: "engine_known (cs_engine c') = insert ?i (engine_known (cs_engine c))"
    and p: "h_parent h \<in> engine_known (cs_engine c)"
    using try_apply_header_known [OF ok] .
  have sk: "leader_nf_sk l = ls_nf_sk ls" and g: "leader_notes l g = Some (ls_notes ls)"
    using lead by (auto simp: leader_inv_def)
  have ne: "?i \<noteq> g" using ids h by (auto simp: proper_ids_def)
  obtain ns where ns: "leader_notes l (h_parent h) = Some ns" using leader_notes_known [OF inv lead p] ..
  have l': "leader_nf_sk ?l = ls_nf_sk ls" "leader_notes ?l = (leader_notes l)(?i \<mapsto> ?evo h ns)"
    using follow_chain_eq [OF ns] sk by simp_all
  have keep: "leader_notes ?l j = leader_notes l j" if "j \<in> engine_known (cs_engine c)" for j
    using that l'(2) ns lead h by (cases "j = ?i") (auto simp: leader_inv_def)
  have "\<exists>ns. leader_notes ?l (h_parent k) = Some ns \<and> leader_notes ?l (header_id (blake env) k) = Some (?evo k ns)"
    if k: "k \<in> H" "header_id (blake env) k \<in> engine_known (cs_engine c')" for k
  proof (cases "header_id (blake env) k \<in> engine_known (cs_engine c)")
    case True
    have "header_id (blake env) k \<noteq> g" using ids k(1) by (auto simp: proper_ids_def)
    from known_header [OF inv True this] obtain k' where k': "k' \<in> H"
      "header_id (blake env) k' = header_id (blake env) k" "h_parent k' \<in> engine_known (cs_engine c)" .
    have "h_parent k \<in> engine_known (cs_engine c)" using same_header [OF ids k'(1) k(1) k'(2)] k'(3) by simp
    then show ?thesis using keep True lead k(1) by (simp add: leader_inv_def)
  next
    case False
    then have "header_id (blake env) k = ?i" using k(2) new by simp
    then have "k = h" using same_header [OF ids k(1) h] by simp
    then show ?thesis using l'(2) ns keep [OF p] by simp
  qed
  then show ?thesis using l'(1) keep g ne l'(2) by (auto simp: leader_inv_def)
qed

lemma process_block_cases:
  assumes "process_block iter env tx_id blob_id sampled b c l = Some (c', l', ms)"
  obtains (ignored) "c' = c" "l' = l" "ms = []"
  | (accepted) "try_apply_header iter env (bl_header b) c = Ok c'"
      "l' = follow_chain (sha env) l (h_parent (bl_header b)) (header_id (blake env) (bl_header b))
         (lp_nullifier (h_leader_proof (bl_header b)))"
      "\<And>m. storage_after ms m = m(header_id (blake env) (bl_header b) \<mapsto> b)"
  using assms by (auto simp: process_block_def Let_def split: option.splits if_splits outcome.splits)

text \<open>The three invariants together.\<close>

definition service_inv ::
  "('u, 'f) chain_env \<Rightarrow> header_hash \<Rightarrow> ledger_state \<Rightarrow> leader_settings \<Rightarrow> 'f ledger_config \<Rightarrow>
     ('u, 'tx, 'b) block set \<Rightarrow> 'f consensus \<Rightarrow> (header_hash, 'f) leader \<Rightarrow>
     (header_hash \<Rightarrow> ('u, 'tx, 'b) block option) \<Rightarrow> bool" where
  "service_inv env g st0 ls cfg B c l m \<longleftrightarrow>
     node_inv env g st0 cfg (bl_header ` B) c \<and> leader_inv env g ls (bl_header ` B) c l \<and> storage_inv env g B c m"

lemma process_block_inv:
  assumes inv: "service_inv env g st0 ls cfg B c l m" and ids: "proper_ids (blake env) g (bl_header ` B)"
    and b: "b \<in> B" and it: "iterates iter" and s: "s_param (floor_quot env) (consensus_config cfg) = Some s"
    and step: "process_block iter env tx_id blob_id sampled b c l = Some (c', l', ms)"
  shows "service_inv env g st0 ls cfg B c' l' (storage_after ms m)"
  using step
proof (cases rule: process_block_cases)
  case ignored
  then show ?thesis using inv by simp
next
  case accepted
  have h: "bl_header b \<in> bl_header ` B" using b by simp
  have n: "node_inv env g st0 cfg (bl_header ` B) c" and l: "leader_inv env g ls (bl_header ` B) c l"
    and m: "storage_inv env g B c m"
    using inv by (simp_all add: service_inv_def)
  have new: "engine_known (cs_engine c') = insert (header_id (blake env) (bl_header b)) (engine_known (cs_engine c))"
    by (rule try_apply_header_known(1) [OF accepted(1)])
  have "storage_inv env g B c' (storage_after ms m)"
    using m b new unfolding storage_inv_def accepted(3) by auto
  then show ?thesis
    using header_step_inv [OF n ids h it s accepted(1)] follow_chain_inv [OF n ids h l accepted(1)]
    by (simp add: service_inv_def accepted(2))
qed

lemma process_blocks_inv:
  "service_inv env g st0 ls cfg B c l m \<Longrightarrow> proper_ids (blake env) g (bl_header ` B) \<Longrightarrow> set bs \<subseteq> B \<Longrightarrow>
   iterates iter \<Longrightarrow> s_param (floor_quot env) (consensus_config cfg) = Some s \<Longrightarrow>
   process_blocks iter env tx_id blob_id sampled bs c l = Some (c', l', ms) \<Longrightarrow>
   service_inv env g st0 ls cfg B c' l' (storage_after ms m)"
proof (induction bs arbitrary: c l m ms)
  case (Cons b bs)
  obtain c1 l1 m1 m2 where step: "process_block iter env tx_id blob_id (sampled b) b c l = Some (c1, l1, m1)"
    "process_blocks iter env tx_id blob_id sampled bs c1 l1 = Some (c', l', m2)" "ms = m1 @ m2"
    using Cons.prems(6) by (auto simp: bind_eq_Some_conv)
  show ?case
    using Cons.IH [OF process_block_inv [OF Cons.prems(1,2) _ Cons.prems(4,5) step(1)] Cons.prems(2) _
        Cons.prems(4,5) step(2)] Cons.prems(3) step(3) by simp
qed simp

lemma proper_ids_neq: "proper_ids B g H \<Longrightarrow> h \<in> H \<Longrightarrow> header_id B h \<noteq> g"
  by (auto simp: proper_ids_def)

lemma new_service_inv:
  assumes "proper_ids (blake env) g (bl_header ` B)"
  shows "service_inv env g st0 ls cfg B (consensus_new g st0 cfg) (leader_from_genesis g ls cfg) m"
  using proper_ids_neq [OF assms]
  by (simp add: service_inv_def new_node_inv leader_inv_def storage_inv_def leader_from_genesis_def leader_new_def)

section \<open>Replaying a chain\<close>

text \<open>A single chain that grows at its end: the new header is the new tip.\<close>

lemma receive_block_extends:
  assumes wf: "wf_engine c" and it: "iterates iter" and s: "s_param fdiv (engine_config c) = Some s"
    and one: "tips (branches_of c) = {tip c}" and new: "i \<notin> engine_known c"
  obtains c' where "receive_block iter fdiv c i (tip c) slot = Ok c'" "wf_engine c'"
    "engine_config c' = engine_config c" "tips (branches_of c') = {i}" "tip c' = i"
    "engine_known c' = insert i (engine_known c)"
    "branch_length (local_chain c') = Suc (branch_length (local_chain c))"
proof -
  have st: "branch_map (branches_of c) (tip c) = Some (local_chain c)"
    and g: "genesis_id c \<in> engine_known c"
    using wf wf_branchesD(2) [of "genesis_id c" "branches_of c"]
    by (auto simp: wf_engine_def stored_def tip_def engine_known_def)
  then have tip: "tip c \<in> engine_known c" by (auto simp: engine_known_def)
  have con: "consistent_header (genesis_id c) (branches_of c) i (tip c) slot"
    using new g tip by (auto simp: consistent_header_def engine_known_def)
  obtain c' bs' where c': "receive_block iter fdiv c i (tip c) slot = Ok c'"
    "apply_header (branches_of c) i (tip c) slot = Ok bs'" "branches_of c' = bs'"
    "engine_config c' = engine_config c" "wf_engine c'"
    using receive_block_best [OF wf it s con] tip unfolding engine_known_def by metis
  have bs': "branch_map bs' = (branch_map (branches_of c))(i \<mapsto> \<lparr>branch_id = i, branch_parent = tip c,
      branch_slot = slot, branch_length = Suc (branch_length (local_chain c))\<rparr>)" "tips bs' = {i}"
    using c'(2) st one by (auto simp: apply_header_eq)
  have "tip c' = i" "stored bs' (local_chain c')" using c'(3,5) bs'(2) by (auto simp: wf_engine_def)
  then have "branch_map bs' i = Some (local_chain c')" by (simp add: stored_def tip_def)
  then have "local_chain c' = \<lparr>branch_id = i, branch_parent = tip c, branch_slot = slot,
      branch_length = Suc (branch_length (local_chain c))\<rparr>" using bs'(1) by simp
  then have "branch_length (local_chain c') = Suc (branch_length (local_chain c))" by simp
  then show thesis
    using that [OF c'(1,5,4) _ \<open>tip c' = i\<close>] c'(3) bs'(2) receive_block_known [OF c'(1)] by simp
qed

text \<open>A node that has replayed the blocks from \<open>a\<close> to \<open>b\<close> agrees with the original one on \<open>b\<close>.\<close>

definition replayed ::
  "'f consensus \<Rightarrow> (header_hash, 'f) leader \<Rightarrow> header_hash branch \<Rightarrow> header_hash branch \<Rightarrow>
     'f consensus \<Rightarrow> (header_hash, 'f) leader \<Rightarrow> bool" where
  "replayed c l a b c' l' \<longleftrightarrow>
     wf_engine (cs_engine c') \<and> engine_config (cs_engine c') = engine_config (cs_engine c) \<and>
     ledger_conf (cs_ledger c') = ledger_conf (cs_ledger c) \<and>
     ledger_known (cs_ledger c') = engine_known (cs_engine c') \<and>
     tips (branches_of (cs_engine c')) = {branch_id b} \<and>
     engine_known (cs_engine c') \<subseteq> branch_id ` set (chain (branches_of (cs_engine c)) b) \<and>
     branch_length (local_chain (cs_engine c')) + branch_length a = branch_length b \<and>
     states (cs_ledger c') (branch_id b) = states (cs_ledger c) (branch_id b) \<and>
     leader_nf_sk l' = leader_nf_sk l \<and> leader_notes l' (branch_id b) = leader_notes l (branch_id b)"

lemma replayed_tip: "replayed c l a b c' l' \<Longrightarrow> tip (cs_engine c') = branch_id b"
  by (auto simp: replayed_def wf_engine_def)

lemma new_chain_id:
  assumes "wf_branches g bs" and "stored bs b" and "stored bs p" and "branch_length b = Suc (branch_length p)"
  shows "branch_id b \<notin> branch_id ` set (chain bs p)"
proof
  assume "branch_id b \<in> branch_id ` set (chain bs p)"
  then obtain x where x: "x \<in> set (chain bs p)" "branch_id b = branch_id x" by blast
  then have "stored bs x" using chain_stored [OF assms(1,3)] by blast
  then have "x = b" using stored_unique assms(2) x(2) by metis
  then show False using chain_distinct [OF assms(1,3)] x(1) assms(4) by force
qed

text \<open>One more block of the original chain.\<close>

lemma replay_header:
  assumes inv: "service_inv env g st0 ls cfg B c l m" and ids: "proper_ids (blake env) g (bl_header ` B)"
    and it: "iterates iter" and s: "s_param (floor_quot env) (consensus_config cfg) = Some s"
    and st: "stored (branches_of (cs_engine c)) b" "stored (branches_of (cs_engine c)) p"
    and par: "branch_map (branches_of (cs_engine c)) (branch_parent b) = Some p"
    and len: "branch_length b = Suc (branch_length p)"
    and ch: "chain (branches_of (cs_engine c)) b = chain (branches_of (cs_engine c)) p @ [b]"
    and rep: "replayed c l a p c' l'"
    and h: "derived env (bl_header ` B) c b h"
    and orph: "check_orphans (states (cs_ledger c')) (map fst (header_orphans (blake env) h)) = Ok ()"
  obtains c'' where "try_apply_header iter env h c' = Ok c''"
    "replayed c l a b c'' (follow_chain (sha env) l' (h_parent h) (header_id (blake env) h)
       (lp_nullifier (h_leader_proof h)))"
proof -
  have wf: "wf_branches g (branches_of (cs_engine c))" and n: "leader_inv env g ls (bl_header ` B) c l"
    and cfgs: "engine_config (cs_engine c) = consensus_config cfg"
    using inv by (auto simp: service_inv_def node_inv_def wf_engine_def)
  have p: "h_parent h = branch_id p" "header_id (blake env) h = branch_id b" "h_slot h = branch_slot b"
    using h wf_branchesD(3) [OF wf par] by (simp_all add: derived_def)
  obtain ps sb where states: "states (cs_ledger c) (branch_id p) = Some ps" "states (cs_ledger c) (branch_id b) = Some sb"
    "header_update env (ledger_conf (cs_ledger c)) h ps = Ok sb"
    using h by (auto simp: derived_def p(1))
  have c': "wf_engine (cs_engine c')" "s_param (floor_quot env) (engine_config (cs_engine c')) = Some s"
    "tips (branches_of (cs_engine c')) = {tip (cs_engine c')}" "tip (cs_engine c') = branch_id p"
    using rep s cfgs replayed_tip [OF rep] by (simp_all add: replayed_def)
  have new: "branch_id b \<notin> engine_known (cs_engine c')"
    using new_chain_id [OF wf st len] rep by (auto simp: replayed_def)
  obtain e where e: "receive_block iter (floor_quot env) (cs_engine c') (branch_id b) (branch_id p) (branch_slot b) = Ok e"
    "wf_engine e" "engine_config e = engine_config (cs_engine c')" "tips (branches_of e) = {branch_id b}"
    "engine_known e = insert (branch_id b) (engine_known (cs_engine c'))"
    "branch_length (local_chain e) = Suc (branch_length (local_chain (cs_engine c')))"
    using receive_block_extends [OF c'(1) it c'(2,3) new] c'(4) by metis
  let ?c = "\<lparr>cs_ledger = (cs_ledger c')\<lparr>states := (states (cs_ledger c'))(branch_id b \<mapsto> sb)\<rparr>, cs_engine = e\<rparr>"
  have "ledger_apply env h (cs_ledger c') = Ok (cs_ledger ?c)"
    using rep states orph by (simp add: ledger_apply_Ok replayed_def p)
  then have ok: "try_apply_header iter env h c' = Ok ?c"
    using e(1) by (simp add: try_apply_header_def engine_apply_def p)
  have hH: "h \<in> bl_header ` B" using h unfolding derived_def by blast
  have known: "branch_id b \<in> engine_known (cs_engine c)" using st(1) by (auto simp: engine_known_def stored_def)
  obtain ns where ns: "leader_notes l (branch_id p) = Some ns"
    "leader_notes l (branch_id b) = Some (evolve_notes (sha env) (ls_nf_sk ls) (lp_nullifier (h_leader_proof h)) ns)"
    using leader_invD [OF n hH] known unfolding p by blast
  have l': "leader_notes l' (branch_id p) = Some ns" "leader_nf_sk l' = leader_nf_sk l" "leader_nf_sk l = ls_nf_sk ls"
    using rep ns(1) n by (simp_all add: replayed_def leader_inv_def)
  have "replayed c l a b ?c (follow_chain (sha env) l' (branch_id p) (branch_id b) (lp_nullifier (h_leader_proof h)))"
    using rep e states(2) ch len ns(2) l' follow_chain_eq [OF l'(1)] by (auto simp: replayed_def ledger_known_def)
  then show thesis using that [OF ok] by (simp add: p)
qed

text \<open>The block in storage for a header of the tree.\<close>

lemma stored_block:
  assumes inv: "service_inv env g st0 ls cfg B c l m" and ids: "proper_ids (blake env) g (bl_header ` B)"
    and st: "stored (branches_of (cs_engine c)) b" and len: "branch_length b = Suc n"
  obtains blk h where "blk \<in> B" "m (branch_id b) = Some blk" "bl_header blk = h"
    "derived env (bl_header ` B) c b h"
proof -
  have n: "node_inv env g st0 cfg (bl_header ` B) c" and m: "storage_inv env g B c m"
    and wf: "wf_branches g (branches_of (cs_engine c))"
    using inv by (auto simp: service_inv_def node_inv_def wf_engine_def)
  have ne: "branch_id b \<noteq> g"
  proof
    assume "branch_id b = g"
    then have "b = genesis_branch g" using stored_unique [OF st stored_genesis [OF wf]] by simp
    then have "branch_length b = 0" by simp
    with len show False by simp
  qed
  obtain h where h: "derived env (bl_header ` B) c b h" using n st ne unfolding node_inv_def by blast
  obtain blk where blk: "blk \<in> B" "m (branch_id b) = Some blk" "header_id (blake env) (bl_header blk) = branch_id b"
    using m st ne by (auto simp: storage_inv_def engine_known_def stored_def)
  have "bl_header blk = h"
    using same_header [OF ids imageI [OF blk(1)], of h] h blk(3) by (simp add: derived_def)
  then show thesis using that blk(1,2) h by blast
qed

lemma process_blocks_append:
  "process_blocks iter env tx_id blob_id sampled (xs @ ys) c l =
     Option.bind (process_blocks iter env tx_id blob_id sampled xs c l) (\<lambda>(c1, l1, m1).
     Option.bind (process_blocks iter env tx_id blob_id sampled ys c1 l1) (\<lambda>(c2, l2, m2).
       Some (c2, l2, m1 @ m2)))"
proof (induction xs arbitrary: c l)
  case Nil
  then show ?case
    by (cases "process_blocks iter env tx_id blob_id sampled ys c l") auto
next
  case (Cons b xs)
  then show ?case by (auto simp: Option.bind_assoc split_def)
qed

text \<open>A block that passes: the premises of \<open>process_block\<close> apart from the header itself.\<close>

definition replayable :: "('b \<Rightarrow> 'bk) \<Rightarrow> (('u, 'tx, 'b) block \<Rightarrow> 'bk set option) \<Rightarrow> ('u, 'tx, 'b) block \<Rightarrow> bool" where
  "replayable blob_id sampled b \<longleftrightarrow>
     h_orphaned_proofs (bl_header b) = [] \<and>
     (case sampled b of None \<Rightarrow> False | Some ids \<Rightarrow> validate_block blob_id b ids)"

lemma process_block_accepts:
  assumes "validate_block blob_id b ids" and "try_apply_header iter env (bl_header b) c = Ok c'"
  obtains ms where "process_block iter env tx_id blob_id (Some ids) b c l =
      Some (c', follow_chain (sha env) l (h_parent (bl_header b)) (header_id (blake env) (bl_header b))
        (lp_nullifier (h_leader_proof (bl_header b))), ms)"
    "\<And>m. storage_after ms m = m(header_id (blake env) (bl_header b) \<mapsto> b)"
  using assms by (auto simp: process_block_def Let_def)

lemma replay_start:
  assumes inv: "service_inv env g st0 ls cfg B c l m" and st: "stored (branches_of (cs_engine c)) a"
    and sa: "states (cs_ledger c) (branch_id a) = Some sa" and na: "leader_notes l (branch_id a) = Some na"
  shows "replayed c l a a (consensus_new (branch_id a) sa cfg) (leader_new (branch_id a) na (ls_nf_sk ls) cfg)"
proof -
  have wf: "wf_branches g (branches_of (cs_engine c))" and sk: "leader_nf_sk l = ls_nf_sk ls"
    and cfgs: "engine_config (cs_engine c) = consensus_config cfg" "ledger_conf (cs_ledger c) = cfg"
    using inv by (auto simp: service_inv_def node_inv_def leader_inv_def wf_engine_def)
  have "a \<in> set (chain (branches_of (cs_engine c)) a)" using last_chain [OF wf st] last_in_set chain_not_Nil by metis
  then show ?thesis
    using sa na sk cfgs
    by (simp add: replayed_def new_wf leader_new_def ledger_known_def, simp add: cryptarchia_new_def from_genesis_def)
qed

lemma check_orphans_cases: "check_orphans m is = Ok () \<or> (\<exists>e. check_orphans m is = Err e)"
  by (induction "is") auto

lemma orphan_refused:
  assumes "check_orphans (states (cs_ledger c)) (map fst (header_orphans (blake env) (bl_header b))) = Err e"
  shows "process_block iter env tx_id blob_id sampled b c l = Some (c, l, [])"
proof -
  have "\<exists>e. try_apply_header iter env (bl_header b) c = Err e"
    using assms by (cases "states (cs_ledger c) (h_parent (bl_header b))")
      (simp_all add: try_apply_header_def ledger_apply_def ledger_try_update_def)
  then show ?thesis by (auto simp: process_block_def Let_def split: option.splits)
qed

text \<open>What replaying blocks from a single known one leaves out: every block whose predecessor was
  refused.\<close>

lemma unknown_parents_ignored:
  "(\<And>b. b \<in> set bs \<Longrightarrow> states (cs_ledger c) (h_parent (bl_header b)) = None) \<Longrightarrow>
   process_blocks iter env tx_id blob_id sampled bs c l = Some (c, l, [])"
proof (induction bs)
  case (Cons b bs)
  have "states (cs_ledger c) (h_parent (bl_header b)) = None" using Cons.prems by simp
  then have "\<exists>e. try_apply_header iter env (bl_header b) c = Err e"
    by (simp add: try_apply_header_def ledger_apply_def ledger_try_update_def)
  then have "process_block iter env tx_id blob_id (sampled b) b c l = Some (c, l, [])"
    by (auto simp: process_block_def Let_def split: option.splits)
  then show ?case using Cons by simp
qed simp

text \<open>The last block of a chain is not on a proper prefix of it.\<close>

lemma chain_end:
  assumes wf: "wf_branches g bs" and st: "stored bs p" and q: "q \<in> set (chain bs p)"
    and p: "branch_id p \<in> branch_id ` set (chain bs q)"
  shows "q = p"
proof -
  have sq: "stored bs q" using chain_stored [OF wf st q] .
  obtain x where x: "x \<in> set (chain bs q)" "branch_id x = branch_id p" using p by force
  then have "x = p" using stored_unique [OF chain_stored [OF wf sq x(1)] st] by simp
  then have "branch_length p \<le> branch_length q" using chain_distinct [OF wf sq] x(1) by simp
  with wf st q show ?thesis
  proof (induction p rule: chain_induct)
    case (extend b p)
    then show ?case using chain_distinct [OF wf extend.hyps(2)] by fastforce
  qed simp
qed

text \<open>
  One more block of the original chain, when the replay has come to \<open>q\<close>: it is taken when it
  follows on \<open>q\<close>, unless it is not replayable; otherwise nothing changes.
\<close>

lemma replay_block:
  assumes inv: "service_inv env g st0 ls cfg B c l m" and ids: "proper_ids (blake env) g (bl_header ` B)"
    and it: "iterates iter" and s: "s_param (floor_quot env) (consensus_config cfg) = Some s"
    and st: "stored (branches_of (cs_engine c)) b" "stored (branches_of (cs_engine c)) p"
    and par: "branch_map (branches_of (cs_engine c)) (branch_parent b) = Some p"
    and len: "branch_length b = Suc (branch_length p)"
    and ch: "chain (branches_of (cs_engine c)) b = chain (branches_of (cs_engine c)) p @ [b]"
    and q: "q \<in> set (chain (branches_of (cs_engine c)) p)" and rep: "replayed c l a q c' l'"
    and h: "derived env (bl_header ` B) c b (bl_header blk)"
  shows "\<exists>q' c'' l'' ms. process_block iter env tx_id blob_id (sampled blk) blk c' l' = Some (c'', l'', ms) \<and>
    replayed c l a q' c'' l'' \<and> (q' = b \<and> q = p \<or> q' = q \<and> (q = p \<longrightarrow> \<not> replayable blob_id sampled blk))"
proof -
  let ?orphans = "check_orphans (states (cs_ledger c')) (map fst (header_orphans (blake env) (bl_header blk)))"
  have wf: "wf_branches g (branches_of (cs_engine c))" using inv by (auto simp: service_inv_def node_inv_def wf_engine_def)
  have parent: "h_parent (bl_header blk) = branch_id p"
    using h wf_branchesD(3) [OF wf par] by (simp add: derived_def)
  have skip: ?thesis if "process_block iter env tx_id blob_id (sampled blk) blk c' l' = Some (c', l', [])"
    "q = p \<Longrightarrow> \<not> replayable blob_id sampled blk" using that rep by blast
  consider (behind) "q \<noteq> p" | (unsampled) "\<forall>bids. sampled blk = Some bids \<longrightarrow> \<not> validate_block blob_id blk bids"
    | (orphan) e where "?orphans = Err e"
    | (taken) bids where "q = p" "sampled blk = Some bids" "validate_block blob_id blk bids" "?orphans = Ok ()"
    using check_orphans_cases [of "states (cs_ledger c')" "map fst (header_orphans (blake env) (bl_header blk))"] by blast
  then show ?thesis
  proof cases
    case behind
    then have "branch_id p \<notin> engine_known (cs_engine c')"
      using chain_end [OF wf st(2) q] rep by (auto simp: replayed_def)
    then have "branch_id p \<notin> ledger_known (cs_ledger c')" using rep by (simp add: replayed_def)
    then have "process_blocks iter env tx_id blob_id sampled [blk] c' l' = Some (c', l', [])"
      by (intro unknown_parents_ignored) (simp add: parent ledger_known_def domIff)
    then show ?thesis using behind by (intro skip) (auto simp: bind_eq_Some_conv)
  next
    case unsampled
    then show ?thesis by (intro skip) (auto simp: process_block_def Let_def replayable_def split: option.splits)
  next
    case orphan
    then show ?thesis
      by (intro skip orphan_refused [OF orphan]) (auto simp: replayable_def header_orphans_def)
  next
    case taken
    obtain c'' where c'': "try_apply_header iter env (bl_header blk) c' = Ok c''"
      "replayed c l a b c'' (follow_chain (sha env) l' (h_parent (bl_header blk)) (header_id (blake env) (bl_header blk))
         (lp_nullifier (h_leader_proof (bl_header blk))))"
      using replay_header [OF inv ids it s st par len ch rep [unfolded taken(1)] h taken(4)] .
    then show ?thesis using process_block_accepts [OF taken(3) c''(1), of tx_id l'] taken(1,2) by metis
  qed
qed

text \<open>
  Replaying the chain from \<open>a\<close> to \<open>b\<close> ends at a block \<open>q\<close> between them: at \<open>b\<close>, or where the
  stored block that follows is not replayable.
\<close>

definition replay_halts ::
  "('b \<Rightarrow> 'bk) \<Rightarrow> (('u, 'tx, 'b) block \<Rightarrow> 'bk set option) \<Rightarrow> (header_hash \<Rightarrow> ('u, 'tx, 'b) block option) \<Rightarrow>
     header_hash branch list \<Rightarrow> header_hash branch \<Rightarrow> bool" where
  "replay_halts blob_id sampled m chain' q \<longleftrightarrow>
     q = last chain' \<or>
     (\<exists>x \<in> set chain'. branch_parent x = branch_id q \<and>
        (\<exists>blk. m (branch_id x) = Some blk \<and> \<not> replayable blob_id sampled blk))"

lemma replay_chain:
  assumes inv: "service_inv env g st0 ls cfg B c l m" and ids: "proper_ids (blake env) g (bl_header ` B)"
    and it: "iterates iter" and s: "s_param (floor_quot env) (consensus_config cfg) = Some s"
    and sa: "states (cs_ledger c) (branch_id a) = Some sa" and na: "leader_notes l (branch_id a) = Some na"
    and wf: "wf_branches g (branches_of (cs_engine c))" and st: "stored (branches_of (cs_engine c)) b"
    and mem: "a \<in> set (chain (branches_of (cs_engine c)) b)"
  shows "\<exists>blocks q c' l' ms. blocks_back m (branch_id a) (branch_id b) = Some blocks \<and>
    process_blocks iter env tx_id blob_id sampled (rev blocks) (consensus_new (branch_id a) sa cfg)
      (leader_new (branch_id a) na (ls_nf_sk ls) cfg) = Some (c', l', ms) \<and>
    q \<in> set (chain (branches_of (cs_engine c)) b) \<and> replayed c l a q c' l' \<and>
    replay_halts blob_id sampled m (chain (branches_of (cs_engine c)) b) q"
  using wf st mem
proof (induction b rule: chain_induct)
  case genesis
  then have a: "a = genesis_branch g" by simp
  show ?case
    using replay_start [OF inv _ sa na] stored_genesis [OF wf] blocks_back.simps [of m "branch_id a" "branch_id a"]
    unfolding a by (simp add: replay_halts_def)
next
  case (extend b p)
  let ?ch = "chain (branches_of (cs_engine c))"
  have id: "branch_id b \<notin> branch_id ` set (?ch p)" using new_chain_id [OF wf extend.hyps(1,2,4)] .
  have par: "branch_parent b = branch_id p" using wf_branchesD(3) [OF wf extend.hyps(3)] by simp
  have last: "last (?ch p) = p" using last_chain [OF wf extend.hyps(2)] .
  show ?case
  proof (cases "a = b")
    case True
    have "replayed c l a b (consensus_new (branch_id a) sa cfg) (leader_new (branch_id a) na (ls_nf_sk ls) cfg)"
      using replay_start [OF inv _ sa na] extend.hyps(1) True by simp
    moreover have "blocks_back m (branch_id a) (branch_id b) = Some []"
      using blocks_back.simps [of m "branch_id a" "branch_id a"] True by simp
    ultimately show ?thesis using extend.hyps(5) by (auto simp: replay_halts_def)
  next
    case False
    then have mem: "a \<in> set (?ch p)" using extend.prems extend.hyps(5) by simp
    then have ne: "branch_id b \<noteq> branch_id a" using id by auto
    obtain blocks q c' l' ms where ih: "blocks_back m (branch_id a) (branch_id p) = Some blocks"
      "process_blocks iter env tx_id blob_id sampled (rev blocks) (consensus_new (branch_id a) sa cfg)
        (leader_new (branch_id a) na (ls_nf_sk ls) cfg) = Some (c', l', ms)" "q \<in> set (?ch p)" "replayed c l a q c' l'"
      "replay_halts blob_id sampled m (?ch p) q"
      using extend.IH [OF mem] by blast
    obtain blk where blk: "m (branch_id b) = Some blk" and h: "derived env (bl_header ` B) c b (bl_header blk)"
      using stored_block [OF inv ids extend.hyps(1)] extend.hyps(4) by metis
    obtain q' c'' l'' ms' where r: "process_block iter env tx_id blob_id (sampled blk) blk c' l' = Some (c'', l'', ms')"
      "replayed c l a q' c'' l''" "q' = b \<and> q = p \<or> q' = q \<and> (q = p \<longrightarrow> \<not> replayable blob_id sampled blk)"
      using replay_block [OF inv ids it s extend.hyps(1-5) ih(3,4) h, of tx_id blob_id sampled] by blast
    have "blocks_back m (branch_id a) (branch_id b) = Some (blk # blocks)"
      using blocks_back.simps [of m "branch_id a" "branch_id b"] ne blk ih(1) h par by (simp add: derived_def)
    moreover have "process_blocks iter env tx_id blob_id sampled (rev (blk # blocks)) (consensus_new (branch_id a) sa cfg)
      (leader_new (branch_id a) na (ls_nf_sk ls) cfg) = Some (c'', l'', ms @ ms')"
      using ih(2) r(1) by (simp add: process_blocks_append)
    moreover have "q' \<in> set (?ch b) \<and> replay_halts blob_id sampled m (?ch b) q'"
      using r(3) ih(3,5) blk par last unfolding extend.hyps(5) replay_halts_def by auto
    ultimately show ?thesis using r(2) by blast
  qed
qed

text \<open>The ledger state of a stored header is what its chain makes of the genesis state.\<close>

definition header_block_update :: "hash \<Rightarrow> 'u header \<Rightarrow> 'u block_update" where
  "header_block_update B h =
     \<lparr>bu_slot = h_slot h, bu_proof = risc0_leader_proof (h_leader_proof h),
      bu_orphans = map snd (header_orphans B h)\<rparr>"

lemma apply_blocks_append:
  "(apply_blocks env cfg (xs @ ys) st :: 'id state_result) =
     bind_outcome (apply_blocks env cfg xs st) (apply_blocks env cfg ys)"
proof (induction xs arbitrary: st)
  case (Cons x xs)
  then show ?case
    by (cases "state_try_update env cfg (bu_slot x) (bu_proof x) (bu_orphans x) st :: 'id state_result") simp_all
qed simp

lemma chain_states:
  assumes inv: "node_inv env g st0 cfg H c" and wf: "wf_branches g (branches_of (cs_engine c))"
    and st: "stored (branches_of (cs_engine c)) b"
  shows "\<exists>hs st. set hs \<subseteq> H \<and>
    g # map (header_id (blake env)) hs = map branch_id (chain (branches_of (cs_engine c)) b) \<and>
    (apply_blocks env cfg (map (header_block_update (blake env)) hs) st0 :: header_hash state_result) = Ok st \<and>
    states (cs_ledger c) (branch_id b) = Some st"
  using wf st
proof (induction b rule: chain_induct)
  case genesis
  have "states (cs_ledger c) (branch_id (genesis_branch g)) = Some st0" using inv by (simp add: node_inv_def)
  then show ?case by (rule_tac exI [of _ "[]"], rule_tac exI [of _ st0]) simp
next
  case (extend b p)
  from extend.IH obtain hs ps where ih: "set hs \<subseteq> H"
    "g # map (header_id (blake env)) hs = map branch_id (chain (branches_of (cs_engine c)) p)"
    "(apply_blocks env cfg (map (header_block_update (blake env)) hs) st0 :: header_hash state_result) = Ok ps"
    "states (cs_ledger c) (branch_id p) = Some ps" by (elim exE conjE)
  have "g \<in> set (map branch_id (chain (branches_of (cs_engine c)) p))" unfolding ih(2) [symmetric] by simp
  then have "branch_id b \<noteq> g" using new_chain_id [OF wf extend.hyps(1,2,4)] by auto
  then obtain h where h: "derived env H c b h" using inv extend.hyps(1) unfolding node_inv_def by blast
  have p: "h \<in> H" "h_parent h = branch_id p" "header_id (blake env) h = branch_id b"
    using h wf_branchesD(3) [OF wf extend.hyps(3)] by (simp_all add: derived_def)
  have cfg: "ledger_conf (cs_ledger c) = cfg" using inv by (simp add: node_inv_def)
  have "\<exists>st. header_update env cfg h ps = Ok st \<and> states (cs_ledger c) (branch_id b) = Some st"
    using h ih(4) unfolding derived_def p(2) cfg by auto
  then obtain st where st: "header_update env cfg h ps = Ok st" "states (cs_ledger c) (branch_id b) = Some st" by blast
  then have "(apply_blocks env cfg [header_block_update (blake env) h] ps :: header_hash state_result) = Ok st"
    by (simp add: header_block_update_def header_update_def)
  then have run: "(apply_blocks env cfg (map (header_block_update (blake env)) (hs @ [h])) st0 :: header_hash state_result) = Ok st"
    using ih(3) by (simp add: apply_blocks_append del: apply_blocks.simps)
  have ids: "g # map (header_id (blake env)) (hs @ [h]) = map branch_id (chain (branches_of (cs_engine c)) b)"
    using ih(2) p(3) extend.hyps(5) by (simp flip: append_Cons)
  have "set (hs @ [h]) \<subseteq> H" using ih(1) p(1) by simp
  then show ?case using ids run st(2) by (rule_tac exI [of _ "hs @ [h]"], rule_tac exI [of _ st]) (intro conjI)
qed

text \<open>Where a saved state sends the recovery: to the security block or, when there is none, to the
  genesis, in both cases a block of the local chain.\<close>

lemma recovery_start:
  assumes inv: "service_inv env g st0 ls cfg B c l m"
  obtains a sa na where "a \<in> set (local_blocks (cs_engine c))"
    "states (cs_ledger c) (branch_id a) = Some sa" "leader_notes l (branch_id a) = Some na"
    "branch_length (local_chain (cs_engine c)) - branch_length a =
       min (unat (security_param (consensus_config cfg))) (branch_length (local_chain (cs_engine c)))"
    "build_cryptarchia iter env tx_id blob_id sampled get_block (from_cryptarchia c l) g st0 ls cfg =
       recover_cryptarchia iter env tx_id blob_id sampled get_block (branch_id a) sa (consensus_tip c)
         (leader_new (branch_id a) na (ls_nf_sk ls) cfg) cfg"
proof -
  let ?bs = "branches_of (cs_engine c)" and ?b = "local_chain (cs_engine c)"
  let ?k = "unat (security_param (consensus_config cfg))" and ?ch = "local_blocks (cs_engine c)"
  have n: "node_inv env g st0 cfg (bl_header ` B) c" and lead: "leader_inv env g ls (bl_header ` B) c l"
    using inv by (simp_all add: service_inv_def)
  have wf: "wf_branches g ?bs" and st: "stored ?bs ?b" and cfgs: "engine_config (cs_engine c) = consensus_config cfg"
    and sync: "ledger_known (cs_ledger c) = engine_known (cs_engine c)"
    and g0: "states (cs_ledger c) g = Some st0" "leader_notes l g = Some (ls_notes ls)"
    using n lead by (auto simp: node_inv_def wf_engine_def leader_inv_def)
  have len: "length ?ch = Suc (branch_length ?b)" using length_chain [OF wf st] by (simp add: local_blocks_def)
  have sec: "get_security_block_header_id (cs_engine c) =
      (if ?k \<le> branch_length ?b then Some (branch_id (?ch ! (branch_length ?b - ?k))) else None)"
    using security_fold_chain [OF wf st] by (simp add: get_security_block_header_id_def tip_def local_blocks_def cfgs)
  show thesis
  proof (cases "?k \<le> branch_length ?b")
    case True
    obtain a where a: "stored ?bs a" "branch_length a = branch_length ?b - ?k"
      "chain ?bs a = take (Suc (branch_length ?b - ?k)) (chain ?bs ?b)"
      using chain_prefix [OF wf st diff_le_self] .
    have "a = ?ch ! (branch_length ?b - ?k)"
      using last_chain [OF wf a(1)] a(3) len by (simp add: local_blocks_def take_Suc_conv_app_nth)
    then have mem: "a \<in> set ?ch" and sa': "get_security_block_header_id (cs_engine c) = Some (branch_id a)"
      using len sec True by simp_all
    have known: "branch_id a \<in> engine_known (cs_engine c)" using a(1) by (auto simp: engine_known_def stored_def)
    obtain sa where sa: "states (cs_ledger c) (branch_id a) = Some sa"
      using known sync by (auto simp: ledger_known_def)
    obtain na where na: "leader_notes l (branch_id a) = Some na" using leader_notes_known [OF n lead known] by blast
    show thesis
      by (rule that [OF mem sa na]) (use True a(2) sa sa' na in \<open>simp_all add: build_cryptarchia_def recovery_strategy_def
        can_recover_from_security_def can_recover_def from_cryptarchia_def recover_from_security_def ledger_state_of_def\<close>)
  next
    case False
    have "genesis_branch g \<in> set ?ch" using hd_chain [OF wf st] chain_not_Nil hd_in_set unfolding local_blocks_def by metis
    then show thesis
      by (rule that) (use False g0 sec in \<open>simp_all add: build_cryptarchia_def recovery_strategy_def
        can_recover_from_security_def can_recover_def from_cryptarchia_def recover_from_genesis_def leader_from_genesis_def\<close>)
  qed
qed

text \<open>Of the blocks of a range only the first has the start of the range as its parent.\<close>

lemma blocks_back_parents:
  "blocks_back get_block start i = Some bs \<Longrightarrow> b \<in> set (butlast bs) \<Longrightarrow> h_parent (bl_header b) \<noteq> start"
proof (induction bs arbitrary: i)
  case (Cons x xs)
  have step: "i \<noteq> start" "get_block i = Some x" "blocks_back get_block start (h_parent (bl_header x)) = Some xs"
    using Cons.prems(1) blocks_back.simps [of get_block start i] by (auto simp: bind_eq_Some_conv split: if_splits)
  show ?case
  proof (cases xs)
    case Nil
    then show ?thesis using Cons.prems(2) by simp
  next
    case (Cons y ys)
    then have "h_parent (bl_header x) \<noteq> start"
      using step(3) blocks_back.simps [of get_block start "h_parent (bl_header x)"] by auto
    then show ?thesis using Cons.IH [OF step(3)] Cons.prems(2) Cons by auto
  qed
qed simp

section \<open>A sample node\<close>

text \<open>A node with an empty genesis identifier that has received one block.\<close>

definition sample_public :: "256 word leader_public" where
  "sample_public = the (leader_public_new word256_ops (\<lambda>_. 7) (tree_root id [[1]]) (replicate 32 0) 5
     (active_slot_coeff (consensus_config sample_config)) 100 [5] [6])"

definition sample_block :: "nat list \<Rightarrow> (256 word, nat, nat) block" where
  "sample_block blobs = \<lparr>bl_header = header_new [] 0 [] 5 sample_public, cl_transactions = [], bl_blobs = blobs\<rparr>"

definition sample_leader_settings :: leader_settings where
  "sample_leader_settings = \<lparr>ls_notes = [note_witness_new 5 NMO_UNIT [] [] []], ls_nf_sk = [1]\<rparr>"

definition sample_node ::
  "nat list \<Rightarrow> (unit consensus \<times> (header_hash, unit) leader \<times> (256 word, nat, nat, nat, nat) service_msg list) option" where
  "sample_node blobs =
     process_blocks sorted_list_of_set (sample_env id) id id (\<lambda>b. Some (set (bl_blobs b))) [sample_block blobs]
       (consensus_new [] (sample_state id [1]) sample_config)
       (leader_from_genesis [] sample_leader_settings sample_config)"

lemma sample_block_sel [simp]:
  "h_parent (bl_header (sample_block blobs)) = []" "h_orphaned_proofs (bl_header (sample_block blobs)) = []"
  "h_slot (bl_header (sample_block blobs)) = 5" "h_leader_proof (bl_header (sample_block blobs)) = sample_public"
  "bl_blobs (sample_block blobs) = blobs" "cl_transactions (sample_block blobs) = []"
  by (simp_all add: sample_block_def header_new_def)

lemma sample_s: "s_param (\<lambda>_ _. 10) (consensus_config sample_config) = Some 30"
  by (simp add: s_param_def sample_base saturating_mul_def)

lemma sample_header_update:
  "\<exists>st. header_update (sample_env id) sample_config (bl_header (sample_block blobs)) (sample_state id [1]) = Ok st"
proof -
  have ne: "(100 :: u64) \<noteq> 0" by simp
  obtain lp where lp: "leader_public_new word256_ops (\<lambda>_. 7) (tree_root id [[1]]) (replicate 32 0) 5
      (active_slot_coeff (consensus_config sample_config)) 100 [5] [6] = Some lp"
    using leader_public_new_total [OF word256_laws ne] .
  then have pub: "sample_public = lp" by (simp add: sample_public_def)
  note sel = leader_public_new_sel [OF lp]
  show ?thesis
    unfolding header_update_def by (simp add: header_orphans_def, rule sample_update)
      (use lp sel in \<open>simp_all add: risc0_leader_proof_def pub\<close>)
qed

lemma sample_proper: "proper_ids id [] {bl_header (sample_block blobs)}"
  by (simp add: proper_ids_def header_id_def sample_block_def header_new_def)

lemma sample_hyps:
  "proper_ids (blake (sample_env id)) [] (bl_header ` set [sample_block blobs])"
  "s_param (floor_quot (sample_env id)) (consensus_config sample_config) = Some 30"
  using sample_proper sample_s by simp_all

lemma sample_node_runs:
  "\<exists>c l ms. sample_node blobs = Some (c, l, ms) \<and>
     consensus_tip c = header_id id (bl_header (sample_block blobs)) \<and>
     storage_after ms Map.empty = [header_id id (bl_header (sample_block blobs)) \<mapsto> sample_block blobs]"
proof -
  let ?h = "bl_header (sample_block blobs)" and ?c = "consensus_new [] (sample_state id [1]) sample_config"
  have s: "s_param (\<lambda>_ _. 10) (engine_config (cs_engine ?c)) = Some 30" by (simp add: sample_s)
  have tip: "tips (branches_of (cs_engine ?c)) = {tip (cs_engine ?c)}" "tip (cs_engine ?c) = []"
    by (simp_all add: cryptarchia_new_def from_genesis_def tip_def)
  have new: "header_id id ?h \<notin> engine_known (cs_engine ?c)"
    using proper_ids_neq [OF sample_proper, of _ blobs] by simp
  have wf: "wf_engine (cs_engine ?c)" by (simp add: new_wf)
  obtain e where e: "receive_block sorted_list_of_set (\<lambda>_ _. 10) (cs_engine ?c) (header_id id ?h) [] 5 = Ok e"
    "tip e = header_id id ?h"
    using receive_block_extends [OF wf iterates_sorted s tip(1) new, of 5] unfolding tip(2) by metis
  obtain st where st: "header_update (sample_env id) sample_config ?h (sample_state id [1]) = Ok st"
    using sample_header_update by blast
  define c where "c = \<lparr>cs_ledger = (cs_ledger ?c)\<lparr>states := (states (cs_ledger ?c))(header_id id ?h \<mapsto> st)\<rparr>, cs_engine = e\<rparr>"
  have "ledger_apply (sample_env id) ?h (cs_ledger ?c) = Ok (cs_ledger c)"
    using st by (simp add: ledger_apply_Ok header_orphans_def c_def)
  then have ok: "try_apply_header sorted_list_of_set (sample_env id) ?h ?c = Ok c"
    using e(1) by (simp add: try_apply_header_def engine_apply_def c_def)
  have "validate_block id (sample_block blobs) (set blobs)" by (simp add: validate_block_def list_all_iff)
  then obtain ms where "process_block sorted_list_of_set (sample_env id) id id (Some (set blobs)) (sample_block blobs) ?c
       (leader_from_genesis [] sample_leader_settings sample_config) =
     Some (c, follow_chain (sha (sample_env id)) (leader_from_genesis [] sample_leader_settings sample_config) (h_parent ?h)
       (header_id (blake (sample_env id)) ?h) (lp_nullifier (h_leader_proof ?h)), ms)"
    "\<And>m. storage_after ms m = m(header_id (blake (sample_env id)) ?h \<mapsto> sample_block blobs)"
    using process_block_accepts [OF _ ok, where tx_id = id] by metis
  then show ?thesis using e(2) by (simp add: sample_node_def consensus_tip_def c_def)
qed

section \<open>Properties\<close>

lemma headers_walk_chain:
  assumes wf: "wf_branches g bs" and st: "stored bs b"
  shows "headers_walk bs g g n (branch_id b) = take n (rev (map branch_id (chain bs b)))"
  using wf st
proof (induction b arbitrary: n rule: chain_induct)
  case genesis
  then show ?case using wf_branchesD(2) [OF wf] by (cases n) (simp_all add: branches_get_def)
next
  case (extend b p)
  have par: "branch_parent b = branch_id p" using wf_branchesD(3) [OF wf extend.hyps(3)] by simp
  have "branch_id b \<noteq> g"
    using new_chain_id [OF wf extend.hyps(1,2,4)] hd_chain [OF wf extend.hyps(2)]
    by (metis chain_not_Nil genesis_branch_sel(1) hd_in_set imageI)
  then show ?case
    using extend.IH extend.hyps(1,5) par
    by (cases n) (auto simp: branches_get_def stored_def)
qed

text \<open>
  C7. The state of the consensus service is the state of its chain: after any sequence of blocks
  from the genesis, accepted or not, in which no panic occurs, the local chain consists of
  delivered headers, applying them to the genesis state with the ledger rules gives the
  ledger state at the tip, and \<open>Info\<close> and \<open>GetHeaders\<close> report exactly that chain: its tip, the slot of its
  ledger state, its height and, newest first, its last 512 headers.
\<close>

theorem queries_report_chain:
  assumes "process_blocks iter env tx_id blob_id sampled blocks (consensus_new g st0 cfg)
      (leader_from_genesis g ls cfg) = Some (c, l, ms)"
    and "proper_ids (blake env) g (bl_header ` set blocks)" and "iterates iter"
    and "s_param (floor_quot env) (consensus_config cfg) = Some s"
  shows "\<exists>hs st. set hs \<subseteq> bl_header ` set blocks \<and>
    g # map (header_id (blake env)) hs = map branch_id (local_blocks (cs_engine c)) \<and>
    (apply_blocks env cfg (map (header_block_update (blake env)) hs) st0 :: header_hash state_result) = Ok st \<and>
    consensus_process_message c Info =
      Some (InfoReply \<lparr>info_tip = last (g # map (header_id (blake env)) hs), info_slot = state_slot st,
        info_height = length hs\<rparr>) \<and>
    consensus_process_message c (GetHeaders None None) =
      Some (HeadersReply (take HEADERS_LIMIT (rev (g # map (header_id (blake env)) hs))))"
proof -
  have inv: "node_inv env g st0 cfg (bl_header ` set blocks) c"
    using process_blocks_inv [OF new_service_inv [OF assms(2)] assms(2) subset_refl assms(3,4,1)]
    by (simp add: service_inv_def)
  let ?bs = "branches_of (cs_engine c)" and ?b = "local_chain (cs_engine c)"
  have wf: "wf_branches g ?bs" and st: "stored ?bs ?b" and g: "genesis_id (cs_engine c) = g"
    using inv by (auto simp: node_inv_def wf_engine_def)
  from chain_states [OF inv wf st] obtain hs st' where hs: "set hs \<subseteq> bl_header ` set blocks"
    "g # map (header_id (blake env)) hs = map branch_id (chain ?bs ?b)"
    "(apply_blocks env cfg (map (header_block_update (blake env)) hs) st0 :: header_hash state_result) = Ok st'"
    "states (cs_ledger c) (branch_id ?b) = Some st'" by (elim exE conjE)
  have "length (g # map (header_id (blake env)) hs) = Suc (branch_length ?b)"
    unfolding hs(2) using length_chain [OF wf st] by simp
  moreover have "last (g # map (header_id (blake env)) hs) = branch_id ?b"
    unfolding hs(2) using last_chain [OF wf st] by (simp add: last_map)
  ultimately have "consensus_process_message c Info =
      Some (InfoReply \<lparr>info_tip = last (g # map (header_id (blake env)) hs), info_slot = state_slot st',
        info_height = length hs\<rparr>)"
    using st hs(4) by (simp add: consensus_process_message_def tip_state_def ledger_state_of_def consensus_tip_def
      tip_def branches_get_def stored_def)
  moreover have "consensus_process_message c (GetHeaders None None) =
      Some (HeadersReply (take HEADERS_LIMIT (rev (g # map (header_id (blake env)) hs))))"
    unfolding hs(2) using headers_walk_chain [OF wf st]
    by (simp add: consensus_process_message_def consensus_tip_def tip_def consensus_genesis_def g)
  ultimately show ?thesis
    using hs unfolding local_blocks_def by (rule_tac exI [of _ hs], rule_tac exI [of _ st']) (intro conjI)
qed

theorem queries_report_chain_witness:
  "\<exists>c l ms slot height. sample_node [7] = Some (c, l, ms) \<and> 0 < height \<and>
     consensus_process_message c Info = Some (InfoReply \<lparr>info_tip = header_id id (bl_header (sample_block [7])),
       info_slot = slot, info_height = height\<rparr>)"
proof -
  obtain c l ms where c: "sample_node [7] = Some (c, l, ms)" "consensus_tip c = header_id id (bl_header (sample_block [7]))"
    using sample_node_runs by blast
  from queries_report_chain [OF c(1) [unfolded sample_node_def] sample_hyps(1) iterates_sorted sample_hyps(2)]
  obtain hs and st :: ledger_state where "set hs \<subseteq> bl_header ` set [sample_block [7]]"
    and hs: "consensus_process_message c Info = Some (InfoReply \<lparr>info_tip = last ([] # map (header_id (blake (sample_env id))) hs),
      info_slot = state_slot st, info_height = length hs\<rparr>)" by (elim exE conjE) (rule that)
  then have tip: "last ([] # map (header_id (blake (sample_env id))) hs) = consensus_tip c"
    by (auto simp: consensus_process_message_def bind_eq_Some_conv)
  have "hs \<noteq> []" using tip c(2) proper_ids_neq [OF sample_proper, of _ "[7]"] by auto
  then have "0 < length hs" by simp
  then show ?thesis using c(1) hs unfolding tip c(2) by blast
qed

text \<open>
  C8. Recovery: a node that has run from the genesis, saved its state with \<open>from_cryptarchia\<close> and
  its accepted blocks in storage, and is started again from what it saved, comes back without an error at
  a block \<open>b\<close> of its old local chain, with the ledger state and the leader notes it had there.
  The loop over the stored blocks ends. The block is the old tip, unless the stored block after
  \<open>b\<close> is not replayable: the sampling service gives no answer or does not list its blobs (it
  lists none right after a restart), or it has orphan proofs, whose branches are not
  recovered. The height it reports counts from the block it recovered from.
\<close>

theorem recovery_rejoins_chain:
  assumes "process_blocks iter env tx_id blob_id sampled0 blocks (consensus_new g st0 cfg)
      (leader_from_genesis g ls cfg) = Some (c, l, ms)"
    and "proper_ids (blake env) g (bl_header ` set blocks)" and "iterates iter"
    and "s_param (floor_quot env) (consensus_config cfg) = Some s"
  shows "\<exists>b c' l' ms'. b \<in> set (local_blocks (cs_engine c)) \<and>
    build_cryptarchia iter env tx_id blob_id sampled (storage_after ms Map.empty) (from_cryptarchia c l) g st0 ls cfg
      = Some (c', l', ms') \<and>
    consensus_tip c' = branch_id b \<and> tip_state c' = ledger_state_of (cs_ledger c) (branch_id b) \<and>
    leader_notes l' (branch_id b) = leader_notes l (branch_id b) \<and>
    branch_length (local_chain (cs_engine c')) + branch_length (local_chain (cs_engine c)) =
      branch_length b + min (unat (security_param (consensus_config cfg))) (branch_length (local_chain (cs_engine c))) \<and>
    (branch_id b = consensus_tip c \<or>
     (\<exists>x \<in> set (local_blocks (cs_engine c)). branch_parent x = branch_id b \<and>
        (\<exists>blk. storage_after ms Map.empty (branch_id x) = Some blk \<and> \<not> replayable blob_id sampled blk)))"
proof -
  let ?m = "storage_after ms Map.empty" and ?b = "local_chain (cs_engine c)"
  have inv: "service_inv env g st0 ls cfg (set blocks) c l ?m"
    using process_blocks_inv [OF new_service_inv [OF assms(2)] assms(2) subset_refl assms(3,4,1)] .
  have wf: "wf_branches g (branches_of (cs_engine c))" and st: "stored (branches_of (cs_engine c)) ?b"
    using inv by (auto simp: service_inv_def node_inv_def wf_engine_def)
  obtain a sa na where a: "a \<in> set (local_blocks (cs_engine c))"
    "states (cs_ledger c) (branch_id a) = Some sa" "leader_notes l (branch_id a) = Some na"
    "branch_length ?b - branch_length a = min (unat (security_param (consensus_config cfg))) (branch_length ?b)"
    "build_cryptarchia iter env tx_id blob_id sampled ?m (from_cryptarchia c l) g st0 ls cfg =
       recover_cryptarchia iter env tx_id blob_id sampled ?m (branch_id a) sa (consensus_tip c)
         (leader_new (branch_id a) na (ls_nf_sk ls) cfg) cfg"
    using recovery_start [OF inv, of iter tx_id blob_id sampled ?m] .
  obtain bs q c' l' ms' where r: "blocks_back ?m (branch_id a) (branch_id ?b) = Some bs"
    "process_blocks iter env tx_id blob_id sampled (rev bs) (consensus_new (branch_id a) sa cfg)
      (leader_new (branch_id a) na (ls_nf_sk ls) cfg) = Some (c', l', ms')" "q \<in> set (local_blocks (cs_engine c))"
    "replayed c l a q c' l'" "replay_halts blob_id sampled ?m (local_blocks (cs_engine c)) q"
    using replay_chain [OF inv assms(2,3,4) a(2,3) wf st a(1) [unfolded local_blocks_def], of tx_id blob_id sampled]
    unfolding local_blocks_def by blast
  have "build_cryptarchia iter env tx_id blob_id sampled ?m (from_cryptarchia c l) g st0 ls cfg = Some (c', l', ms')"
    using a(5) r(1,2) by (simp add: recover_cryptarchia_def get_blocks_in_range_def consensus_tip_def tip_def)
  moreover have "branch_length a \<le> branch_length ?b" using chain_distinct [OF wf st] a(1) by (simp add: local_blocks_def)
  moreover have "branch_id q = consensus_tip c" if "q = last (local_blocks (cs_engine c))"
    using that last_chain [OF wf st] by (simp add: local_blocks_def consensus_tip_def tip_def)
  ultimately show ?thesis
    using r(3-5) a(4) replayed_tip [OF r(4)]
    by (intro exI [of _ q] exI [of _ c'] exI [of _ l'] exI [of _ ms'])
      (auto simp: replayed_def tip_state_def ledger_state_of_def consensus_tip_def replay_halts_def)
qed

text \<open>A restarted sampling service lists no blob: a chain without blobs is restored to its tip.\<close>

theorem recovery_rejoins_chain_witness:
  "\<exists>c l ms c' l' ms'. sample_node [] = Some (c, l, ms) \<and>
     build_cryptarchia sorted_list_of_set (sample_env id) id id (\<lambda>_. Some {})
       (storage_after ms Map.empty) (from_cryptarchia c l) [] (sample_state id [1]) sample_leader_settings sample_config
       = Some (c', l', ms') \<and>
     consensus_tip c' = header_id id (bl_header (sample_block [])) \<and> tip_state c' = tip_state c"
proof -
  obtain c l ms where c: "sample_node [] = Some (c, l, ms)" "consensus_tip c = header_id id (bl_header (sample_block []))"
      "storage_after ms Map.empty = [header_id id (bl_header (sample_block [])) \<mapsto> sample_block []]"
    using sample_node_runs by blast
  have "replayable id (\<lambda>_. Some {}) blk" if "storage_after ms Map.empty i = Some blk" for i blk
    using that unfolding c(3) by (auto simp: replayable_def validate_block_def split: if_splits)
  with recovery_rejoins_chain [OF c(1) [unfolded sample_node_def] sample_hyps(1) iterates_sorted sample_hyps(2),
      where sampled = "\<lambda>_. Some {}"]
  show ?thesis using c by (fastforce simp: tip_state_def)
qed

text \<open>
  Recovery stops at the first block whose blobs the sampling service does not list. Because
  that service keeps no state, right after a restart it lists none: a first block with a blob is
  refused, every later block then lacks its parent, and the node stays at the block it recovers from,
  without an error.
\<close>

theorem recovery_stops_at_blobs:
  assumes "get_blocks_in_range get_block start to = Some (b # bs)"
    and "sampled b = Some ids" and "\<not> validate_block blob_id b ids"
  shows "recover_cryptarchia iter env tx_id blob_id sampled get_block start st to l cfg =
    Some (consensus_new start st cfg, l, [])"
proof -
  have "blocks_back get_block start to = Some (rev bs @ [b])"
    using assms(1) by (auto simp: get_blocks_in_range_def rev_eq_Cons_iff)
  then have "h_parent (bl_header x) \<noteq> start" if "x \<in> set bs" for x
    using blocks_back_parents [of get_block start to "rev bs @ [b]" x] that by simp
  then have "process_blocks iter env tx_id blob_id sampled bs (consensus_new start st cfg) l =
      Some (consensus_new start st cfg, l, [])"
    by (intro unknown_parents_ignored) simp
  then show ?thesis using assms by (simp add: recover_cryptarchia_def process_block_def)
qed

theorem recovery_stops_at_blobs_witness:
  "recover_cryptarchia sorted_list_of_set (sample_env id) id id (\<lambda>b. Some ({} :: nat set))
     [[1] \<mapsto> sample_block [7]] [] (sample_state id [1]) [1] (leader_from_genesis [] sample_leader_settings sample_config)
     sample_config = Some (consensus_new [] (sample_state id [1]) sample_config,
       leader_from_genesis [] sample_leader_settings sample_config, [])"
proof -
  have "get_blocks_in_range [[1] \<mapsto> sample_block [7]] [] [1] = Some [sample_block [7]]"
    by (simp add: get_blocks_in_range_def blocks_back.simps [of _ "[]" "[1]"] blocks_back.simps [of _ "[]" "[]"])
  then show ?thesis by (rule recovery_stops_at_blobs [where ids = "{}"]) (simp_all add: validate_block_def)
qed

end
