(* ===== verification/Bundles.thy ===== *)
theory Bundles
  imports Leadership
begin

text \<open>
  Proven transaction bundles: \<open>nomos-core/chain-defs/src/tx/bundle.rs\<close> and the proofs of
  \<open>chain-defs/src/proofs\<close> (\<open>ptx.rs\<close>, \<open>covenant.rs\<close>, \<open>balance.rs\<close>).

  The zero knowledge virtual machine is the record \<open>zkvm\<close> of what the code calls: verification of
  a receipt for an image, decoding of its journal, and the provers. Its soundness, that a receipt
  which verifies for the image of a guest program has a journal that this program commits for a
  private input the prover knew, is the predicate \<open>zkvm_sound\<close>; it names the private inputs by
  functions of the receipt. Bincode is the parameter \<open>wire\<close>.
\<close>

type_synonym image_id = "u32 list"

record 'r zkvm =
  zk_verify :: "image_id \<Rightarrow> 'r \<Rightarrow> bool"
  zk_decode_ptx :: "'r \<Rightarrow> ptx_public option"
  zk_decode_covenant :: "'r \<Rightarrow> covenant_public option"
  zk_decode_balance :: "'r \<Rightarrow> bytes list option"
  zk_prove_ptx :: "partial_tx_witness \<Rightarrow> bytes \<Rightarrow> 'r option"
  zk_prove_balance :: "balance_witness list \<Rightarrow> 'r option"
  zk_prove_nop :: "covenant_public \<Rightarrow> 'r option"
  PTX_ID :: image_id
  BUNDLE_BALANCE_ID :: image_id
  COVENANT_NOP_ID :: image_id

section \<open>Proofs\<close>

record 'r covenant_proof =
  risc0_id :: image_id
  cov_receipt :: 'r

definition risc0_covenant :: "hash \<Rightarrow> image_id \<Rightarrow> covenant" where
  "risc0_covenant H i = covenant_from_vk H (concat (map (le_bytes 4) i))"

definition covenant_of_proof :: "hash \<Rightarrow> 'r covenant_proof \<Rightarrow> covenant" where
  "covenant_of_proof H p = risc0_covenant H (risc0_id p)"

definition nop_constraint :: "hash \<Rightarrow> 'r zkvm \<Rightarrow> covenant" where
  "nop_constraint H vm = risc0_covenant H (COVENANT_NOP_ID vm)"

definition prove_nop :: "'r zkvm \<Rightarrow> nullifier \<Rightarrow> bytes \<Rightarrow> 'r covenant_proof option" where
  "prove_nop vm nf root' =
     map_option (\<lambda>receipt. \<lparr>risc0_id = COVENANT_NOP_ID vm, cov_receipt = receipt\<rparr>)
       (zk_prove_nop vm \<lparr>cp_nf = nf, cp_ptx_root = root'\<rparr>)"

definition ptx_prove :: "'r zkvm \<Rightarrow> partial_tx_witness \<Rightarrow> bytes \<Rightarrow> 'r option" where
  "ptx_prove vm ptx cm_root = zk_prove_ptx vm ptx cm_root"

definition balance_prove :: "'r zkvm \<Rightarrow> bundle_witness \<Rightarrow> 'r option" where
  "balance_prove vm bw = zk_prove_balance vm (map ptxw_balance (partial_witnesses bw))"

text \<open>Deserialising a proof verifies its receipt.\<close>

definition ptx_proof_deserialize :: "'r zkvm \<Rightarrow> 'r \<Rightarrow> bool" where
  "ptx_proof_deserialize vm r = zk_verify vm (PTX_ID vm) r"

definition balance_proof_deserialize :: "'r zkvm \<Rightarrow> 'r \<Rightarrow> bool" where
  "balance_proof_deserialize vm r = zk_verify vm (BUNDLE_BALANCE_ID vm) r"

definition covenant_proof_deserialize :: "'r zkvm \<Rightarrow> 'r covenant_proof \<Rightarrow> bool" where
  "covenant_proof_deserialize vm p = zk_verify vm (risc0_id p) (cov_receipt p)"

section \<open>Bundles\<close>

record 'r tx_bundle =
  tb_cm_roots :: "bytes set"
  tb_bundle :: cl_bundle
  tb_ptx_proofs :: "'r list"
  tb_covenant_proofs :: "'r covenant_proof list list"
  tb_balance_proof :: 'r

datatype tx_error = Risc0ProofFailed | InvalidWitness

definition tx_bundle_prove ::
  "hash \<Rightarrow> 'r zkvm \<Rightarrow> bundle_witness \<Rightarrow> bytes \<Rightarrow> 'r covenant_proof list list \<Rightarrow>
     (tx_error, 'r tx_bundle) outcome" where
  "tx_bundle_prove H vm bw cm_root covenant_proofs =
     (if length (partial_witnesses bw) \<noteq> length covenant_proofs \<or>
         (\<exists>(cps, ptx) \<in> set (zip covenant_proofs (partial_witnesses bw)).
            length cps \<noteq> length (ptxw_inputs ptx))
      then Err InvalidWitness
      else
        bind_outcome (ok_or (those (map (\<lambda>ptx. ptx_prove vm ptx cm_root) (partial_witnesses bw)))
          Risc0ProofFailed) (\<lambda>ptx_proofs.
        bind_outcome (ok_or (balance_prove vm bw) Risc0ProofFailed) (\<lambda>balance_proof.
          Ok \<lparr>tb_cm_roots = {cm_root}, tb_bundle = bundle_commit H bw, tb_ptx_proofs = ptx_proofs,
              tb_covenant_proofs = covenant_proofs, tb_balance_proof = balance_proof\<rparr>)))"

datatype de_error =
    InvalidProof
  | InvalidNumberOfCovenantProofs
  | UndecodableJournal
  | InvalidCovenantPublicInputs
  | InvalidCovenantProof
  | InvalidBalancePublicInputs

text \<open>The inner loop over \<open>covenant_proofs.zip(ptx.inputs)\<close>. Computing \<open>ptx.root()\<close> panics when
  there are more than eight inputs or outputs.\<close>

fun check_covenants ::
  "hash \<Rightarrow> 'r zkvm \<Rightarrow> partial_tx \<Rightarrow> ('r covenant_proof \<times> cl_input) list \<Rightarrow> (de_error, unit) outcome" where
  "check_covenants H vm ptx [] = Ok ()"
| "check_covenants H vm ptx ((cp, i) # rest) =
     bind_outcome (ok_or (zk_decode_covenant vm (cov_receipt cp)) UndecodableJournal) (\<lambda>public.
     bind_outcome (expect (ptx_root H ptx)) (\<lambda>r.
       if cp_ptx_root public \<noteq> r \<or> cp_nf public \<noteq> in_nullifier i then Err InvalidCovenantPublicInputs
       else if covenant_of_proof H cp \<noteq> in_covenant i then Err InvalidCovenantProof
       else check_covenants H vm ptx rest))"

text \<open>The outer loop; it collects the transactions and the roots.\<close>

fun check_ptxs ::
  "hash \<Rightarrow> 'r zkvm \<Rightarrow> ('r \<times> 'r covenant_proof list) list \<Rightarrow>
     (de_error, partial_tx list \<times> bytes set) outcome" where
  "check_ptxs H vm [] = Ok ([], {})"
| "check_ptxs H vm ((ptx_proof, covenant_proofs) # rest) =
     bind_outcome (ok_or (zk_decode_ptx vm ptx_proof) UndecodableJournal) (\<lambda>pub.
     bind_outcome (check_covenants H vm (pp_ptx pub) (zip covenant_proofs (ptx_inputs (pp_ptx pub)))) (\<lambda>_.
     bind_outcome (check_ptxs H vm rest) (\<lambda>(ptxs, roots).
       Ok (pp_ptx pub # ptxs, insert (pp_cm_root pub) roots))))"

definition tx_bundle_deserialize ::
  "hash \<Rightarrow> 'r zkvm \<Rightarrow> 'r list \<Rightarrow> 'r covenant_proof list list \<Rightarrow> 'r \<Rightarrow> (de_error, 'r tx_bundle) outcome" where
  "tx_bundle_deserialize H vm ptx_proofs covenant_proofs balance_proof =
     (if \<not> (list_all (ptx_proof_deserialize vm) ptx_proofs \<and>
            list_all (list_all (covenant_proof_deserialize vm)) covenant_proofs \<and>
            balance_proof_deserialize vm balance_proof)
      then Err InvalidProof
      else if length ptx_proofs \<noteq> length covenant_proofs then Err InvalidNumberOfCovenantProofs
      else
        bind_outcome (check_ptxs H vm (zip ptx_proofs covenant_proofs)) (\<lambda>(ptxs, roots).
        bind_outcome (ok_or (zk_decode_balance vm balance_proof) UndecodableJournal) (\<lambda>public.
          if map ptx_balance ptxs \<noteq> public then Err InvalidBalancePublicInputs
          else Ok \<lparr>tb_cm_roots = roots, tb_bundle = \<lparr>partials = ptxs\<rparr>, tb_ptx_proofs = ptx_proofs,
                   tb_covenant_proofs = covenant_proofs, tb_balance_proof = balance_proof\<rparr>)))"

text \<open>\<open>serializer_into_buffer\<close> overwrites the buffer but does not grow it; \<open>as_bytes\<close> gives it an
  empty one and expects success.\<close>

definition serialize_into_buffer :: "('a \<Rightarrow> bytes) \<Rightarrow> bytes \<Rightarrow> 'a \<Rightarrow> bytes option" where
  "serialize_into_buffer wire buffer x =
     (if length (wire x) \<le> length buffer then Some (wire x @ drop (length (wire x)) buffer) else None)"

definition tx_bundle_as_bytes :: "('r tx_bundle \<Rightarrow> bytes) \<Rightarrow> 'r tx_bundle \<Rightarrow> bytes option" where
  "tx_bundle_as_bytes wire b = serialize_into_buffer wire [] b"

definition tx_hash :: "hash \<Rightarrow> ('r tx_bundle \<Rightarrow> bytes) \<Rightarrow> 'r tx_bundle \<Rightarrow> bytes option" where
  "tx_hash B wire b = map_option B (tx_bundle_as_bytes wire b)"

section \<open>Lemmas\<close>

definition zkvm_sound ::
  "hash \<Rightarrow> 'r zkvm \<Rightarrow> ('r \<Rightarrow> partial_tx_witness) \<Rightarrow> ('r \<Rightarrow> balance_witness list) \<Rightarrow> bool" where
  "zkvm_sound H vm ptx_of bals_of \<longleftrightarrow>
     (\<forall>r pub. zk_verify vm (PTX_ID vm) r \<and> zk_decode_ptx vm r = Some pub \<longrightarrow>
        ptx_main H (ptx_of r) (pp_cm_root pub) = Some pub) \<and>
     (\<forall>r pub. zk_verify vm (BUNDLE_BALANCE_ID vm) r \<and> zk_decode_balance vm r = Some pub \<longrightarrow>
        bundle_balance_main H (bals_of r) = Some pub)"

text \<open>The lengths the array types impose on a balance witness.\<close>

definition wf_balance :: "balance_witness \<Rightarrow> bool" where
  "wf_balance w \<longleftrightarrow> (\<forall>b \<in> set (balances w). length (ub_unit b) = 32) \<and> length (blinding w) = 16"

lemma concat_blocks_inject:
  assumes "n \<noteq> 0"
  shows "\<forall>x \<in> set xs. length (f x) = n \<Longrightarrow> \<forall>y \<in> set ys. length (f y) = n \<Longrightarrow> length r = length r' \<Longrightarrow>
    concat (map f xs) @ r = concat (map f ys) @ r' \<Longrightarrow> map f xs = map f ys \<and> r = r'"
proof (induction xs arbitrary: ys)
  case Nil
  then show ?case using assms arg_cong [OF Nil.prems(4), of length] by (cases ys) auto
next
  case (Cons x xs)
  show ?case
  proof (cases ys)
    case Nil
    then show ?thesis using assms Cons.prems(1,3) arg_cong [OF Cons.prems(4), of length] by auto
  next
    case (Cons y ys')
    then show ?thesis using Cons.IH [of ys'] Cons.prems by simp
  qed
qed

lemma entry_bytes_inject:
  fixes a b :: unit_balance
  assumes "length (ub_unit a) = 32" and "length (ub_unit b) = 32"
    and "ub_unit a @ le_bytes 8 (ub_pos a) @ le_bytes 8 (ub_neg a) =
         ub_unit b @ le_bytes 8 (ub_pos b) @ le_bytes 8 (ub_neg b)"
  shows "a = b"
  using assms le_bytes_inject [of 8 "ub_pos a" "ub_pos b"] le_bytes_inject [of 8 "ub_neg a" "ub_neg b"]
  by (intro unit_balance.equality) simp_all

lemma balance_commit_input_inject:
  assumes "wf_balance v" and "wf_balance w" and "balance_commit_input v = balance_commit_input w"
  shows "v = w"
proof -
  let ?f = "\<lambda>b :: unit_balance. ub_unit b @ le_bytes 8 (ub_pos b) @ le_bytes 8 (ub_neg b)"
  have eq: "map ?f (balances v) = map ?f (balances w) \<and> blinding v = blinding w"
    using assms by (intro concat_blocks_inject [of 48]) (auto simp: wf_balance_def balance_commit_input_def)
  then have len: "length (balances v) = length (balances w)" using map_eq_imp_length_eq by blast
  have "balances v ! i = balances w ! i" if "i < length (balances v)" for i
    using eq len that assms entry_bytes_inject [of "balances v ! i" "balances w ! i"]
    by (auto simp: wf_balance_def list_eq_iff_nth_eq)
  then show ?thesis using eq len by (cases v, cases w) (simp add: list_eq_iff_nth_eq)
qed

lemma balance_commits_inject:
  assumes "inj_on H (balance_commit_input ` (set vs \<union> set ws))"
    and "\<forall>w \<in> set vs \<union> set ws. wf_balance w" and "map (balance_commit H) vs = map (balance_commit H) ws"
  shows "vs = ws"
proof (rule nth_equalityI)
  show len: "length vs = length ws" using assms(3) map_eq_imp_length_eq by blast
  fix i assume i: "i < length vs"
  have mem: "vs ! i \<in> set vs \<union> set ws" "ws ! i \<in> set vs \<union> set ws" using i len by auto
  have "map (balance_commit H) vs ! i = map (balance_commit H) ws ! i" by (simp only: assms(3))
  then have eq: "H (balance_commit_input (vs ! i)) = H (balance_commit_input (ws ! i))"
    using i len by (simp add: balance_commit_def)
  have "balance_commit_input (vs ! i) = balance_commit_input (ws ! i)"
    using assms(1) eq imageI [OF mem(1)] imageI [OF mem(2)] by (rule inj_onD)
  then show "vs ! i = ws ! i" using balance_commit_input_inject assms(2) mem by blast
qed

lemma check_ptxs_ok:
  "check_ptxs H vm pcs = Ok (ptxs, roots) \<Longrightarrow>
     length ptxs = length pcs \<and> roots = {r. \<exists>(p, c) \<in> set pcs. \<exists>pub. zk_decode_ptx vm p = Some pub \<and> r = pp_cm_root pub} \<and>
     (\<forall>i < length pcs. \<exists>pub. zk_decode_ptx vm (fst (pcs ! i)) = Some pub \<and> pp_ptx pub = ptxs ! i)"
proof (induction pcs arbitrary: ptxs roots)
  case (Cons pc pcs)
  obtain p c where pc: "pc = (p, c)" by force
  obtain pub ptxs' roots' where d: "zk_decode_ptx vm p = Some pub" "check_ptxs H vm pcs = Ok (ptxs', roots')"
    "ptxs = pp_ptx pub # ptxs'" "roots = insert (pp_cm_root pub) roots'"
    using Cons.prems pc by auto
  show ?case using Cons.IH [OF d(2)] d(1,3,4) pc by (auto simp: nth_Cons split: nat.split)
qed auto

lemma deserialize_ok:
  assumes "tx_bundle_deserialize H vm pps cps bp = Ok tb"
  obtains ptxs where "tb_bundle tb = \<lparr>partials = ptxs\<rparr>" "length ptxs = length pps"
    "zk_verify vm (BUNDLE_BALANCE_ID vm) bp" "zk_decode_balance vm bp = Some (map ptx_balance ptxs)"
    "\<forall>i < length pps. zk_verify vm (PTX_ID vm) (pps ! i) \<and>
       (\<exists>pub. zk_decode_ptx vm (pps ! i) = Some pub \<and> pp_ptx pub = ptxs ! i)"
proof -
  have v: "list_all (ptx_proof_deserialize vm) pps" "balance_proof_deserialize vm bp" "length pps = length cps"
    using assms by (auto simp: tx_bundle_deserialize_def split: if_splits)
  obtain ptxs roots where c: "check_ptxs H vm (zip pps cps) = Ok (ptxs, roots)"
    "zk_decode_balance vm bp = Some (map ptx_balance ptxs)" "tb_bundle tb = \<lparr>partials = ptxs\<rparr>"
    using assms v by (auto simp: tx_bundle_deserialize_def split: if_splits prod.splits)
  show ?thesis
    using check_ptxs_ok [OF c(1)] v c(2,3)
    by (intro that [of ptxs])
      (auto simp: balance_proof_deserialize_def ptx_proof_deserialize_def list_all_length)
qed

text \<open>The witnesses behind the transaction proofs of an accepted bundle.\<close>

lemma deserialize_witnesses:
  assumes sound: "zkvm_sound H vm ptx_of bals_of"
    and ok: "tx_bundle_deserialize H vm pps cps bp = Ok tb"
  shows "tb_bundle tb = \<lparr>partials = map (\<lambda>r. ptxw_commit H (ptx_of r)) pps\<rparr>"
    and "\<forall>r \<in> set pps. \<forall>out \<in> set (ptxw_outputs (ptx_of r)). nw_value (ow_note out) > 0"
    and "bundle_balance_main H (bals_of bp) =
      Some (map (\<lambda>r. balance_commit H (ptxw_balance (ptx_of r))) pps)"
proof -
  obtain ptxs where d: "tb_bundle tb = \<lparr>partials = ptxs\<rparr>" "length ptxs = length pps"
    "zk_verify vm (BUNDLE_BALANCE_ID vm) bp" "zk_decode_balance vm bp = Some (map ptx_balance ptxs)"
    "\<forall>i < length pps. zk_verify vm (PTX_ID vm) (pps ! i) \<and>
       (\<exists>pub. zk_decode_ptx vm (pps ! i) = Some pub \<and> pp_ptx pub = ptxs ! i)"
    using deserialize_ok [OF ok] .
  have each: "ptxs ! i = ptxw_commit H (ptx_of (pps ! i)) \<and>
      (\<forall>out \<in> set (ptxw_outputs (ptx_of (pps ! i))). nw_value (ow_note out) > 0)"
    if i: "i < length pps" for i
  proof -
    obtain pub where pub: "zk_verify vm (PTX_ID vm) (pps ! i)" "zk_decode_ptx vm (pps ! i) = Some pub"
      "pp_ptx pub = ptxs ! i" using d(5) i by blast
    then have "ptx_main H (ptx_of (pps ! i)) (pp_cm_root pub) = Some pub"
      using sound unfolding zkvm_sound_def by blast
    then show ?thesis using pub(3) by (cases pub) (auto simp: ptx_main_def split: if_splits)
  qed
  have ptxs: "ptxs = map (\<lambda>r. ptxw_commit H (ptx_of r)) pps"
    using each d(2) by (intro nth_equalityI) auto
  then show "tb_bundle tb = \<lparr>partials = map (\<lambda>r. ptxw_commit H (ptx_of r)) pps\<rparr>" using d(1) by simp
  show "\<forall>r \<in> set pps. \<forall>out \<in> set (ptxw_outputs (ptx_of r)). nw_value (ow_note out) > 0"
    using each by (metis in_set_conv_nth)
  have "bundle_balance_main H (bals_of bp) = Some (map ptx_balance ptxs)"
    using sound d(3,4) unfolding zkvm_sound_def by blast
  then show "bundle_balance_main H (bals_of bp) =
      Some (map (\<lambda>r. balance_commit H (ptxw_balance (ptx_of r))) pps)"
    using ptxs by (simp add: ptxw_commit_def comp_def)
qed

lemma check_ptxs_without_covenants:
  "check_ptxs H vm (zip pps cps) = Ok x \<Longrightarrow> check_ptxs H vm (zip pps (map (\<lambda>_. []) cps)) = Ok x"
proof (induction pps arbitrary: cps x)
  case (Cons p pps)
  show ?case
  proof (cases cps)
    case Nil
    then show ?thesis using Cons.prems by simp
  next
    case (Cons c cs)
    then show ?thesis using Cons.prems Cons.IH [of cs] by (auto split: prod.splits)
  qed
qed simp

text \<open>\<open>as_bytes\<close> panics on every bundle, since a serialised bundle is not empty.\<close>

lemma bundle_as_bytes_panics:
  "wire b \<noteq> [] \<Longrightarrow> tx_bundle_as_bytes wire b = None \<and> tx_hash B wire b = None"
  by (simp add: tx_bundle_as_bytes_def serialize_into_buffer_def tx_hash_def)

section \<open>A sample bundle\<close>

definition sample_ptx :: partial_tx_witness where
  "sample_ptx = \<lparr>ptxw_inputs = [sample_input []], ptxw_outputs = [output_witness_new sample_note (replicate 32 8)],
     balance_blinding = replicate 16 0\<rparr>"

definition sample_root :: bytes where
  "sample_root = leaf id (input_note_commitment id (sample_input []))"

definition sample_vm :: "unit zkvm" where
  "sample_vm = \<lparr>zk_verify = (\<lambda>_ _. True), zk_decode_ptx = (\<lambda>_. ptx_main id sample_ptx sample_root),
     zk_decode_covenant = (\<lambda>_. None),
     zk_decode_balance = (\<lambda>_. bundle_balance_main id [ptxw_balance sample_ptx]),
     zk_prove_ptx = (\<lambda>_ _. None), zk_prove_balance = (\<lambda>_. None), zk_prove_nop = (\<lambda>_. None),
     PTX_ID = [], BUNDLE_BALANCE_ID = [], COVENANT_NOP_ID = []\<rparr>"

lemma sample_vm_sel [simp]:
  "zk_verify sample_vm i r" "zk_decode_ptx sample_vm r = ptx_main id sample_ptx sample_root"
  "zk_decode_balance sample_vm r = bundle_balance_main id [ptxw_balance sample_ptx]"
  by (simp_all add: sample_vm_def)

lemma sample_ptx_main:
  "ptx_main id sample_ptx sample_root =
     Some \<lparr>pp_ptx = ptxw_commit id sample_ptx, pp_cm_root = sample_root\<rparr>"
  by (simp add: ptx_main_def sample_ptx_def sample_root_def sample_input_def input_witness_new_def
    output_witness_new_def sample_note_def note_witness_new_def)

lemma sample_ptx_balance: "ptxw_balance sample_ptx = \<lparr>balances = [], blinding = replicate 16 0\<rparr>"
  by (simp add: ptxw_balance_def from_ptx_def sample_ptx_def sample_input_sel output_witness_new_def
    insert_negative_def insert_positive_def clear_zeros_def balance_zero_def clear_loop.simps
    ub_is_zero_def swap_remove_def)

lemma sample_balance_main:
  "bundle_balance_main id [ptxw_balance sample_ptx] = Some [balance_commit id (ptxw_balance sample_ptx)]"
  by (simp add: bundle_balance_main_def sample_ptx_balance combine_def clear_zeros_def balance_zero_def
    balance_is_zero_def clear_loop.simps)

lemma sample_vm_sound: "zkvm_sound id sample_vm (\<lambda>_. sample_ptx) (\<lambda>_. [ptxw_balance sample_ptx])"
  by (auto simp: zkvm_sound_def sample_ptx_main)

lemma sample_bundle_accepted: "\<exists>tb. tx_bundle_deserialize id sample_vm [()] [[]] () = Ok tb"
  by (simp add: tx_bundle_deserialize_def ptx_proof_deserialize_def balance_proof_deserialize_def
    sample_ptx_main sample_balance_main) (simp add: ptxw_commit_def)

section \<open>Properties\<close>

text \<open>
  C12. An accepted bundle conserves value: when receipts are sound and the hash does not collide
  on the balances that were proven, the partial transactions of a bundle that deserialises are
  commitments to witnesses whose outputs are all positive and whose inputs and outputs have the
  same sum for every unit, modulo \<open>2 ^ 64\<close>.
\<close>

theorem accepted_bundle_conserves_value:
  assumes "zkvm_sound H vm ptx_of bals_of"
    and "tx_bundle_deserialize H vm ptx_proofs covenant_proofs balance_proof = Ok tb"
    and "bals = set (bals_of balance_proof) \<union> (\<lambda>r. ptxw_balance (ptx_of r)) ` set ptx_proofs"
    and "inj_on H (balance_commit_input ` bals)" and "\<forall>b \<in> bals. wf_balance b"
    and "bw = \<lparr>partial_witnesses = map ptx_of ptx_proofs\<rparr>"
  shows "tb_bundle tb = bundle_commit H bw \<and>
    (\<forall>w \<in> set (partial_witnesses bw). \<forall>out \<in> set (ptxw_outputs w). nw_value (ow_note out) > 0) \<and>
    (\<forall>u. bundle_out u bw mod 2 ^ 64 = bundle_in u bw mod 2 ^ 64)"
proof -
  note w = deserialize_witnesses [OF assms(1,2)]
  let ?ws = "map (\<lambda>r. ptxw_balance (ptx_of r)) ptx_proofs"
  have zero: "balance_is_zero (combine (bals_of balance_proof) (replicate 16 0))"
    and commits: "map (balance_commit H) (bals_of balance_proof) = map (balance_commit H) ?ws"
    using w(3) by (auto simp: bundle_balance_main_def comp_def split: if_splits)
  have "bals_of balance_proof = ?ws"
    by (rule balance_commits_inject [OF _ _ commits]) (use assms(3,4,5) in simp_all)
  then have "balance_is_zero (bundle_balance bw)"
    using zero assms(6) by (simp add: bundle_balance_def comp_def)
  then have "\<forall>u. bundle_out u bw mod 2 ^ 64 = bundle_in u bw mod 2 ^ 64"
    unfolding bundle_zero_words of_nat_u64_eq_iff .
  moreover have "tb_bundle tb = bundle_commit H bw" using w(1) assms(6) by (simp add: bundle_commit_def)
  moreover have "\<forall>w \<in> set (partial_witnesses bw). \<forall>out \<in> set (ptxw_outputs w). nw_value (ow_note out) > 0"
    using w(2) assms(6) by simp
  ultimately show ?thesis by blast
qed

theorem accepted_bundle_conserves_value_witness:
  "\<exists>tb. tx_bundle_deserialize id sample_vm [()] [[]] () = Ok tb \<and>
    bundle_out (replicate 32 1) \<lparr>partial_witnesses = [sample_ptx]\<rparr> mod 2 ^ 64 =
    bundle_in (replicate 32 1) \<lparr>partial_witnesses = [sample_ptx]\<rparr> mod 2 ^ 64"
proof -
  obtain tb where tb: "tx_bundle_deserialize id sample_vm [()] [[]] () = Ok tb"
    using sample_bundle_accepted by blast
  have "wf_balance (ptxw_balance sample_ptx)" by (simp add: sample_ptx_balance wf_balance_def)
  then show ?thesis
    using accepted_bundle_conserves_value [OF sample_vm_sound tb refl _ _ refl] tb by fastforce
qed

text \<open>
  Covenant proofs may be left out: whenever a bundle deserialises, it also deserialises, to
  the same transactions, with every list of covenant proofs emptied. The zip with the inputs stops
  at the shorter list, so that no covenant of any input is checked.
\<close>

theorem missing_covenant_proofs_accepted:
  assumes "tx_bundle_deserialize H vm ptx_proofs covenant_proofs balance_proof = Ok tb"
  shows "tx_bundle_deserialize H vm ptx_proofs (map (\<lambda>_. []) covenant_proofs) balance_proof =
    Ok (tb\<lparr>tb_covenant_proofs := map (\<lambda>_. []) covenant_proofs\<rparr>)"
proof -
  obtain ptxs roots where c: "check_ptxs H vm (zip ptx_proofs covenant_proofs) = Ok (ptxs, roots)"
    using assms by (auto simp: tx_bundle_deserialize_def split: if_splits)
  show ?thesis
    using assms c check_ptxs_without_covenants [OF c]
    by (auto simp: tx_bundle_deserialize_def list_all_iff split: if_splits)
qed

theorem missing_covenant_proofs_accepted_witness:
  "\<exists>tb. tx_bundle_deserialize id sample_vm [()] [[]] () = Ok tb \<and> tb_covenant_proofs tb = [[]]"
proof -
  obtain tb where tb: "tx_bundle_deserialize id sample_vm [()] [[]] () = Ok tb"
    using sample_bundle_accepted by blast
  show ?thesis using missing_covenant_proofs_accepted [OF tb] by auto
qed

end
