(* ===== verification/Mempool.thy ===== *)
theory Mempool
  imports Prelude
begin

text \<open>
  The mempool: the trait \<open>MemPool\<close> and its messages (\<open>nomos-services/mempool/src/backend/mod.rs\<close>,
  \<open>lib.rs\<close>), the pool \<open>MockPool\<close> (\<open>backend/mockpool/mod.rs\<close>) and the transaction and blob services
  around it (\<open>tx/service.rs\<close>, \<open>da/service.rs\<close>).

  A \<open>LinkedHashMap\<close> is the association list of its entries in insertion order, a \<open>BTreeMap\<close> is a
  map. The time of day is an argument, in milliseconds since the Unix epoch. A service is its
  pool together with what it leaves outside: the state it last handed to the recovery operator
  and the items it sent to the network, oldest first.
\<close>

section \<open>The pool\<close>

datatype mempool_error = ExistingItem

datatype 'b status = Unknown | Pending | Rejected | InBlock 'b

record ('b, 'i, 'k) mock_pool =
  pending_items :: "('k \<times> 'i) list"
  in_block_items :: "'b \<rightharpoonup> 'i list"
  in_block_items_by_id :: "'k \<rightharpoonup> 'b"
  last_item_timestamp :: u64

definition pool_new :: "('b, 'i, 'k) mock_pool" where
  "pool_new = \<lparr>pending_items = [], in_block_items = Map.empty, in_block_items_by_id = Map.empty,
     last_item_timestamp = 0\<rparr>"

text \<open>Removal from the linked map, which keeps the order of the other entries.\<close>

definition remove_key :: "'k \<Rightarrow> ('k \<times> 'i) list \<Rightarrow> ('k \<times> 'i) list" where
  "remove_key k m = filter (\<lambda>e. fst e \<noteq> k) m"

definition add_item ::
  "int \<Rightarrow> 'k \<Rightarrow> 'i \<Rightarrow> ('b, 'i, 'k) mock_pool \<Rightarrow> (mempool_error, ('b, 'i, 'k) mock_pool) outcome" where
  "add_item now key item p =
     (if map_of (pending_items p) key \<noteq> None \<or> in_block_items_by_id p key \<noteq> None then Err ExistingItem
      else if now < 0 \<or> 2 ^ 64 \<le> now then Abort
      else Ok (p\<lparr>pending_items := pending_items p @ [(key, item)],
                 last_item_timestamp := of_int now\<rparr>))"

definition pool_view :: "('b, 'i, 'k) mock_pool \<Rightarrow> 'b \<Rightarrow> 'i list" where
  "pool_view p ancestor_hint = map snd (pending_items p)"

text \<open>The loop over the keys: what is left pending and the items that were.\<close>

fun take_items :: "'k list \<Rightarrow> ('k \<times> 'i) list \<Rightarrow> ('k \<times> 'i) list \<times> 'i list" where
  "take_items [] pending = (pending, [])"
| "take_items (key # keys) pending =
     (case map_of pending key of
        None \<Rightarrow> take_items keys pending
      | Some item \<Rightarrow>
          (let (rest, items) = take_items keys (remove_key key pending) in (rest, item # items)))"

definition mark_in_block ::
  "'k list \<Rightarrow> 'b \<Rightarrow> ('b, 'i, 'k) mock_pool \<Rightarrow> ('b, 'i, 'k) mock_pool" where
  "mark_in_block keys block p =
     (let (rest, items_in_block) = take_items keys (pending_items p);
          block_entry = (case in_block_items p block of None \<Rightarrow> [] | Some items \<Rightarrow> items) in
      p\<lparr>pending_items := rest,
        in_block_items := (in_block_items p)(block \<mapsto> block_entry @ items_in_block),
        in_block_items_by_id :=
          foldl (\<lambda>m key. m(key \<mapsto> block)) (in_block_items_by_id p) keys\<rparr>)"

definition pool_prune :: "'k list \<Rightarrow> ('b, 'i, 'k) mock_pool \<Rightarrow> ('b, 'i, 'k) mock_pool" where
  "pool_prune keys p =
     p\<lparr>pending_items := foldl (\<lambda>m key. remove_key key m) (pending_items p) keys\<rparr>"

definition pending_item_count :: "('b, 'i, 'k) mock_pool \<Rightarrow> nat" where
  "pending_item_count p = length (pending_items p)"

definition pool_status :: "('b, 'i, 'k) mock_pool \<Rightarrow> 'k list \<Rightarrow> 'b status list" where
  "pool_status p items =
     map (\<lambda>key. if map_of (pending_items p) key \<noteq> None then Pending
                else case in_block_items_by_id p key of
                       Some block \<Rightarrow> InBlock block
                     | None \<Rightarrow> Unknown) items"

definition pool_recover :: "('b, 'i, 'k) mock_pool \<Rightarrow> ('b, 'i, 'k) mock_pool" where
  "pool_recover state = state"

definition pool_save :: "('b, 'i, 'k) mock_pool \<Rightarrow> ('b, 'i, 'k) mock_pool" where
  "pool_save p = p"

section \<open>The services\<close>

datatype ('b, 'i, 'k) mempool_msg =
    Add 'i 'k
  | View 'b
  | Prune "'k list"
  | MarkInBlock "'k list" 'b
  | Metrics
  | StatusOf "'k list"

datatype ('b, 'i) mempool_reply =
    AddReply "mempool_error option"
  | ViewReply "'i list"
  | MetricsReply nat u64
  | StatusReply "'b status list"

record ('b, 'i, 'k) mempool_service =
  svc_pool :: "('b, 'i, 'k) mock_pool"
  svc_saved :: "('b, 'i, 'k) mock_pool option"
  svc_sent :: "'i list"

text \<open>\<open>init\<close>: from the saved state if there is one.\<close>

definition mempool_init :: "('b, 'i, 'k) mock_pool option \<Rightarrow> ('b, 'i, 'k) mempool_service" where
  "mempool_init saved =
     \<lparr>svc_pool = (case saved of None \<Rightarrow> pool_new | Some s \<Rightarrow> pool_recover s),
      svc_saved = saved, svc_sent = []\<rparr>"

text \<open>\<open>handle_mempool_message\<close>, the same in both services; the option is the reply, if any.\<close>

definition handle_mempool_message ::
  "int \<Rightarrow> ('b, 'i, 'k) mempool_msg \<Rightarrow> ('b, 'i, 'k) mempool_service \<Rightarrow>
     (('b, 'i, 'k) mempool_service \<times> ('b, 'i) mempool_reply option) option" where
  "handle_mempool_message now msg s =
     (case msg of
        Add item key \<Rightarrow>
          (case add_item now key item (svc_pool s) of
             Ok p \<Rightarrow> Some (s\<lparr>svc_pool := p, svc_saved := Some (pool_save p),
                           svc_sent := svc_sent s @ [item]\<rparr>, Some (AddReply None))
           | Err e \<Rightarrow> Some (s, Some (AddReply (Some e)))
           | Abort \<Rightarrow> None)
      | View ancestor_hint \<Rightarrow> Some (s, Some (ViewReply (pool_view (svc_pool s) ancestor_hint)))
      | MarkInBlock ids block \<Rightarrow>
          Some (s\<lparr>svc_pool := mark_in_block ids block (svc_pool s)\<rparr>, None)
      | Prune ids \<Rightarrow> Some (s\<lparr>svc_pool := pool_prune ids (svc_pool s)\<rparr>, None)
      | Metrics \<Rightarrow>
          Some (s, Some (MetricsReply (pending_item_count (svc_pool s))
                                      (last_item_timestamp (svc_pool s))))
      | StatusOf items \<Rightarrow> Some (s, Some (StatusReply (pool_status (svc_pool s) items))))"

text \<open>The branch of \<open>run\<close> for an item from the network.\<close>

definition tx_network_item ::
  "int \<Rightarrow> 'k \<Rightarrow> 'i \<Rightarrow> ('b, 'i, 'k) mempool_service \<Rightarrow> ('b, 'i, 'k) mempool_service option" where
  "tx_network_item now key item s =
     (case add_item now key item (svc_pool s) of
        Ok p \<Rightarrow> Some (s\<lparr>svc_pool := p, svc_saved := Some (pool_save p)\<rparr>)
      | Err e \<Rightarrow> Some (s\<lparr>svc_saved := Some (pool_save (svc_pool s))\<rparr>)
      | Abort \<Rightarrow> None)"

text \<open>The blob service first asks the sampling service to sample the blob; its result carries
  the identifier of the message. The send panics when the sampling service is gone.\<close>

definition da_network_item ::
  "bool \<Rightarrow> int \<Rightarrow> 'k \<Rightarrow> 'i \<Rightarrow> ('b, 'i, 'k) mempool_service \<Rightarrow>
     (('b, 'i, 'k) mempool_service \<times> 'k) option" where
  "da_network_item sampling_alive now key item s =
     (if sampling_alive then map_option (\<lambda>s'. (s', key)) (tx_network_item now key item s) else None)"

text \<open>A sequence of inputs of a service.\<close>

datatype ('b, 'i, 'k) mempool_event = Message "('b, 'i, 'k) mempool_msg" | NetworkItem 'k 'i

definition mempool_step ::
  "int \<Rightarrow> ('b, 'i, 'k) mempool_event \<Rightarrow> ('b, 'i, 'k) mempool_service \<Rightarrow>
     ('b, 'i, 'k) mempool_service option" where
  "mempool_step now ev s =
     (case ev of
        Message msg \<Rightarrow> map_option fst (handle_mempool_message now msg s)
      | NetworkItem key item \<Rightarrow> tx_network_item now key item s)"

fun mempool_run ::
  "(int \<times> ('b, 'i, 'k) mempool_event) list \<Rightarrow> ('b, 'i, 'k) mempool_service \<Rightarrow>
     ('b, 'i, 'k) mempool_service option" where
  "mempool_run [] s = Some s"
| "mempool_run ((now, ev) # evs) s = Option.bind (mempool_step now ev s) (mempool_run evs)"

section \<open>The contract of a mempool\<close>

text \<open>
  What a client may rely on: the status of every key and the pending items. The laws say how each
  operation moves the keys; the lemmas are about arbitrary sequences of operations.
\<close>

datatype ('b, 'i, 'k) pool_op = OpAdd int 'k 'i | OpMark "'k list" 'b | OpPrune "'k list"

fun op_step :: "('b, 'i, 'k) pool_op \<Rightarrow> ('k \<Rightarrow> 'b status) \<Rightarrow> 'k \<Rightarrow> 'b status" where
  "op_step (OpAdd now key item) st k = (if k = key \<and> st k = Unknown then Pending else st k)"
| "op_step (OpMark keys block) st k = (if k \<in> set keys then InBlock block else st k)"
| "op_step (OpPrune keys) st k = (if k \<in> set keys \<and> st k = Pending then Unknown else st k)"

text \<open>
  The items that are accepted, in the order of their arrival: those whose key is unknown when they
  come. A pruned item may come again; the last arrival of its key counts.
\<close>

fun accepted :: "('b, 'i, 'k) pool_op list \<Rightarrow> ('k \<Rightarrow> 'b status) \<Rightarrow> ('k \<times> 'i) list" where
  "accepted [] st = []"
| "accepted (x # xs) st =
     (case x of OpAdd now key item \<Rightarrow> if st key = Unknown then [(key, item)] else [] | _ \<Rightarrow> []) @
     accepted xs (op_step x st)"

fun latest :: "('k \<times> 'i) list \<Rightarrow> ('k \<times> 'i) list" where
  "latest [] = []"
| "latest (e # es) = (if fst e \<in> fst ` set es then latest es else e # latest es)"

lemma accepted_snoc:
  "accepted (xs @ [x]) st = accepted xs st @
     (case x of OpAdd now key item \<Rightarrow> if fold op_step xs st key = Unknown then [(key, item)] else [] | _ \<Rightarrow> [])"
  by (induction xs arbitrary: st) (simp_all split: pool_op.split)

lemma latest_snoc: "latest (es @ [e]) = filter (\<lambda>x. fst x \<noteq> fst e) (latest es) @ [e]"
  by (induction es) auto

lemma latest_distinct: "distinct (map fst es) \<Longrightarrow> latest es = es"
  by (induction es) auto

locale mempool =
  fixes inv :: "'p \<Rightarrow> bool"
    and status_of :: "'p \<Rightarrow> 'k \<Rightarrow> 'b status"
    and entries :: "'p \<Rightarrow> ('k \<times> 'i) list"
    and add :: "int \<Rightarrow> 'k \<Rightarrow> 'i \<Rightarrow> 'p \<Rightarrow> 'p option"
    and mark :: "'k list \<Rightarrow> 'b \<Rightarrow> 'p \<Rightarrow> 'p"
    and prune :: "'k list \<Rightarrow> 'p \<Rightarrow> 'p"
  assumes pending_entries: "inv p \<Longrightarrow> status_of p k = Pending \<longleftrightarrow> k \<in> fst ` set (entries p)"
    and entries_distinct: "inv p \<Longrightarrow> distinct (map fst (entries p))"
    and add_status: "inv p \<Longrightarrow> add now key item p = Some p' \<Longrightarrow>
      inv p' \<and> status_of p' = op_step (OpAdd now key item) (status_of p) \<and>
      entries p' = entries p @ (if status_of p key = Unknown then [(key, item)] else [])"
    and mark_status: "inv p \<Longrightarrow>
      inv (mark keys block p) \<and> status_of (mark keys block p) = op_step (OpMark keys block) (status_of p) \<and>
      entries (mark keys block p) = filter (\<lambda>e. fst e \<notin> set keys) (entries p)"
    and prune_status: "inv p \<Longrightarrow>
      inv (prune keys p) \<and> status_of (prune keys p) = op_step (OpPrune keys :: ('b, 'i, 'k) pool_op) (status_of p) \<and>
      entries (prune keys p) = filter (\<lambda>e. fst e \<notin> set keys) (entries p)"
begin

fun apply_op :: "('b, 'i, 'k) pool_op \<Rightarrow> 'p \<Rightarrow> 'p option" where
  "apply_op (OpAdd now key item) p = add now key item p"
| "apply_op (OpMark keys block) p = Some (mark keys block p)"
| "apply_op (OpPrune keys) p = Some (prune keys p)"

fun apply_ops :: "('b, 'i, 'k) pool_op list \<Rightarrow> 'p \<Rightarrow> 'p option" where
  "apply_ops [] p = Some p"
| "apply_ops (x # xs) p = Option.bind (apply_op x p) (apply_ops xs)"

lemma apply_op_status:
  "inv p \<Longrightarrow> apply_op x p = Some p' \<Longrightarrow> inv p' \<and> status_of p' = op_step x (status_of p)"
  by (cases x) (use add_status mark_status prune_status in auto)

lemma apply_ops_status:
  "inv p \<Longrightarrow> apply_ops xs p = Some p' \<Longrightarrow> inv p' \<and> status_of p' = fold op_step xs (status_of p)"
proof (induction xs arbitrary: p)
  case (Cons x xs)
  obtain q where q: "apply_op x p = Some q" "apply_ops xs q = Some p'"
    using Cons.prems(2) by (auto simp: bind_eq_Some_conv)
  show ?case using apply_op_status [OF Cons.prems(1) q(1)] Cons.IH [OF _ q(2)] by simp
qed simp

lemma apply_ops_snoc: "apply_ops (xs @ [x]) p = Option.bind (apply_ops xs p) (apply_op x)"
  by (induction xs arbitrary: p) (auto split: Option.bind_splits)

text \<open>What is pending is what was accepted and has neither been included nor pruned since.\<close>

lemma apply_ops_entries:
  "inv p \<Longrightarrow> apply_ops xs p = Some p' \<Longrightarrow>
     entries p' = filter (\<lambda>e. status_of p' (fst e) = Pending) (latest (entries p @ accepted xs (status_of p)))"
proof (induction xs arbitrary: p' rule: rev_induct)
  case Nil
  then have "filter (\<lambda>e. status_of p (fst e) = Pending) (entries p) = entries p"
    using pending_entries by (simp add: filter_id_conv)
  with Nil show ?case using entries_distinct by (simp add: latest_distinct)
next
  case (snoc x xs)
  obtain q where q: "apply_ops xs p = Some q" "apply_op x q = Some p'"
    using snoc.prems(2) by (auto simp: apply_ops_snoc bind_eq_Some_conv)
  note IH = snoc.IH [OF snoc.prems(1) q(1)]
  have inv: "inv q" and st: "fold op_step xs (status_of p) = status_of q"
    using apply_ops_status [OF snoc.prems(1) q(1)] by simp_all
  show ?case
  proof (cases x)
    case (OpAdd now key item)
    then have p': "status_of p' = op_step x (status_of q)"
      "entries p' = entries q @ (if status_of q key = Unknown then [(key, item)] else [])"
      using add_status [OF inv] q(2) by auto
    show ?thesis
      unfolding p' accepted_snoc st using IH OpAdd
      by (auto simp: latest_snoc simp flip: append_assoc intro!: filter_cong)
  next
    case (OpMark keys block)
    then have p': "status_of p' = op_step x (status_of q)" "entries p' = filter (\<lambda>e. fst e \<notin> set keys) (entries q)"
      using mark_status [OF inv, of keys block] q(2) by auto
    show ?thesis
      unfolding p' accepted_snoc IH using OpMark by (auto intro!: filter_cong)
  next
    case (OpPrune keys)
    then have p': "status_of p' = op_step x (status_of q)" "entries p' = filter (\<lambda>e. fst e \<notin> set keys) (entries q)"
      using prune_status [OF inv, of keys] q(2) by auto
    show ?thesis
      unfolding p' accepted_snoc IH using OpPrune by (auto intro!: filter_cong)
  qed
qed

lemma in_block_stays:
  "inv p \<Longrightarrow> apply_ops xs p = Some p' \<Longrightarrow> status_of p k = InBlock b \<Longrightarrow>
     \<exists>b'. status_of p' k = InBlock b' \<and> k \<notin> fst ` set (entries p')"
proof -
  assume p: "inv p" "apply_ops xs p = Some p'" "status_of p k = InBlock b"
  have "\<exists>b'. st k = InBlock b' \<Longrightarrow> \<exists>b'. fold op_step xs st k = InBlock b'" for st
  proof (induction xs arbitrary: st)
    case (Cons x xs)
    have "\<exists>b'. op_step x st k = InBlock b'" using Cons.prems by (cases x) auto
    then show ?case using Cons.IH by simp
  qed simp
  then obtain b' where "status_of p' k = InBlock b'" using apply_ops_status [OF p(1,2)] p(3) by fastforce
  moreover have "inv p'" using apply_ops_status [OF p(1,2)] by blast
  ultimately show ?thesis using pending_entries [of p' k] by (metis status.distinct(9))
qed

end

section \<open>The pool meets the contract\<close>

definition wf_pool :: "('b, 'i, 'k) mock_pool \<Rightarrow> bool" where
  "wf_pool p \<longleftrightarrow> distinct (map fst (pending_items p)) \<and>
     (\<forall>k \<in> fst ` set (pending_items p). in_block_items_by_id p k = None)"

definition key_status :: "('b, 'i, 'k) mock_pool \<Rightarrow> 'k \<Rightarrow> 'b status" where
  "key_status p k = hd (pool_status p [k])"

definition try_add :: "int \<Rightarrow> 'k \<Rightarrow> 'i \<Rightarrow> ('b, 'i, 'k) mock_pool \<Rightarrow> ('b, 'i, 'k) mock_pool option" where
  "try_add now key item p =
     (case add_item now key item p of Ok p' \<Rightarrow> Some p' | Err e \<Rightarrow> Some p | Abort \<Rightarrow> None)"

lemma key_status_eq:
  "key_status p k =
     (if k \<in> fst ` set (pending_items p) then Pending
      else case in_block_items_by_id p k of None \<Rightarrow> Unknown | Some b \<Rightarrow> InBlock b)"
  by (auto simp: key_status_def pool_status_def map_of_eq_None_iff split: option.split)

lemma pool_status_eq: "pool_status p ks = map (key_status p) ks"
  by (simp add: pool_status_def key_status_def)

lemma remove_key_set: "fst ` set (remove_key k m) = fst ` set m - {k}"
  by (auto simp: remove_key_def)

lemma foldl_remove_key: "foldl (\<lambda>m key. remove_key key m) m keys = filter (\<lambda>e. fst e \<notin> set keys) m"
  by (induction keys arbitrary: m) (auto simp: remove_key_def intro: filter_cong)

lemma take_items_rest: "fst (take_items keys m) = filter (\<lambda>e. fst e \<notin> set keys) m"
proof (induction keys m rule: take_items.induct)
  case (2 key keys m)
  show ?case
  proof (cases "map_of m key")
    case None
    then have "key \<notin> fst ` set m" by (simp add: map_of_eq_None_iff)
    then show ?thesis using 2(1) [OF None] None by (auto intro!: filter_cong)
  next
    case (Some item)
    then show ?thesis
      using 2(2) [OF Some] by (auto simp: remove_key_def split: prod.split intro!: filter_cong)
  qed
qed simp

lemma foldl_by_id: "foldl (\<lambda>m key. m(key \<mapsto> block)) m keys k = (if k \<in> set keys then Some block else m k)"
  by (induction keys arbitrary: m) auto

lemma mark_in_block_sel:
  "pending_items (mark_in_block keys block p) = filter (\<lambda>e. fst e \<notin> set keys) (pending_items p)"
  "in_block_items_by_id (mark_in_block keys block p) k =
     (if k \<in> set keys then Some block else in_block_items_by_id p k)"
  by (simp_all add: mark_in_block_def Let_def foldl_by_id case_prod_beta take_items_rest)

lemma distinct_filter_fst: "distinct (map fst m) \<Longrightarrow> distinct (map fst (filter P m))"
  by (induction m) auto

lemma try_add_eq:
  "try_add now key item p =
     (if key_status p key \<noteq> Unknown then Some p
      else if now < 0 \<or> 2 ^ 64 \<le> now then None
      else Some (p\<lparr>pending_items := pending_items p @ [(key, item)], last_item_timestamp := of_int now\<rparr>))"
  by (auto simp: try_add_def add_item_def key_status_eq map_of_eq_None_iff split: option.splits)

lemma try_add_status:
  "wf_pool p \<Longrightarrow> try_add now key item p = Some p' \<Longrightarrow>
     wf_pool p' \<and> key_status p' = op_step (OpAdd now key item) (key_status p) \<and>
     pending_items p' = pending_items p @ (if key_status p key = Unknown then [(key, item)] else [])"
  by (force simp: try_add_eq wf_pool_def key_status_eq fun_eq_iff split: if_splits option.splits)

lemma mark_in_block_status:
  "wf_pool p \<Longrightarrow> wf_pool (mark_in_block keys block p) \<and>
     key_status (mark_in_block keys block p) = op_step (OpMark keys block) (key_status p) \<and>
     pending_items (mark_in_block keys block p) = filter (\<lambda>e. fst e \<notin> set keys) (pending_items p)"
  by (auto simp: wf_pool_def key_status_eq fun_eq_iff mark_in_block_sel distinct_filter_fst)

lemma pool_prune_status:
  "wf_pool p \<Longrightarrow> wf_pool (pool_prune keys p) \<and>
     key_status (pool_prune keys p) = op_step (OpPrune keys) (key_status p) \<and>
     pending_items (pool_prune keys p) = filter (\<lambda>e. fst e \<notin> set keys) (pending_items p)"
  by (auto simp: wf_pool_def key_status_eq fun_eq_iff pool_prune_def foldl_remove_key distinct_filter_fst
    split: option.split)

lemma key_status_pending: "key_status p k = Pending \<longleftrightarrow> k \<in> fst ` set (pending_items p)"
  by (simp add: key_status_eq split: option.split)

lemma wf_pool_distinct: "wf_pool p \<Longrightarrow> distinct (map fst (pending_items p))"
  by (simp add: wf_pool_def)

interpretation mock: mempool wf_pool key_status pending_items try_add mark_in_block pool_prune
proof (unfold_locales, goal_cases)
  case 1
  show ?case by (rule key_status_pending)
next
  case 2
  then show ?case by (rule wf_pool_distinct)
next
  case 3
  then show ?case by (rule try_add_status)
next
  case 4
  then show ?case by (rule mark_in_block_status)
next
  case 5
  then show ?case by (rule pool_prune_status)
qed

lemma pool_new_wf [simp]: "wf_pool pool_new" "key_status pool_new k = Unknown"
  by (simp_all add: wf_pool_def pool_new_def key_status_eq)

section \<open>Sequences of inputs\<close>

fun event_ops :: "int \<times> ('b, 'i, 'k) mempool_event \<Rightarrow> ('b, 'i, 'k) pool_op list" where
  "event_ops (now, Message (Add item key)) = [OpAdd now key item]"
| "event_ops (now, Message (MarkInBlock ids block)) = [OpMark ids block]"
| "event_ops (now, Message (Prune ids)) = [OpPrune ids]"
| "event_ops (now, NetworkItem key item) = [OpAdd now key item]"
| "event_ops (now, Message (View h)) = []"
| "event_ops (now, Message Metrics) = []"
| "event_ops (now, Message (StatusOf items)) = []"

lemma mempool_step_pool:
  "map_option svc_pool (mempool_step now ev s) = mock.apply_ops (event_ops (now, ev)) (svc_pool s)"
  by (cases "(now, ev)" rule: event_ops.cases)
    (auto simp: mempool_step_def handle_mempool_message_def tx_network_item_def try_add_def
      split: outcome.splits)

lemma apply_ops_append:
  "mock.apply_ops (xs @ ys) p = Option.bind (mock.apply_ops xs p) (mock.apply_ops ys)"
  by (induction xs arbitrary: p) (auto split: Option.bind_splits)

lemma mempool_run_pool:
  "map_option svc_pool (mempool_run evs s) = mock.apply_ops (concat (map event_ops evs)) (svc_pool s)"
proof (induction evs arbitrary: s)
  case (Cons e evs)
  obtain now ev where e: "e = (now, ev)" by (cases e)
  have step: "mock.apply_ops (event_ops e) (svc_pool s) = map_option svc_pool (mempool_step now ev s)"
    using mempool_step_pool e by metis
  then show ?case
    using Cons.IH by (cases "mempool_step now ev s") (simp_all add: e apply_ops_append)
qed simp

section \<open>Properties\<close>

text \<open>
  C15. The mempool service refines the contract: after any sequence of messages and network items
  that does not panic, the status it reports for a key is what adding, marking and pruning make
  of the initial status one after the other, and a view lists, in the order of their arrival, exactly
  the items that were pending or accepted and whose key is pending now, each key once and with the
  item that came with it.
\<close>

theorem mempool_refines:
  fixes s s' :: "('b, 'i, 'k) mempool_service"
  assumes "wf_pool (svc_pool s)" and "mempool_run evs s = Some s'"
  shows "let ops = concat (map event_ops evs); status = fold op_step ops (key_status (svc_pool s)) in
    wf_pool (svc_pool s') \<and> pool_status (svc_pool s') ks = map status ks \<and>
    pool_view (svc_pool s') h = map snd (filter (\<lambda>e. status (fst e) = Pending)
      (latest (pending_items (svc_pool s) @ accepted ops (key_status (svc_pool s)))))"
proof -
  have run: "mock.apply_ops (concat (map event_ops evs)) (svc_pool s) = Some (svc_pool s')"
    using mempool_run_pool [of evs s] assms(2) by simp
  show ?thesis
    using mock.apply_ops_status [OF assms(1) run] mock.apply_ops_entries [OF assms(1) run]
    by (simp add: Let_def pool_status_eq pool_view_def)
qed

theorem mempool_refines_witness:
  "\<exists>s'. mempool_run [(4, Message (Add ''tz'' 3)), (5, Message (Add ''tx'' 1)), (6, NetworkItem 2 ''ty''),
       (7, Message (MarkInBlock [1] 9)), (8, Message (Prune [3])), (9, NetworkItem 3 ''tw'')]
       (mempool_init None :: (nat, string, int) mempool_service) = Some s' \<and>
     pool_status (svc_pool s') [1, 2, 3, 4] = [InBlock 9, Pending, Pending, Unknown] \<and>
     pool_view (svc_pool s') 0 = [''ty'', ''tw'']"
proof -
  let ?evs = "[(4, Message (Add ''tz'' 3)), (5, Message (Add ''tx'' 1)), (6, NetworkItem 2 ''ty''),
    (7, Message (MarkInBlock [1] 9)), (8, Message (Prune [3])), (9, NetworkItem 3 ''tw'')]
    :: (int \<times> (nat, string, int) mempool_event) list"
  let ?s = "mempool_init None :: (nat, string, int) mempool_service"
  have s: "svc_pool ?s = pool_new" by (simp add: mempool_init_def)
  obtain s' where s': "mempool_run ?evs ?s = Some s'"
    by (simp add: s mempool_step_def handle_mempool_message_def tx_network_item_def add_item_def pool_new_def
        mark_in_block_def pool_prune_def remove_key_def)
  have empty: "pending_items (pool_new :: (nat, string, int) mock_pool) = []" by (simp add: pool_new_def)
  show ?thesis
    using mempool_refines [OF _ s', of "[1, 2, 3, 4]" 0] s s' by (simp add: empty)
qed

text \<open>
  Included items come back after a restart: the services hand their state to the recovery
  operator when an item is added but not when items are marked as included or pruned, so a
  service that is started again from the saved state reports an included item as pending and
  offers it for the next block.
\<close>

theorem restart_forgets_inclusion:
  assumes "wf_pool (svc_pool s)" and "key_status (svc_pool s) key = Unknown" and "0 \<le> now" "now < 2 ^ 64"
  shows "\<exists>s' s''. handle_mempool_message now (Add item key) s = Some (s', Some (AddReply None)) \<and>
    handle_mempool_message now' (MarkInBlock [key] block) s' = Some (s'', None) \<and>
    key_status (svc_pool s'') key = InBlock block \<and>
    key_status (svc_pool (mempool_init (svc_saved s''))) key = Pending \<and>
    item \<in> set (pool_view (svc_pool (mempool_init (svc_saved s''))) h)"
proof -
  have "map_of (pending_items (svc_pool s)) key = None" "in_block_items_by_id (svc_pool s) key = None"
    using assms(2) by (auto simp: key_status_eq map_of_eq_None_iff split: if_splits option.splits)
  then show ?thesis
    using assms(3,4)
    by (auto simp: handle_mempool_message_def add_item_def key_status_eq mark_in_block_sel
      mempool_init_def pool_recover_def pool_save_def pool_view_def)
qed

theorem restart_forgets_inclusion_witness:
  "\<exists>s' s''. handle_mempool_message 5 (Add ''tx'' 1) (mempool_init None :: (nat, string, int) mempool_service)
      = Some (s', Some (AddReply None)) \<and>
    handle_mempool_message 6 (MarkInBlock [1] 9) s' = Some (s'', None) \<and>
    ''tx'' \<in> set (pool_view (svc_pool (mempool_init (svc_saved s''))) 0)"
proof -
  let ?s = "mempool_init None :: (nat, string, int) mempool_service"
  have "svc_pool ?s = pool_new" by (simp add: mempool_init_def)
  then show ?thesis using restart_forgets_inclusion [of ?s 1 5 "''tx''" 6 9 0] by auto
qed

end
