(* ===== verification/Sampling.thy ===== *)
theory Sampling
  imports Prelude
begin

text \<open>
  The sampling service of data availability, \<open>nomos-services/data-availability/sampling/src/lib.rs\<close>,
  and its backend \<open>backend/kzgrs.rs\<close>: a blob is sampled on a few columns and counts as available
  once enough of them have been fetched and verified.

  Blob identifiers are byte strings (of length 32 in the code), columns and subnetworks 16 bit
  integers, instants natural numbers. Commitments and light shares are type variables; the index
  of a share, the verifier service (\<open>None\<close> when it does not answer, which is a panic), what
  storage and the API know of a blob, and the random choice of columns are arguments.
\<close>

type_synonym blob_id = bytes
type_synonym subnetwork_id = u16

section \<open>The backend\<close>

record 'c sampling_context =
  sc_subnets :: "subnetwork_id set"
  sc_started :: nat
  sc_commitment :: "'c option"

record sampling_settings =
  num_samples :: u16
  num_subnets :: u16
  blobs_validity_duration :: nat

record 'c sampling_backend =
  sb_settings :: sampling_settings
  validated_blobs :: "blob_id set"
  pending_sampling_blobs :: "blob_id \<rightharpoonup> 'c sampling_context"

datatype sampling_state =
    WaitingCommitments
  | SamplingInit "subnetwork_id list"
  | SamplingTracking
  | SamplingTerminated

definition sampler_new :: "sampling_settings \<Rightarrow> 'c sampling_backend" where
  "sampler_new settings =
     \<lparr>sb_settings = settings, validated_blobs = {}, pending_sampling_blobs = Map.empty\<rparr>"

definition prune_by_time :: "nat \<Rightarrow> 'c sampling_backend \<Rightarrow> 'c sampling_backend" where
  "prune_by_time now s =
     s\<lparr>pending_sampling_blobs := (\<lambda>b.
         case pending_sampling_blobs s b of
           None \<Rightarrow> None
         | Some ctx \<Rightarrow>
             if now - sc_started ctx < blobs_validity_duration (sb_settings s) then Some ctx else None)\<rparr>"

definition get_validated_blobs :: "'c sampling_backend \<Rightarrow> blob_id set" where
  "get_validated_blobs s = validated_blobs s"

definition mark_completed :: "blob_id list \<Rightarrow> 'c sampling_backend \<Rightarrow> 'c sampling_backend" where
  "mark_completed ids s =
     foldl (\<lambda>s b. s\<lparr>pending_sampling_blobs := (pending_sampling_blobs s)(b := None),
                     validated_blobs := validated_blobs s - {b}\<rparr>) s ids"

definition handle_sampling_success ::
  "blob_id \<Rightarrow> u16 \<Rightarrow> 'c sampling_backend \<Rightarrow> 'c sampling_backend" where
  "handle_sampling_success b column_idx s =
     (case pending_sampling_blobs s b of
        None \<Rightarrow> s
      | Some ctx \<Rightarrow>
          let subnets = insert column_idx (sc_subnets ctx) in
          if card subnets = unat (num_samples (sb_settings s)) then
            s\<lparr>validated_blobs := insert b (validated_blobs s),
              pending_sampling_blobs := (pending_sampling_blobs s)(b := None)\<rparr>
          else
            s\<lparr>pending_sampling_blobs := (pending_sampling_blobs s)(b \<mapsto> ctx\<lparr>sc_subnets := subnets\<rparr>)\<rparr>)"

definition handle_sampling_error :: "blob_id \<Rightarrow> 'c sampling_backend \<Rightarrow> 'c sampling_backend" where
  "handle_sampling_error b s =
     (if pending_sampling_blobs s b \<noteq> None then
        s\<lparr>pending_sampling_blobs := (pending_sampling_blobs s)(b := None),
          validated_blobs := validated_blobs s - {b}\<rparr>
      else s)"

text \<open>\<open>pick xs n\<close> is \<open>choose_multiple\<close> of the crate \<open>rand\<close> with the generator at hand.\<close>

definition init_sampling ::
  "(u16 list \<Rightarrow> nat \<Rightarrow> u16 list) \<Rightarrow> nat \<Rightarrow> blob_id \<Rightarrow> 'c sampling_backend \<Rightarrow>
     'c sampling_backend \<times> sampling_state" where
  "init_sampling pick now b s =
     (if pending_sampling_blobs s b \<noteq> None then (s, SamplingTracking)
      else if b \<in> validated_blobs s then (s, SamplingTerminated)
      else
        (s\<lparr>pending_sampling_blobs := (pending_sampling_blobs s)(b \<mapsto>
             \<lparr>sc_subnets = {}, sc_started = now, sc_commitment = None\<rparr>)\<rparr>,
         SamplingInit (pick (map of_nat [0..<unat (num_subnets (sb_settings s))])
                              (unat (num_samples (sb_settings s))))))"

definition get_commitments :: "'c sampling_backend \<Rightarrow> blob_id \<Rightarrow> 'c option" where
  "get_commitments s b = Option.bind (pending_sampling_blobs s b) sc_commitment"

definition add_commitments :: "blob_id \<Rightarrow> 'c \<Rightarrow> 'c sampling_backend \<Rightarrow> 'c sampling_backend" where
  "add_commitments b c s =
     (case pending_sampling_blobs s b of
        None \<Rightarrow> s
      | Some ctx \<Rightarrow>
          s\<lparr>pending_sampling_blobs := (pending_sampling_blobs s)(b \<mapsto> ctx\<lparr>sc_commitment := Some c\<rparr>)\<rparr>)"

section \<open>The service\<close>

text \<open>The errors of the sampling protocol; those that carry a blob identifier carry it here.\<close>

datatype sampling_error =
    IoError
  | ProtocolError blob_id
  | OpenStreamError
  | DeserializeError blob_id
  | RequestChannelError
  | InvalidBlobId bytes
  | BlobNotFound bytes
  | ResponseChannelError

fun error_blob_id :: "sampling_error \<Rightarrow> blob_id option" where
  "error_blob_id (BlobNotFound b) = (if length b = 32 then Some b else None)"
| "error_blob_id (DeserializeError b) = Some b"
| "error_blob_id (ProtocolError b) = Some b"
| "error_blob_id _ = None"

datatype 'share sampling_event =
    SamplingSuccess blob_id 'share
  | SamplingError sampling_error
  | SamplingRequest blob_id u16

text \<open>\<open>stored\<close> is what storage has for the blob, \<open>fetched\<close> what the API answers.\<close>

definition request_commitments :: "'c option \<Rightarrow> 'c option \<Rightarrow> 'c option" where
  "request_commitments stored fetched = (case stored of Some c \<Rightarrow> Some c | None \<Rightarrow> fetched)"

text \<open>\<open>TriggerSampling\<close>; \<open>started\<close> says whether the network accepted the request. The second
  component is the list of columns the network was asked for.\<close>

definition trigger_sampling ::
  "(u16 list \<Rightarrow> nat \<Rightarrow> u16 list) \<Rightarrow> nat \<Rightarrow> 'c option \<Rightarrow> 'c option \<Rightarrow> bool \<Rightarrow> blob_id \<Rightarrow>
     'c sampling_backend \<Rightarrow> 'c sampling_backend \<times> subnetwork_id list" where
  "trigger_sampling pick now stored fetched started b s =
     (case init_sampling pick now b s of
        (s1, SamplingInit subnets) \<Rightarrow>
          (case request_commitments stored fetched of
             Some c \<Rightarrow>
               let s2 = add_commitments b c s1 in
               (if started then s2 else handle_sampling_error b s2, subnets)
           | None \<Rightarrow> (handle_sampling_error b s1, []))
      | (s1, _) \<Rightarrow> (s1, []))"

definition handle_sampling_message ::
  "('share \<Rightarrow> u16) \<Rightarrow> ('c \<Rightarrow> 'share \<Rightarrow> bool option) \<Rightarrow> 'share sampling_event \<Rightarrow>
     'c sampling_backend \<Rightarrow> 'c sampling_backend option" where
  "handle_sampling_message share_idx verify ev s =
     (case ev of
        SamplingSuccess b light_share \<Rightarrow>
          (case get_commitments s b of
             None \<Rightarrow> Some (handle_sampling_error b s)
           | Some commitments \<Rightarrow>
               map_option (\<lambda>valid.
                 if valid then handle_sampling_success b (share_idx light_share) s
                 else handle_sampling_error b s) (verify commitments light_share))
      | SamplingError error \<Rightarrow>
          Some (case (error_blob_id error, error) of
                  (Some b, BlobNotFound _) \<Rightarrow> handle_sampling_error b s
                | _ \<Rightarrow> s)
      | SamplingRequest b idx \<Rightarrow> Some s)"

text \<open>The inputs of the loop of \<open>run\<close>.\<close>

datatype ('c, 'share) sampling_input =
    Trigger "u16 list \<Rightarrow> nat \<Rightarrow> u16 list" nat "'c option" "'c option" bool blob_id
  | MarkBlobs "blob_id list"
  | NetworkEvent "'share sampling_event"
  | PruneTick nat

definition sampling_step ::
  "('share \<Rightarrow> u16) \<Rightarrow> ('c \<Rightarrow> 'share \<Rightarrow> bool option) \<Rightarrow> ('c, 'share) sampling_input \<Rightarrow>
     'c sampling_backend \<Rightarrow> 'c sampling_backend option" where
  "sampling_step share_idx verify i s =
     (case i of
        Trigger pick now stored fetched started b \<Rightarrow>
          Some (fst (trigger_sampling pick now stored fetched started b s))
      | MarkBlobs ids \<Rightarrow> Some (mark_completed ids s)
      | NetworkEvent ev \<Rightarrow> handle_sampling_message share_idx verify ev s
      | PruneTick now \<Rightarrow> Some (prune_by_time now s))"

fun sampling_run ::
  "('share \<Rightarrow> u16) \<Rightarrow> ('c \<Rightarrow> 'share \<Rightarrow> bool option) \<Rightarrow> ('c, 'share) sampling_input list \<Rightarrow>
     'c sampling_backend \<Rightarrow> 'c sampling_backend option" where
  "sampling_run share_idx verify [] s = Some s"
| "sampling_run share_idx verify (i # is) s =
     Option.bind (sampling_step share_idx verify i s) (sampling_run share_idx verify is)"

section \<open>What was sampled\<close>

text \<open>The columns of a blob that a history of inputs has shown to be available under \<open>c\<close>, where
  \<open>c\<close> is what storage or the API gave as the blob's commitments.\<close>

definition sampled_columns ::
  "('share \<Rightarrow> u16) \<Rightarrow> ('c \<Rightarrow> 'share \<Rightarrow> bool option) \<Rightarrow> ('c, 'share) sampling_input list \<Rightarrow>
     blob_id \<Rightarrow> 'c \<Rightarrow> u16 set" where
  "sampled_columns share_idx verify is b c =
     {share_idx sh | sh. NetworkEvent (SamplingSuccess b sh) \<in> set is \<and> verify c sh = Some True}"

definition known_commitments :: "('c, 'share) sampling_input list \<Rightarrow> blob_id \<Rightarrow> 'c set" where
  "known_commitments is b =
     {c. \<exists>pick now stored fetched started. Trigger pick now stored fetched started b \<in> set is \<and>
           request_commitments stored fetched = Some c}"

definition sampling_inv ::
  "('share \<Rightarrow> u16) \<Rightarrow> ('c \<Rightarrow> 'share \<Rightarrow> bool option) \<Rightarrow> ('c, 'share) sampling_input list \<Rightarrow>
     'c sampling_backend \<Rightarrow> bool" where
  "sampling_inv share_idx verify is s \<longleftrightarrow>
     (\<forall>b ctx. pending_sampling_blobs s b = Some ctx \<longrightarrow>
        finite (sc_subnets ctx) \<and>
        (case sc_commitment ctx of
           None \<Rightarrow> sc_subnets ctx = {}
         | Some c \<Rightarrow> c \<in> known_commitments is b \<and>
             sc_subnets ctx \<subseteq> sampled_columns share_idx verify is b c)) \<and>
     (\<forall>b \<in> validated_blobs s. \<exists>c \<in> known_commitments is b. \<exists>S.
        S \<subseteq> sampled_columns share_idx verify is b c \<and> card S = unat (num_samples (sb_settings s)))"

lemma history_mono:
  "set is \<subseteq> set js \<Longrightarrow> sampled_columns share_idx verify is b c \<subseteq> sampled_columns share_idx verify js b c"
  "set is \<subseteq> set js \<Longrightarrow> known_commitments is b \<subseteq> known_commitments js b"
  unfolding sampled_columns_def known_commitments_def by blast+

lemma sampling_inv_mono:
  assumes "sampling_inv share_idx verify is s" and "set is \<subseteq> set js"
  shows "sampling_inv share_idx verify js s"
proof -
  note mono = history_mono(1) [OF assms(2)] history_mono(2) [OF assms(2)]
  show ?thesis
    unfolding sampling_inv_def
  proof (intro conjI allI impI ballI)
    fix b ctx assume p: "pending_sampling_blobs s b = Some ctx"
    show "finite (sc_subnets ctx)" using assms(1) p by (simp add: sampling_inv_def)
    show "case sc_commitment ctx of None \<Rightarrow> sc_subnets ctx = {}
        | Some c \<Rightarrow> c \<in> known_commitments js b \<and> sc_subnets ctx \<subseteq> sampled_columns share_idx verify js b c"
      using assms(1) p mono unfolding sampling_inv_def by (fastforce split: option.splits)
  next
    fix b assume "b \<in> validated_blobs s"
    then show "\<exists>c \<in> known_commitments js b. \<exists>S. S \<subseteq> sampled_columns share_idx verify js b c \<and>
        card S = unat (num_samples (sb_settings s))"
      using assms(1) mono unfolding sampling_inv_def by (meson subset_iff)
  qed
qed

lemma sampling_inv_subset:
  assumes "sampling_inv share_idx verify is s" and "sb_settings s' = sb_settings s"
    and "pending_sampling_blobs s' \<subseteq>\<^sub>m pending_sampling_blobs s"
    and "validated_blobs s' \<subseteq> validated_blobs s"
  shows "sampling_inv share_idx verify is s'"
proof -
  have "pending_sampling_blobs s b = Some ctx" if "pending_sampling_blobs s' b = Some ctx" for b ctx
    using assms(3) that by (metis domI map_le_def)
  moreover have "b \<in> validated_blobs s" if "b \<in> validated_blobs s'" for b using assms(4) that by blast
  ultimately show ?thesis using assms(1,2) unfolding sampling_inv_def by auto
qed

lemma mark_completed_sub:
  "sb_settings (mark_completed ids s) = sb_settings s \<and>
   pending_sampling_blobs (mark_completed ids s) \<subseteq>\<^sub>m pending_sampling_blobs s \<and>
   validated_blobs (mark_completed ids s) \<subseteq> validated_blobs s"
proof (induction ids arbitrary: s)
  case (Cons b ids)
  let ?t = "s\<lparr>pending_sampling_blobs := (pending_sampling_blobs s)(b := None),
              validated_blobs := validated_blobs s - {b}\<rparr>"
  have "mark_completed (b # ids) s = mark_completed ids ?t" by (simp add: mark_completed_def)
  moreover have "pending_sampling_blobs ?t \<subseteq>\<^sub>m pending_sampling_blobs s" by (simp add: map_le_def)
  ultimately show ?case using Cons.IH [of ?t] map_le_trans by fastforce
qed (simp add: mark_completed_def)

lemma handle_sampling_error_sub:
  "sb_settings (handle_sampling_error b s) = sb_settings s"
  "pending_sampling_blobs (handle_sampling_error b s) \<subseteq>\<^sub>m pending_sampling_blobs s"
  "validated_blobs (handle_sampling_error b s) \<subseteq> validated_blobs s"
  by (auto simp: handle_sampling_error_def map_le_def)

lemma prune_by_time_sub:
  "sb_settings (prune_by_time now s) = sb_settings s"
  "pending_sampling_blobs (prune_by_time now s) \<subseteq>\<^sub>m pending_sampling_blobs s"
  "validated_blobs (prune_by_time now s) = validated_blobs s"
  by (auto simp: prune_by_time_def map_le_def dom_def split: option.splits if_splits)

lemma handle_sampling_error_inv:
  "sampling_inv share_idx verify is s \<Longrightarrow> sampling_inv share_idx verify is (handle_sampling_error b s)"
  using sampling_inv_subset [OF _ handle_sampling_error_sub] .

lemma trigger_sampling_inv:
  assumes "sampling_inv share_idx verify is s" and "Trigger pick now st f started b \<in> set is"
  shows "sampling_inv share_idx verify is (fst (trigger_sampling pick now st f started b s))"
proof (cases "pending_sampling_blobs s b = None \<and> b \<notin> validated_blobs s")
  case False
  then show ?thesis using assms(1) by (auto simp: trigger_sampling_def init_sampling_def)
next
  case True
  have fresh: "sampling_inv share_idx verify is
      (s\<lparr>pending_sampling_blobs := (pending_sampling_blobs s)(b \<mapsto> ctx)\<rparr>)"
    if "sc_subnets ctx = {}" "\<forall>c. sc_commitment ctx = Some c \<longrightarrow> c \<in> known_commitments is b" for ctx
    using assms(1) that by (auto simp: sampling_inv_def split: option.splits)
  show ?thesis
  proof (cases "request_commitments st f")
    case None
    then show ?thesis
      using True fresh [of "\<lparr>sc_subnets = {}, sc_started = now, sc_commitment = None\<rparr>"]
      by (simp add: trigger_sampling_def init_sampling_def handle_sampling_error_inv)
  next
    case (Some c)
    then have "c \<in> known_commitments is b" using assms(2) unfolding known_commitments_def by blast
    then show ?thesis
      using True Some fresh [of "\<lparr>sc_subnets = {}, sc_started = now, sc_commitment = Some c\<rparr>"]
      by (simp add: trigger_sampling_def init_sampling_def add_commitments_def handle_sampling_error_inv
        Let_def)
  qed
qed

lemma sampling_success_inv:
  assumes inv: "sampling_inv share_idx verify is s"
    and mem: "NetworkEvent (SamplingSuccess b sh) \<in> set is"
    and c: "get_commitments s b = Some c" "verify c sh = Some True"
  shows "sampling_inv share_idx verify is (handle_sampling_success b (share_idx sh) s)"
proof -
  obtain ctx where ctx: "pending_sampling_blobs s b = Some ctx" "sc_commitment ctx = Some c"
    using c(1) by (auto simp: get_commitments_def bind_eq_Some_conv)
  let ?S = "insert (share_idx sh) (sc_subnets ctx)"
  have S: "finite ?S" "c \<in> known_commitments is b" "?S \<subseteq> sampled_columns share_idx verify is b c"
    using inv ctx mem c(2) by (fastforce simp: sampling_inv_def sampled_columns_def)+
  have val: "\<exists>c \<in> known_commitments is b'. \<exists>S. S \<subseteq> sampled_columns share_idx verify is b' c \<and>
      card S = unat (num_samples (sb_settings s))" if "b' \<in> validated_blobs s" for b'
    using inv that by (simp add: sampling_inv_def)
  have pend: "finite (sc_subnets x) \<and> (case sc_commitment x of None \<Rightarrow> sc_subnets x = {}
      | Some c \<Rightarrow> c \<in> known_commitments is b' \<and> sc_subnets x \<subseteq> sampled_columns share_idx verify is b' c)"
    if "pending_sampling_blobs s b' = Some x" for b' x
    using inv that by (simp add: sampling_inv_def)
  show ?thesis
  proof (cases "card ?S = unat (num_samples (sb_settings s))")
    case True
    then have "\<exists>c \<in> known_commitments is b. \<exists>S. S \<subseteq> sampled_columns share_idx verify is b c \<and>
        card S = unat (num_samples (sb_settings s))" using S by blast
    then show ?thesis using True ctx val pend by (simp add: handle_sampling_success_def sampling_inv_def)
  next
    case False
    then show ?thesis using S ctx val pend by (simp add: handle_sampling_success_def sampling_inv_def)
  qed
qed

lemma sampling_step_inv:
  assumes inv: "sampling_inv share_idx verify is s" and mem: "i \<in> set is"
    and step: "sampling_step share_idx verify i s = Some s'"
  shows "sampling_inv share_idx verify is s'"
proof (cases i)
  case (Trigger pick now st f started b)
  then show ?thesis using trigger_sampling_inv [OF inv] mem step by (auto simp: sampling_step_def)
next
  case (MarkBlobs ids)
  then show ?thesis
    using sampling_inv_subset [OF inv] mark_completed_sub step by (fastforce simp: sampling_step_def)
next
  case (PruneTick now)
  then show ?thesis
    using sampling_inv_subset [OF inv prune_by_time_sub(1,2), of now] prune_by_time_sub(3) [of now s] step
    by (simp add: sampling_step_def)
next
  case (NetworkEvent ev)
  then show ?thesis
    using step mem inv sampling_success_inv [OF inv]
    by (auto simp: sampling_step_def handle_sampling_message_def handle_sampling_error_inv
      split: sampling_event.splits option.splits sampling_error.splits if_splits)
qed

lemma sampling_run_inv:
  "sampling_inv share_idx verify is s \<Longrightarrow> set js \<subseteq> set is \<Longrightarrow>
     sampling_run share_idx verify js s = Some s' \<Longrightarrow> sampling_inv share_idx verify is s'"
proof (induction js arbitrary: s)
  case (Cons j js)
  then obtain t where "sampling_step share_idx verify j s = Some t" "sampling_run share_idx verify js t = Some s'"
    by (auto simp: bind_eq_Some_conv)
  then show ?case using Cons sampling_step_inv [OF Cons.prems(1)] by fastforce
qed simp

lemma sampling_settings_kept:
  assumes "sampling_step share_idx verify i s = Some s'"
  shows "sb_settings s' = sb_settings s"
proof (cases i)
  case (Trigger pick now st f started b)
  have "sb_settings (fst (trigger_sampling pick now st f started b s)) = sb_settings s"
    by (cases "request_commitments st f")
      (simp_all add: trigger_sampling_def init_sampling_def add_commitments_def handle_sampling_error_sub Let_def)
  then show ?thesis using assms Trigger by (simp add: sampling_step_def)
next
  case (NetworkEvent ev)
  have "sb_settings (handle_sampling_success b x s) = sb_settings s" for b x
    by (simp add: handle_sampling_success_def Let_def split: option.split)
  then show ?thesis
    using assms NetworkEvent
    by (auto simp: sampling_step_def handle_sampling_message_def handle_sampling_error_sub
      split: sampling_event.splits option.splits sampling_error.splits)
qed (use assms mark_completed_sub prune_by_time_sub in \<open>fastforce simp: sampling_step_def\<close>)+

lemma sampling_run_settings:
  "sampling_run share_idx verify is s = Some s' \<Longrightarrow> sb_settings s' = sb_settings s"
  by (induction "is" arbitrary: s) (auto simp: bind_eq_Some_conv dest: sampling_settings_kept)

section \<open>Runs of successful samples\<close>

lemma sampling_run_append:
  "sampling_run share_idx verify (is @ js) s =
     Option.bind (sampling_run share_idx verify is s) (sampling_run share_idx verify js)"
  by (induction "is" arbitrary: s) (auto split: Option.bind_splits)

definition samples :: "blob_id \<Rightarrow> 'share list \<Rightarrow> ('c, 'share) sampling_input list" where
  "samples b shs = map (\<lambda>sh. NetworkEvent (SamplingSuccess b sh)) shs"

lemma sample_step:
  assumes "pending_sampling_blobs s b = Some ctx" and "sc_commitment ctx = Some c"
    and "verify c sh = Some True"
  shows "sampling_step share_idx verify (NetworkEvent (SamplingSuccess b sh)) s =
    Some (handle_sampling_success b (share_idx sh) s)"
  using assms by (simp add: sampling_step_def handle_sampling_message_def get_commitments_def)

lemma samples_below:
  assumes "pending_sampling_blobs s b = Some ctx" and "sc_commitment ctx = Some c"
    and "\<forall>sh \<in> set shs. verify c sh = Some True" and "finite (sc_subnets ctx)"
    and "distinct (map share_idx shs)" and "sc_subnets ctx \<inter> share_idx ` set shs = {}"
    and "card (sc_subnets ctx) + length shs < unat (num_samples (sb_settings s))"
  shows "sampling_run share_idx verify (samples b shs) s =
    Some (s\<lparr>pending_sampling_blobs := (pending_sampling_blobs s)(b \<mapsto>
      ctx\<lparr>sc_subnets := sc_subnets ctx \<union> share_idx ` set shs\<rparr>)\<rparr>)"
  using assms
proof (induction shs arbitrary: s ctx)
  case Nil
  then have "(pending_sampling_blobs s)(b \<mapsto> ctx) = pending_sampling_blobs s" by (simp add: fun_upd_idem)
  then show ?case by (simp add: samples_def)
next
  case (Cons sh shs)
  let ?ctx = "ctx\<lparr>sc_subnets := insert (share_idx sh) (sc_subnets ctx)\<rparr>"
  let ?s = "s\<lparr>pending_sampling_blobs := (pending_sampling_blobs s)(b \<mapsto> ?ctx)\<rparr>"
  have card: "card (insert (share_idx sh) (sc_subnets ctx)) = Suc (card (sc_subnets ctx))"
    using Cons.prems(4,6) by simp
  then have step: "sampling_step share_idx verify (NetworkEvent (SamplingSuccess b sh)) s = Some ?s"
    using sample_step [of s b ctx c verify sh share_idx] Cons.prems
    by (simp add: handle_sampling_success_def)
  have "sampling_run share_idx verify (samples b shs) ?s =
    Some (?s\<lparr>pending_sampling_blobs := (pending_sampling_blobs ?s)(b \<mapsto>
      ?ctx\<lparr>sc_subnets := sc_subnets ?ctx \<union> share_idx ` set shs\<rparr>)\<rparr>)"
    by (rule Cons.IH) (use Cons.prems card in auto)
  then have "sampling_run share_idx verify (samples b shs) ?s =
    Some (s\<lparr>pending_sampling_blobs := (pending_sampling_blobs s)(b \<mapsto>
      ctx\<lparr>sc_subnets := sc_subnets ctx \<union> share_idx ` set (sh # shs)\<rparr>)\<rparr>)"
    by simp
  then show ?case by (simp only: samples_def list.map sampling_run.simps step bind.bind_lunit)
qed

lemma samples_complete:
  assumes "pending_sampling_blobs s b = Some ctx" and "sc_commitment ctx = Some c"
    and "\<forall>sh \<in> set shs. verify c sh = Some True" and "sc_subnets ctx = {}"
    and "distinct (map share_idx shs)" and "shs \<noteq> []"
    and "length shs = unat (num_samples (sb_settings s))"
  shows "\<exists>s'. sampling_run share_idx verify (samples b shs) s = Some s' \<and> b \<in> validated_blobs s'"
proof -
  obtain xs x where shs: "shs = xs @ [x]" using assms(6) by (metis rev_exhaust)
  let ?ctx = "ctx\<lparr>sc_subnets := share_idx ` set xs\<rparr>"
  let ?s = "s\<lparr>pending_sampling_blobs := (pending_sampling_blobs s)(b \<mapsto> ?ctx)\<rparr>"
  have xs: "sampling_run share_idx verify (samples b xs) s = Some ?s"
    using samples_below [of s b ctx c xs verify share_idx] assms shs by simp
  have "card (insert (share_idx x) (share_idx ` set xs)) = length shs"
    using assms(5) shs distinct_card [of "map share_idx shs"] by simp
  then have "sampling_step share_idx verify (NetworkEvent (SamplingSuccess b x)) ?s =
      Some (?s\<lparr>validated_blobs := insert b (validated_blobs s),
        pending_sampling_blobs := (pending_sampling_blobs ?s)(b := None)\<rparr>)"
    using sample_step [of ?s b ?ctx c verify x share_idx] assms(2,3,7) shs
    by (simp add: handle_sampling_success_def)
  then show ?thesis using xs shs by (simp add: samples_def sampling_run_append)
qed

lemma trigger_fresh:
  assumes "pending_sampling_blobs s b = None" and "b \<notin> validated_blobs s"
    and "request_commitments st f = Some c"
  shows "trigger_sampling pick now st f True b s =
    (s\<lparr>pending_sampling_blobs := (pending_sampling_blobs s)(b \<mapsto>
        \<lparr>sc_subnets = {}, sc_started = now, sc_commitment = Some c\<rparr>)\<rparr>,
     pick (map of_nat [0..<unat (num_subnets (sb_settings s))]) (unat (num_samples (sb_settings s))))"
  using assms by (simp add: trigger_sampling_def init_sampling_def add_commitments_def Let_def)

text \<open>What \<open>rand\<close> documents of \<open>choose_multiple\<close>.\<close>

definition picks :: "('a list \<Rightarrow> nat \<Rightarrow> 'a list) \<Rightarrow> bool" where
  "picks pick \<longleftrightarrow> (\<forall>xs n. distinct xs \<longrightarrow>
     distinct (pick xs n) \<and> set (pick xs n) \<subseteq> set xs \<and> length (pick xs n) = min n (length xs))"

lemma distinct_columns: "distinct (map (of_nat :: nat \<Rightarrow> u16) [0..<unat (n :: u16)])"
proof -
  have "i = j" if "(of_nat i :: u16) = of_nat j" "i < unat n" "j < unat n" for i j
  proof -
    have "i < 2 ^ 16" "j < 2 ^ 16" using that(2,3) unsigned_less [of n, where ?'a = nat] by simp_all
    then show ?thesis using that(1) by (simp add: word_of_nat_eq_iff take_bit_nat_eq_self)
  qed
  then show ?thesis by (auto simp: distinct_map inj_on_def)
qed

section \<open>Properties\<close>

text \<open>
  C16. A blob the sampler reports as validated has been sampled: after every sequence of inputs
  from the start, for some commitments that storage or the API gave for the blob, at least
  \<open>num_samples\<close> distinct columns were received and verified against those commitments.
\<close>

theorem validated_blobs_sampled:
  assumes "sampling_run share_idx verify is (sampler_new settings) = Some s"
    and "b \<in> get_validated_blobs s"
  shows "\<exists>c \<in> known_commitments is b.
    unat (num_samples settings) \<le> card (sampled_columns share_idx verify is b c)"
proof -
  have "sampling_inv share_idx verify is (sampler_new settings :: 'a sampling_backend)"
    by (simp add: sampling_inv_def sampler_new_def)
  then have "sampling_inv share_idx verify is s" using sampling_run_inv assms(1) by blast
  moreover have "sb_settings s = settings"
    using sampling_run_settings [OF assms(1)] by (simp add: sampler_new_def)
  ultimately obtain c S where c: "c \<in> known_commitments is b" "S \<subseteq> sampled_columns share_idx verify is b c"
    "card S = unat (num_samples settings)"
    using assms(2) by (auto simp: sampling_inv_def get_validated_blobs_def)
  have "card S \<le> card (sampled_columns share_idx verify is b c)" by (rule card_mono) (use c(2) in simp_all)
  then show ?thesis using c by auto
qed

definition sample_settings :: sampling_settings where
  "sample_settings = \<lparr>num_samples = 2, num_subnets = 3, blobs_validity_duration = 10\<rparr>"

definition sample_inputs :: "(unit, u16) sampling_input list" where
  "sample_inputs = Trigger (\<lambda>xs n. take n xs) 0 (Some ()) None True [7] # samples [7] [1, 0]"

theorem validated_blobs_sampled_witness:
  "\<exists>s. sampling_run id (\<lambda>_ _. Some True) sample_inputs (sampler_new sample_settings) = Some s \<and>
     [7] \<in> get_validated_blobs s \<and>
     (\<exists>c \<in> known_commitments sample_inputs [7].
        2 \<le> card (sampled_columns id (\<lambda>_ _. Some True) sample_inputs [7] c))"
proof -
  have "\<exists>s. sampling_run id (\<lambda>_ _. Some True) sample_inputs (sampler_new sample_settings) = Some s \<and>
      [7] \<in> get_validated_blobs s"
    by (simp add: sample_inputs_def sample_settings_def sampling_step_def trigger_sampling_def
      init_sampling_def add_commitments_def request_commitments_def handle_sampling_message_def
      handle_sampling_success_def get_commitments_def sampler_new_def get_validated_blobs_def samples_def Let_def)
  then show ?thesis using validated_blobs_sampled by (fastforce simp: sample_settings_def)
qed

text \<open>
  C17. Sampling completes exactly when it can: when all requested columns of a new blob arrive and
  verify, in any order, the blob is validated if the settings ask for between one and
  \<open>num_subnets\<close> samples, and it is never validated if they ask for none or for more than there
  are columns.
\<close>

theorem sampling_completes:
  assumes "pending_sampling_blobs s b = None" and "b \<notin> validated_blobs s"
    and "request_commitments st f = Some c" and "picks pick"
    and "distinct shs" and "inj_on share_idx (set shs)"
    and "share_idx ` set shs = set (snd (trigger_sampling pick now st f True b s))"
    and "\<forall>sh \<in> set shs. verify c sh = Some True"
  shows "\<exists>s'. sampling_run share_idx verify (Trigger pick now st f True b # samples b shs) s = Some s' \<and>
    (b \<in> get_validated_blobs s' \<longleftrightarrow>
       0 < num_samples (sb_settings s) \<and> num_samples (sb_settings s) \<le> num_subnets (sb_settings s))"
proof -
  let ?ctx = "\<lparr>sc_subnets = {}, sc_started = now, sc_commitment = Some c\<rparr>"
  let ?s = "s\<lparr>pending_sampling_blobs := (pending_sampling_blobs s)(b \<mapsto> ?ctx)\<rparr>"
  let ?n = "unat (num_samples (sb_settings s))" and ?m = "unat (num_subnets (sb_settings s))"
  note t = trigger_fresh [OF assms(1-3), of pick now]
  have run: "sampling_run share_idx verify (Trigger pick now st f True b # samples b shs) s =
      sampling_run share_idx verify (samples b shs) ?s"
    by (simp add: sampling_step_def t)
  have d: "distinct (map share_idx shs)" using assms(5,6) by (simp add: distinct_map)
  have "distinct (snd (trigger_sampling pick now st f True b s))"
    "length (snd (trigger_sampling pick now st f True b s)) = min ?n ?m"
    using assms(4) distinct_columns by (simp_all add: t picks_def)
  then have len: "length shs = min ?n ?m"
    using assms(7) d distinct_card by (metis length_map list.set_map)
  show ?thesis
  proof (cases "0 < ?n \<and> ?n \<le> ?m")
    case True
    then have "shs \<noteq> []" "length shs = ?n" using len by auto
    then have "\<exists>s'. sampling_run share_idx verify (samples b shs) ?s = Some s' \<and> b \<in> validated_blobs s'"
      using samples_complete [of ?s b ?ctx c shs verify share_idx] assms(8) d by simp
    then show ?thesis
      using True run by (auto simp: get_validated_blobs_def word_le_nat_alt word_less_nat_alt)
  next
    case False
    show ?thesis
    proof (cases "?n = 0")
      case True
      then have "shs = []" using len by simp
      then show ?thesis
        using True run assms(2) by (simp add: samples_def get_validated_blobs_def unat_eq_0)
    next
      case nz: False
      then have "length shs < ?n" using False len by auto
      then show ?thesis
        using samples_below [of ?s b ?ctx c shs verify share_idx] assms(2,8) d run False
        by (auto simp: get_validated_blobs_def word_le_nat_alt word_less_nat_alt)
    qed
  qed
qed

theorem sampling_completes_witness:
  "\<exists>s'. sampling_run id (\<lambda>_ _. Some True) sample_inputs (sampler_new sample_settings) = Some s' \<and>
     [7] \<in> get_validated_blobs s'"
proof -
  have picks: "picks (\<lambda>(xs :: u16 list) n. take n xs)"
    by (auto simp: picks_def dest: in_set_takeD)
  have "snd (trigger_sampling (\<lambda>xs n. take n xs) 0 (Some ()) None True [7]
      (sampler_new sample_settings :: unit sampling_backend)) = [0, 1]"
    by (simp add: trigger_fresh [of _ _ _ _ "()"] sampler_new_def request_commitments_def sample_settings_def
      upt_rec)
  then show ?thesis
    using sampling_completes [of "sampler_new sample_settings :: unit sampling_backend" "[7]" "Some ()" None "()"
      "\<lambda>xs n. take n xs" "[1, 0]" id 0 "\<lambda>_ _. Some True"] picks
    by (simp add: sample_inputs_def sampler_new_def request_commitments_def sample_settings_def insert_commute)
qed

end
