(* ===== verification/Sdp_State.thy ===== *)
theory Sdp_State
  imports Prelude
begin

text \<open>
  Providers of the service declaration protocol, \<open>nomos-sdp/src/state.rs\<close> and the data of
  \<open>nomos-sdp/src/lib.rs\<close>: what is recorded of a provider, the states derived from it and the
  transitions between them. Block numbers are 64 bit words with the wrap-around of the code. The three
  state types of the code wrap the provider's record; their methods take the record.
\<close>

section \<open>Data\<close>

type_synonym block_number = u64
type_synonym provider_id = bytes
type_synonym declaration_id = bytes
type_synonym reward_id = bytes
type_synonym sdp_nonce = bytes

record 'c service_parameters =
  lock_period :: u64
  inactivity_period :: u64
  retention_period :: u64
  reward_contract :: 'c
  params_timestamp :: block_number

datatype service_type = BlendNetwork | DataAvailability | ExecutorNetwork | GenericRestaking

record provider_info =
  info_provider_id :: provider_id
  info_declaration_id :: declaration_id
  created :: block_number
  rewarded :: "block_number option"
  withdrawn :: "block_number option"

definition provider_info_new :: "block_number \<Rightarrow> provider_id \<Rightarrow> declaration_id \<Rightarrow> provider_info" where
  "provider_info_new n p d =
     \<lparr>info_provider_id = p, info_declaration_id = d, created = n, rewarded = None, withdrawn = None\<rparr>"

datatype event_type = DeclarationEvent | RewardEvent | WithdrawalEvent

datatype active_state_error =
    ToActiveNotOnCreated
  | ToActiveDuringWithdrawal
  | ActiveToWithdrawalWhileLocked
  | ActiveToWithdrawalInvalidEvent event_type

datatype inactive_state_error =
    ToActiveInvalidEvent event_type
  | InactiveToWithdrawalWhileLocked
  | InactiveToWithdrawalInvalidEvent event_type

datatype withdrawn_state_error =
    ToWithdrawnRewardedNotSameBlock
  | ToWithdrawnRewardedInvalidEvent event_type

datatype provider_state_error =
    ActiveError active_state_error
  | InactiveError inactive_state_error
  | WithdrawnError withdrawn_state_error
  | WithdrawnToActive
  | BlockFromPast

datatype provider_state =
    Active provider_info
  | Inactive provider_info
  | Withdrawn provider_info

section \<open>Transitions\<close>

definition active_into_updated ::
  "block_number \<Rightarrow> event_type \<Rightarrow> provider_info \<Rightarrow> (active_state_error + provider_info)" where
  "active_into_updated n ev i =
     (case ev of
        DeclarationEvent \<Rightarrow> if created i = n then Inr i else Inl ToActiveNotOnCreated
      | RewardEvent \<Rightarrow> Inr (i\<lparr>rewarded := Some n\<rparr>)
      | WithdrawalEvent \<Rightarrow> Inl ToActiveDuringWithdrawal)"

definition active_into_withdrawn ::
  "block_number \<Rightarrow> event_type \<Rightarrow> 'c service_parameters \<Rightarrow> provider_info \<Rightarrow>
     (active_state_error + provider_info)" where
  "active_into_withdrawn n ev params i =
     (case ev of
        WithdrawalEvent \<Rightarrow>
          if n \<le> created i + lock_period params then Inl ActiveToWithdrawalWhileLocked
          else Inr (i\<lparr>withdrawn := Some n\<rparr>)
      | _ \<Rightarrow> Inl (ActiveToWithdrawalInvalidEvent ev))"

definition inactive_into_active ::
  "block_number \<Rightarrow> event_type \<Rightarrow> provider_info \<Rightarrow> (inactive_state_error + provider_info)" where
  "inactive_into_active n ev i =
     (case ev of
        RewardEvent \<Rightarrow> Inr (i\<lparr>rewarded := Some n\<rparr>)
      | _ \<Rightarrow> Inl (ToActiveInvalidEvent ev))"

definition inactive_into_withdrawn ::
  "block_number \<Rightarrow> event_type \<Rightarrow> 'c service_parameters \<Rightarrow> provider_info \<Rightarrow>
     (inactive_state_error + provider_info)" where
  "inactive_into_withdrawn n ev params i =
     (case ev of
        WithdrawalEvent \<Rightarrow>
          if n \<le> created i + lock_period params then Inl InactiveToWithdrawalWhileLocked
          else Inr (i\<lparr>withdrawn := Some n\<rparr>)
      | _ \<Rightarrow> Inl (InactiveToWithdrawalInvalidEvent ev))"

definition withdrawn_into_rewarded ::
  "block_number \<Rightarrow> event_type \<Rightarrow> provider_info \<Rightarrow> (withdrawn_state_error + provider_info)" where
  "withdrawn_into_rewarded n ev i =
     (if ev = RewardEvent then
        if withdrawn i \<noteq> Some n then Inl ToWithdrawnRewardedNotSameBlock
        else Inr (i\<lparr>rewarded := Some n\<rparr>)
      else Inl (ToWithdrawnRewardedInvalidEvent ev))"

fun state_info :: "provider_state \<Rightarrow> provider_info" where
  "state_info (Active i) = i"
| "state_info (Inactive i) = i"
| "state_info (Withdrawn i) = i"

definition try_from_info ::
  "block_number \<Rightarrow> provider_info \<Rightarrow> 'c service_parameters \<Rightarrow>
     (provider_state_error + provider_state)" where
  "try_from_info n i params =
     (if n < created i then Inl BlockFromPast
      else if withdrawn i \<noteq> None then Inr (Withdrawn i)
      else if n < created i + inactivity_period params then Inr (Active i)
      else case rewarded i of
             Some r \<Rightarrow> if n - r \<le> inactivity_period params then Inr (Active i) else Inr (Inactive i)
           | None \<Rightarrow> Inr (Inactive i))"

definition last_block_number :: "provider_state \<Rightarrow> block_number" where
  "last_block_number s =
     (let i = state_info s in
      case withdrawn i of
        Some w \<Rightarrow> w
      | None \<Rightarrow> (case rewarded i of Some r \<Rightarrow> r | None \<Rightarrow> created i))"

definition state_declaration_id :: "provider_state \<Rightarrow> declaration_id" where
  "state_declaration_id s = info_declaration_id (state_info s)"

definition try_into_active ::
  "block_number \<Rightarrow> event_type \<Rightarrow> provider_state \<Rightarrow> (provider_state_error + provider_state)" where
  "try_into_active n ev s =
     (if n < last_block_number s then Inl BlockFromPast
      else case s of
        Active i \<Rightarrow> map_sum ActiveError Active (active_into_updated n ev i)
      | Inactive i \<Rightarrow> map_sum InactiveError Active (inactive_into_active n ev i)
      | Withdrawn i \<Rightarrow> Inl WithdrawnToActive)"

definition try_into_withdrawn ::
  "block_number \<Rightarrow> event_type \<Rightarrow> 'c service_parameters \<Rightarrow> provider_state \<Rightarrow>
     (provider_state_error + provider_state)" where
  "try_into_withdrawn n ev params s =
     (if n < last_block_number s then Inl BlockFromPast
      else case s of
        Active i \<Rightarrow> map_sum ActiveError Withdrawn (active_into_withdrawn n ev params i)
      | Inactive i \<Rightarrow> map_sum InactiveError Withdrawn (inactive_into_withdrawn n ev params i)
      | Withdrawn i \<Rightarrow> map_sum WithdrawnError Withdrawn (withdrawn_into_rewarded n ev i))"

section \<open>The life of a provider\<close>

text \<open>
  The transitions that the ledger asks for at block \<open>n\<close>: a declaration, a reward, a withdrawal and a
  withdrawal with a reward. Each starts from the state derived from the record.
\<close>

inductive provider_step ::
  "'c service_parameters \<Rightarrow> block_number \<Rightarrow> provider_info \<Rightarrow> provider_info \<Rightarrow> bool" for params where
  declares: "try_from_info n i params = Inr s \<Longrightarrow> try_into_active n DeclarationEvent s = Inr s' \<Longrightarrow>
     provider_step params n i (state_info s')"
| rewards: "try_from_info n i params = Inr s \<Longrightarrow> try_into_active n RewardEvent s = Inr s' \<Longrightarrow>
     provider_step params n i (state_info s')"
| withdraws: "try_from_info n i params = Inr s \<Longrightarrow> try_into_withdrawn n WithdrawalEvent params s = Inr s' \<Longrightarrow>
     provider_step params n i (state_info s')"
| withdraws_rewarded: "try_from_info n i params = Inr s \<Longrightarrow>
     try_into_withdrawn n WithdrawalEvent params s = Inr s' \<Longrightarrow>
     try_into_withdrawn n RewardEvent params s' = Inr s'' \<Longrightarrow> provider_step params n i (state_info s'')"

inductive provider_reaches ::
  "'c service_parameters \<Rightarrow> provider_info \<Rightarrow> provider_info \<Rightarrow> bool" for params i where
  start: "provider_reaches params i i"
| further: "provider_reaches params i j \<Longrightarrow> provider_step params n j k \<Longrightarrow> provider_reaches params i k"

lemma map_sum_Inr_iff [simp]: "map_sum f g m = Inr b \<longleftrightarrow> (\<exists>a. m = Inr a \<and> b = g a)"
  by (cases m) auto

lemma try_from_info_Ok:
  "try_from_info n i params = Inr s \<Longrightarrow>
     created i \<le> n \<and> state_info s = i \<and> (withdrawn i \<noteq> None \<longrightarrow> s = Withdrawn i) \<and>
     (withdrawn i = None \<longrightarrow> s = Active i \<or> s = Inactive i)"
  by (auto simp: try_from_info_def split: if_splits option.splits)

text \<open>What each transition makes of the record.\<close>

lemma into_active_Ok:
  "try_into_active n ev s = Inr s' \<Longrightarrow>
     last_block_number s \<le> n \<and> s' = Active (state_info s') \<and> (\<forall>i. s \<noteq> Withdrawn i) \<and>
     (ev = DeclarationEvent \<and> state_info s' = state_info s \<and> created (state_info s) = n \<or>
      ev = RewardEvent \<and> state_info s' = (state_info s)\<lparr>rewarded := Some n\<rparr>)"
  by (auto simp: try_into_active_def active_into_updated_def inactive_into_active_def
    split: if_splits provider_state.splits event_type.splits)

lemma into_withdrawn_Ok:
  "try_into_withdrawn n WithdrawalEvent params s = Inr s' \<Longrightarrow>
     last_block_number s \<le> n \<and> (\<forall>i. s \<noteq> Withdrawn i) \<and>
     created (state_info s) + lock_period params < n \<and> s' = Withdrawn ((state_info s)\<lparr>withdrawn := Some n\<rparr>)"
  by (auto simp: try_into_withdrawn_def active_into_withdrawn_def inactive_into_withdrawn_def
    withdrawn_into_rewarded_def split: if_splits provider_state.splits)

lemma into_withdrawn_rewarded_Ok:
  "try_into_withdrawn n RewardEvent params (Withdrawn i) = Inr s' \<Longrightarrow>
     withdrawn i = Some n \<and> s' = Withdrawn (i\<lparr>rewarded := Some n\<rparr>)"
  by (auto simp: try_into_withdrawn_def withdrawn_into_rewarded_def split: if_splits)

text \<open>A step starts from a record that is not withdrawn and is one of four updates.\<close>

lemma provider_step_cases:
  assumes "provider_step params n i j"
  shows "withdrawn i = None \<and> created i \<le> n \<and> (\<forall>r. rewarded i = Some r \<longrightarrow> r \<le> n) \<and>
    (j = i \<and> created i = n \<or> j = i\<lparr>rewarded := Some n\<rparr> \<or>
     created i + lock_period params < n \<and>
       (j = i\<lparr>withdrawn := Some n\<rparr> \<or> j = i\<lparr>withdrawn := Some n, rewarded := Some n\<rparr>))"
  using assms
proof cases
  case (declares s s')
  then show ?thesis
    using try_from_info_Ok [OF declares(2)] into_active_Ok [OF declares(3)]
    by (auto simp: last_block_number_def Let_def split: option.splits)
next
  case (rewards s s')
  then show ?thesis
    using try_from_info_Ok [OF rewards(2)] into_active_Ok [OF rewards(3)]
    by (auto simp: last_block_number_def Let_def split: option.splits)
next
  case (withdraws s s')
  then show ?thesis
    using try_from_info_Ok [OF withdraws(2)] into_withdrawn_Ok [OF withdraws(3)]
    by (auto simp: last_block_number_def Let_def split: option.splits)
next
  case (withdraws_rewarded s s' s'')
  note w = into_withdrawn_Ok [OF withdraws_rewarded(3)]
  then have "s'' = Withdrawn ((state_info s)\<lparr>withdrawn := Some n, rewarded := Some n\<rparr>)"
    using withdraws_rewarded(4) into_withdrawn_rewarded_Ok by auto
  then show ?thesis
    using try_from_info_Ok [OF withdraws_rewarded(2)] w withdraws_rewarded(1)
    by (auto simp: last_block_number_def Let_def split: option.splits)
qed

lemma unat_add_u64:
  fixes a b :: u64
  assumes "unat a + unat b < 2 ^ 64"
  shows "unat (a + b) = unat a + unat b"
  using assms by (simp add: unat_word_ariths)

section \<open>Properties\<close>

text \<open>
  C10. The life of a provider: whatever sequence of declarations, rewards and withdrawals leads to a
  record, its identifiers and its creation block never change, no reward is dated before
  the creation, and a withdrawal is dated after the end of the lock period and not before the
  last reward. A withdrawn provider makes no further transition. The sum of creation block and lock period
  must not overflow; the code lets it wrap.
\<close>

theorem provider_life:
  assumes "provider_reaches params (provider_info_new n0 p d) i"
    and "unat n0 + unat (lock_period params) < 2 ^ 64"
  shows "info_provider_id i = p \<and> info_declaration_id i = d \<and> created i = n0 \<and>
    (\<forall>r. rewarded i = Some r \<longrightarrow> n0 \<le> r) \<and>
    (\<forall>w. withdrawn i = Some w \<longrightarrow> unat n0 + unat (lock_period params) < unat w \<and>
       (\<forall>r. rewarded i = Some r \<longrightarrow> r \<le> w) \<and> (\<forall>n j. \<not> provider_step params n i j))"
  using assms(1)
proof induction
  case start
  then show ?case by (simp add: provider_info_new_def)
next
  case (further j n k)
  note step = provider_step_cases [OF further.hyps(2)]
  have "\<not> provider_step params m k k'" if "withdrawn k \<noteq> None" for m k'
    using provider_step_cases [of params m k k'] that by blast
  moreover have "unat n0 + unat (lock_period params) < unat n" if "created j + lock_period params < n"
    using that unat_add_u64 [OF assms(2)] further.IH by (simp add: word_less_nat_alt)
  ultimately show ?case using step further.IH by auto
qed

theorem provider_life_witness:
  "\<exists>i. provider_reaches \<lparr>lock_period = 10, inactivity_period = 20, retention_period = 100,
       reward_contract = (), params_timestamp = 0\<rparr> (provider_info_new 0 [1] [2]) i \<and>
     withdrawn i = Some 11 \<and> unat (0 :: u64) + unat (10 :: u64) < unat (11 :: u64)"
proof -
  define params :: "unit service_parameters" where "params =
    \<lparr>lock_period = 10, inactivity_period = 20, retention_period = 100, reward_contract = (), params_timestamp = 0\<rparr>"
  define i where "i = (provider_info_new 0 [1] [2])\<lparr>withdrawn := Some 11\<rparr>"
  have "try_from_info 11 (provider_info_new 0 [1] [2]) params = Inr (Active (provider_info_new 0 [1] [2]))"
    by (simp add: try_from_info_def provider_info_new_def params_def)
  moreover have "try_into_withdrawn 11 WithdrawalEvent params (Active (provider_info_new 0 [1] [2])) = Inr (Withdrawn i)"
    by (simp add: try_into_withdrawn_def active_into_withdrawn_def last_block_number_def provider_info_new_def
      params_def i_def)
  ultimately have "provider_step params 11 (provider_info_new 0 [1] [2]) (state_info (Withdrawn i))" by (rule withdraws)
  then have r: "provider_reaches params (provider_info_new 0 [1] [2]) i"
    using further [OF start] by simp
  show ?thesis using provider_life [OF r] r unfolding params_def by (auto simp: i_def)
qed

text \<open>
  Activity: a provider that has not withdrawn counts as active in every block before the end of
  the inactivity period after its creation and up to the end of the inactivity period after its
  last reward, and as inactive in every other block from its creation on.
\<close>

theorem activity_window:
  assumes "withdrawn i = None" and "created i \<le> n" and "\<forall>r. rewarded i = Some r \<longrightarrow> r \<le> n"
    and "unat (created i) + unat (inactivity_period params) < 2 ^ 64"
  shows "try_from_info n i params =
    Inr (if unat n < unat (created i) + unat (inactivity_period params) \<or>
           (\<exists>r. rewarded i = Some r \<and> unat n \<le> unat r + unat (inactivity_period params))
        then Active i else Inactive i)"
proof -
  have new: "n < created i + inactivity_period params \<longleftrightarrow>
      unat n < unat (created i) + unat (inactivity_period params)"
    using unat_add_u64 [OF assms(4)] by (simp add: word_less_nat_alt)
  have old: "n - r \<le> inactivity_period params \<longleftrightarrow> unat n \<le> unat r + unat (inactivity_period params)"
    if "rewarded i = Some r" for r
    using assms(3) that by (auto simp: word_le_nat_alt unat_sub)
  show ?thesis using assms(1,2) new old by (auto simp: try_from_info_def split: option.splits)
qed

theorem activity_window_witness:
  "try_from_info 30 ((provider_info_new 0 [1] [2])\<lparr>rewarded := Some 10\<rparr>)
     \<lparr>lock_period = 10, inactivity_period = 20, retention_period = 100, reward_contract = (), params_timestamp = 0\<rparr>
   = Inr (Active ((provider_info_new 0 [1] [2])\<lparr>rewarded := Some 10\<rparr>))"
  by (subst activity_window) (simp_all add: provider_info_new_def)

end
