(* ===== verification/Sdp_Ledger.thy ===== *)
theory Sdp_Ledger
  imports Sdp_State "HOL-Library.List_Lexorder"
begin

text \<open>
  The ledger of the service declaration protocol, \<open>nomos-sdp/src/ledger.rs\<close> with the messages of
  \<open>nomos-sdp/src/lib.rs\<close>: messages are checked against the repository and collected per block, and a
  block is then either marked or discarded.

  The repositories, the stake verifier and the sender of rewards are traits; they are arguments, the
  repository of declarations with the locale \<open>declarations_repository\<close> as its contract. Its
  instance is the repository that the source itself provides, in the tests of the module. Handlers
  return the ledger together with the result, so that an error shows what it has changed.
\<close>

section \<open>Data\<close>

type_synonym locator = bytes

record sdp_declaration =
  decl_id :: declaration_id
  decl_locators :: "locator list"
  decl_services :: "service_type \<rightharpoonup> provider_id set"

definition has_service_provider :: "sdp_declaration \<Rightarrow> service_type \<Rightarrow> provider_id \<Rightarrow> bool" where
  "has_service_provider d t p = (case decl_services d t of Some ps \<Rightarrow> p \<in> ps | None \<Rightarrow> False)"

definition insert_service_provider :: "provider_id \<Rightarrow> service_type \<Rightarrow> sdp_declaration \<Rightarrow> sdp_declaration" where
  "insert_service_provider p t d =
     d\<lparr>decl_services := (decl_services d)(t \<mapsto>
        insert p (case decl_services d t of Some ps \<Rightarrow> ps | None \<Rightarrow> {}))\<rparr>"

record declaration_update =
  upd_declaration_id :: declaration_id
  upd_provider_id :: provider_id
  upd_service_type :: service_type
  upd_locators :: "locator list"

record 'p declaration_message =
  dm_service_type :: service_type
  dm_locators :: "locator list"
  dm_proof_of_funds :: 'p
  dm_provider_id :: provider_id

definition dm_declaration_id :: "(bytes \<Rightarrow> bytes) \<Rightarrow> 'p declaration_message \<Rightarrow> declaration_id" where
  "dm_declaration_id B m = B (concat (dm_locators m))"

definition update_from_message :: "(bytes \<Rightarrow> bytes) \<Rightarrow> 'p declaration_message \<Rightarrow> declaration_update" where
  "update_from_message B m =
     \<lparr>upd_declaration_id = dm_declaration_id B m, upd_provider_id = dm_provider_id m,
      upd_service_type = dm_service_type m, upd_locators = dm_locators m\<rparr>"

record 'm withdraw_message =
  wm_declaration_id :: declaration_id
  wm_service_type :: service_type
  wm_provider_id :: provider_id
  wm_nonce :: sdp_nonce
  wm_metadata :: "'m option"

record 'm reward_message =
  rm_declaration_id :: declaration_id
  rm_service_type :: service_type
  rm_provider_id :: provider_id
  rm_nonce :: sdp_nonce
  rm_metadata :: "'m option"

definition reward_id_of :: "(bytes \<Rightarrow> bytes) \<Rightarrow> 'm reward_message \<Rightarrow> reward_id" where
  "reward_id_of B m = B (rm_declaration_id m @ rm_provider_id m @ rm_nonce m)"

definition reward_from_withdraw :: "'m withdraw_message \<Rightarrow> 'm reward_message option" where
  "reward_from_withdraw w =
     (if wm_metadata w = None then None
      else Some \<lparr>rm_declaration_id = wm_declaration_id w, rm_service_type = wm_service_type w,
             rm_provider_id = wm_provider_id w, rm_nonce = wm_nonce w, rm_metadata = wm_metadata w\<rparr>)"

datatype ('m, 'p) sdp_message =
    Declare "'p declaration_message"
  | Reward "'m reward_message"
  | Withdraw "'m withdraw_message"

fun message_provider_id :: "('m, 'p) sdp_message \<Rightarrow> provider_id" where
  "message_provider_id (Declare m) = dm_provider_id m"
| "message_provider_id (Reward m) = rm_provider_id m"
| "message_provider_id (Withdraw m) = wm_provider_id m"

fun message_declaration_id :: "(bytes \<Rightarrow> bytes) \<Rightarrow> ('m, 'p) sdp_message \<Rightarrow> declaration_id" where
  "message_declaration_id B (Declare m) = dm_declaration_id B m"
| "message_declaration_id B (Reward m) = rm_declaration_id m"
| "message_declaration_id B (Withdraw m) = wm_declaration_id m"

fun message_service_type :: "('m, 'p) sdp_message \<Rightarrow> service_type" where
  "message_service_type (Declare m) = dm_service_type m"
| "message_service_type (Reward m) = rm_service_type m"
| "message_service_type (Withdraw m) = wm_service_type m"

section \<open>Interfaces\<close>

datatype repository_error =
    ProviderNotFound provider_id
  | DeclarationNotFound declaration_id
  | DuplicateNonce
  | RepositoryOther

record 'r repository =
  get_provider_info :: "'r \<Rightarrow> provider_id \<Rightarrow> repository_error + provider_info"
  get_declaration :: "'r \<Rightarrow> declaration_id \<Rightarrow> repository_error + sdp_declaration"
  update_provider_info :: "provider_info \<Rightarrow> 'r \<Rightarrow> repository_error + 'r"
  update_declaration :: "declaration_update \<Rightarrow> 'r \<Rightarrow> repository_error + 'r"
  check_nonce :: "'r \<Rightarrow> provider_id \<Rightarrow> sdp_nonce \<Rightarrow> repository_error + unit"

datatype services_error = ServiceNotFound service_type | ServicesOther

datatype 'c rewards_error = ContractNotFound 'c | RewardsOther

datatype stakes_error = NoStake | StakeTooLow | InvalidStakeProof | StakesOther

datatype 'c sdp_error =
    ProviderStateFailed provider_state_error
  | RepositoryFailed repository_error
  | RewardsFailed "'c rewards_error"
  | ServicesFailed services_error
  | StakesFailed stakes_error
  | DuplicateServiceDeclaration
  | ServiceNotProvided service_type
  | DuplicateDeclarationInBlock
  | WrongDeclarationId

record ('r, 'c, 'm, 'p) sdp_env =
  blake_env :: "bytes \<Rightarrow> bytes"
  repo :: "'r repository"
  get_parameters :: "service_type \<Rightarrow> services_error + 'c service_parameters"
  verify_stake :: "provider_id \<Rightarrow> 'p \<Rightarrow> stakes_error + unit"
  request_reward :: "'c \<Rightarrow> 'm reward_message \<Rightarrow> 'c rewards_error + unit"

section \<open>The ledger\<close>

text \<open>\<open>sent_rewards\<close> are the requests the sender of rewards has accepted, in order.\<close>

record ('r, 'c, 'm) sdp_ledger =
  declaration_repo :: 'r
  pending_providers :: "block_number \<rightharpoonup> (provider_id \<rightharpoonup> provider_info)"
  pending_declarations :: "block_number \<rightharpoonup> (provider_id \<rightharpoonup> declaration_update)"
  pending_rewards :: "provider_id \<rightharpoonup> reward_id"
  sent_rewards :: "('c \<times> 'm reward_message) list"

type_synonym ('l, 'c, 'a) sdp_result = "'l \<times> ('c sdp_error + 'a)"

text \<open>The question mark of the code: go on with the value or return the error.\<close>

definition attempt :: "('e \<Rightarrow> 'c sdp_error) \<Rightarrow> 'e + 'a \<Rightarrow> 'l \<Rightarrow> ('a \<Rightarrow> ('l, 'c, 'b) sdp_result) \<Rightarrow>
    ('l, 'c, 'b) sdp_result" where
  "attempt f r l k = (case r of Inr a \<Rightarrow> k a | Inl e \<Rightarrow> (l, Inl (f e)))"

text \<open>\<open>entry(k).or_default().insert(p, x)\<close> on a map of maps.\<close>

definition insert_entry :: "'k \<Rightarrow> 'p \<Rightarrow> 'x \<Rightarrow> ('k \<rightharpoonup> ('p \<rightharpoonup> 'x)) \<Rightarrow> 'k \<rightharpoonup> ('p \<rightharpoonup> 'x)" where
  "insert_entry k p x m = m(k \<mapsto> (case m k of Some e \<Rightarrow> e | None \<Rightarrow> Map.empty)(p \<mapsto> x))"

definition lookup_entry :: "('k \<rightharpoonup> ('p \<rightharpoonup> 'x)) \<Rightarrow> 'k \<Rightarrow> 'p \<Rightarrow> 'x option" where
  "lookup_entry m k p = Option.bind (m k) (\<lambda>e. e p)"

definition process_declare ::
  "('r, 'c, 'm, 'p) sdp_env \<Rightarrow> block_number \<Rightarrow> provider_state \<Rightarrow> 'p declaration_message \<Rightarrow>
     ('r, 'c, 'm) sdp_ledger \<Rightarrow> (('r, 'c, 'm) sdp_ledger, 'c, provider_state) sdp_result" where
  "process_declare env n current_state m l =
     attempt ProviderStateFailed (try_into_active n DeclarationEvent current_state) l (\<lambda>pending_state.
       let p = dm_provider_id m; d = dm_declaration_id (blake_env env) m; t = dm_service_type m in
       if (case get_declaration (repo env) (declaration_repo l) d of
             Inr decl \<Rightarrow> has_service_provider decl t p | Inl _ \<Rightarrow> False)
       then (l, Inl DuplicateServiceDeclaration)
       else if lookup_entry (pending_declarations l) n p \<noteq> None then (l, Inl DuplicateDeclarationInBlock)
       else
         attempt StakesFailed (verify_stake env p (dm_proof_of_funds m)) l (\<lambda>_.
           (l\<lparr>pending_declarations :=
                insert_entry n p (update_from_message (blake_env env) m) (pending_declarations l)\<rparr>,
            Inr pending_state)))"

definition process_reward ::
  "('r, 'c, 'm, 'p) sdp_env \<Rightarrow> block_number \<Rightarrow> provider_state \<Rightarrow> 'm reward_message \<Rightarrow>
     'c service_parameters \<Rightarrow> ('r, 'c, 'm) sdp_ledger \<Rightarrow>
     (('r, 'c, 'm) sdp_ledger, 'c, provider_state) sdp_result" where
  "process_reward env n current_state m params l =
     attempt ProviderStateFailed (try_into_active n RewardEvent current_state) l (\<lambda>pending_state.
       let p = rm_provider_id m; d = rm_declaration_id m; t = rm_service_type m in
       attempt RepositoryFailed (check_nonce (repo env) (declaration_repo l) p (rm_nonce m)) l (\<lambda>_.
         if (case get_declaration (repo env) (declaration_repo l) d of
               Inr decl \<Rightarrow> \<not> has_service_provider decl t p | Inl _ \<Rightarrow> False)
         then (l, Inl (ServiceNotProvided t))
         else if pending_rewards l p = None then
           attempt RewardsFailed (request_reward env (reward_contract params) m) l (\<lambda>_.
             (l\<lparr>sent_rewards := sent_rewards l @ [(reward_contract params, m)],
                pending_rewards := (pending_rewards l)(p \<mapsto> reward_id_of (blake_env env) m)\<rparr>,
              Inr pending_state))
         else (l, Inr pending_state)))"

definition process_withdraw ::
  "('r, 'c, 'm, 'p) sdp_env \<Rightarrow> block_number \<Rightarrow> provider_state \<Rightarrow> 'm withdraw_message \<Rightarrow>
     'c service_parameters \<Rightarrow> ('r, 'c, 'm) sdp_ledger \<Rightarrow>
     (('r, 'c, 'm) sdp_ledger, 'c, provider_state) sdp_result" where
  "process_withdraw env n current_state w params l =
     attempt ProviderStateFailed (try_into_withdrawn n WithdrawalEvent params current_state) l (\<lambda>pending_state.
       let p = wm_provider_id w; d = wm_declaration_id w; t = wm_service_type w in
       attempt RepositoryFailed (check_nonce (repo env) (declaration_repo l) p (wm_nonce w)) l (\<lambda>_.
         if (case get_declaration (repo env) (declaration_repo l) d of
               Inr decl \<Rightarrow> \<not> has_service_provider decl t p | Inl _ \<Rightarrow> False)
         then (l, Inl (ServiceNotProvided t))
         else case (pending_rewards l p, reward_from_withdraw w) of
           (None, Some m) \<Rightarrow>
             attempt ProviderStateFailed (try_into_withdrawn n RewardEvent params pending_state) l (\<lambda>rewarded_state.
               attempt RewardsFailed (request_reward env (reward_contract params) m) l (\<lambda>_.
                 (l\<lparr>sent_rewards := sent_rewards l @ [(reward_contract params, m)],
                    pending_rewards := (pending_rewards l)(p \<mapsto> reward_id_of (blake_env env) m)\<rparr>,
                  Inr rewarded_state)))
         | _ \<Rightarrow> (l, Inr pending_state)))"

text \<open>The record a message starts from: pending in the same block, known to the repository or new.\<close>

definition current_info ::
  "('r, 'c, 'm, 'p) sdp_env \<Rightarrow> block_number \<Rightarrow> provider_id \<Rightarrow> declaration_id \<Rightarrow>
     ('r, 'c, 'm) sdp_ledger \<Rightarrow> repository_error + provider_info" where
  "current_info env n p d l =
     (case lookup_entry (pending_providers l) n p of
        Some i \<Rightarrow> Inr i
      | None \<Rightarrow>
          (case get_provider_info (repo env) (declaration_repo l) p of
             Inr i \<Rightarrow> Inr i
           | Inl (ProviderNotFound _) \<Rightarrow> Inr (provider_info_new n p d)
           | Inl e \<Rightarrow> Inl e))"

text \<open>The end of \<open>process_sdp_message\<close>: the new state is pending in its block.\<close>

definition record_pending ::
  "block_number \<Rightarrow> provider_id \<Rightarrow> (('r, 'c, 'm) sdp_ledger, 'c, provider_state) sdp_result \<Rightarrow>
     (('r, 'c, 'm) sdp_ledger, 'c, unit) sdp_result" where
  "record_pending n p res =
     (case res of
        (l, Inl e) \<Rightarrow> (l, Inl e)
      | (l, Inr pending_state) \<Rightarrow>
          (l\<lparr>pending_providers := insert_entry n p (state_info pending_state) (pending_providers l)\<rparr>, Inr ()))"

definition process_sdp_message ::
  "('r, 'c, 'm, 'p) sdp_env \<Rightarrow> block_number \<Rightarrow> ('m, 'p) sdp_message \<Rightarrow> ('r, 'c, 'm) sdp_ledger \<Rightarrow>
     (('r, 'c, 'm) sdp_ledger, 'c, unit) sdp_result" where
  "process_sdp_message env n msg l =
     (let p = message_provider_id msg; d = message_declaration_id (blake_env env) msg in
      attempt ServicesFailed (get_parameters env (message_service_type msg)) l (\<lambda>params.
      attempt RepositoryFailed (current_info env n p d l) l (\<lambda>i.
      attempt ProviderStateFailed (try_from_info n i params) l (\<lambda>current_state.
        if state_declaration_id current_state \<noteq> d then (l, Inl WrongDeclarationId)
        else
          record_pending n p
            (case msg of
               Declare m \<Rightarrow> process_declare env n current_state m l
             | Reward m \<Rightarrow> process_reward env n current_state m params l
             | Withdraw m \<Rightarrow> process_withdraw env n current_state m params l)))))"

definition remove_entry :: "'k \<Rightarrow> 'p \<Rightarrow> ('k \<rightharpoonup> ('p \<rightharpoonup> 'x)) \<Rightarrow> 'k \<rightharpoonup> ('p \<rightharpoonup> 'x)" where
  "remove_entry k p m = (case m k of Some e \<Rightarrow> m(k \<mapsto> e(p := None)) | None \<Rightarrow> m)"

definition mark_declaration_in_block ::
  "('r, 'c, 'm, 'p) sdp_env \<Rightarrow> block_number \<Rightarrow> provider_info \<Rightarrow> ('r, 'c, 'm) sdp_ledger \<Rightarrow>
     (('r, 'c, 'm) sdp_ledger, 'c, unit) sdp_result" where
  "mark_declaration_in_block env n i l =
     (let p = info_provider_id i;
          removed = lookup_entry (pending_declarations l) n p;
          l1 = l\<lparr>pending_declarations := remove_entry n p (pending_declarations l)\<rparr> in
      case update_provider_info (repo env) i (declaration_repo l) of
        Inl e \<Rightarrow> (l1, Inl (RepositoryFailed e))
      | Inr r \<Rightarrow>
          (case removed of
             None \<Rightarrow> (l1\<lparr>declaration_repo := r\<rparr>, Inr ())
           | Some u \<Rightarrow>
               (case update_declaration (repo env) u r of
                  Inl e \<Rightarrow> (l1\<lparr>declaration_repo := r\<rparr>, Inr ())
                | Inr r' \<Rightarrow> (l1\<lparr>declaration_repo := r'\<rparr>, Inr ()))))"

text \<open>The order in which the map of updates is traversed is not specified: \<open>iter\<close>.\<close>

definition mark_one ::
  "('r, 'c, 'm, 'p) sdp_env \<Rightarrow> block_number \<Rightarrow> provider_info \<Rightarrow> ('r, 'c, 'm) sdp_ledger \<Rightarrow>
     ('r, 'c, 'm) sdp_ledger" where
  "mark_one env n i l =
     fst (mark_declaration_in_block env n i
       (l\<lparr>pending_rewards := (pending_rewards l)(info_provider_id i := None)\<rparr>))"

definition mark_in_block_sdp ::
  "(provider_id set \<Rightarrow> provider_id list) \<Rightarrow> ('r, 'c, 'm, 'p) sdp_env \<Rightarrow> block_number \<Rightarrow>
     ('r, 'c, 'm) sdp_ledger \<Rightarrow> ('r, 'c, 'm) sdp_ledger" where
  "mark_in_block_sdp iter env n l =
     (case pending_providers l n of
        None \<Rightarrow> l
      | Some updates \<Rightarrow>
          fold (mark_one env n) (map (\<lambda>p. the (updates p)) (iter (dom updates)))
            (l\<lparr>pending_providers := (pending_providers l)(n := None)\<rparr>))"

definition discard_block :: "block_number \<Rightarrow> ('r, 'c, 'm) sdp_ledger \<Rightarrow> ('r, 'c, 'm) sdp_ledger" where
  "discard_block n l =
     (let l1 = l\<lparr>pending_declarations := (pending_declarations l)(n := None)\<rparr> in
      case pending_providers l n of
        None \<Rightarrow> l1
      | Some updates \<Rightarrow>
          l1\<lparr>pending_providers := (pending_providers l)(n := None),
             pending_rewards := (\<lambda>p. if p \<in> info_provider_id ` ran updates then None else pending_rewards l p)\<rparr>)"

section \<open>What a message changes\<close>

lemma attempt_Inr [simp]:
  "attempt f r l k = (l', Inr b) \<longleftrightarrow> (\<exists>a. r = Inr a \<and> k a = (l', Inr b))"
  by (cases r) (auto simp: attempt_def)

lemma attempt_Inl [simp]:
  "attempt f r l k = (l', Inl e) \<longleftrightarrow> (\<exists>e'. r = Inl e' \<and> l' = l \<and> e = f e') \<or> (\<exists>a. r = Inr a \<and> k a = (l', Inl e))"
  by (cases r) (auto simp: attempt_def)

lemma record_pending_iff [simp]:
  "record_pending n p res = (l', Inl e) \<longleftrightarrow> res = (l', Inl e)"
  "record_pending n p res = (l', Inr u) \<longleftrightarrow> (\<exists>l s. res = (l, Inr s) \<and>
     l' = l\<lparr>pending_providers := insert_entry n p (state_info s) (pending_providers l)\<rparr>)"
  by (auto simp: record_pending_def split: prod.splits sum.splits)

lemma handlers_reject:
  "process_declare env n s dm l = (l', Inl e) \<Longrightarrow> l' = l"
  "process_reward env n s rm params l = (l', Inl e) \<Longrightarrow> l' = l"
  "process_withdraw env n s w params l = (l', Inl e) \<Longrightarrow> l' = l"
  by (auto simp: process_declare_def process_reward_def process_withdraw_def Let_def split: if_splits option.splits)

text \<open>Rewards only grow by one, for a provider without a pending reward.\<close>

definition reward_effect ::
  "(bytes \<Rightarrow> bytes) \<Rightarrow> 'c service_parameters \<Rightarrow> provider_id \<Rightarrow> ('r, 'c, 'm) sdp_ledger \<Rightarrow> ('r, 'c, 'm) sdp_ledger \<Rightarrow> bool" where
  "reward_effect B params p l l' \<longleftrightarrow>
     l' = l \<or>
     (\<exists>m. rm_provider_id m = p \<and> pending_rewards l p = None \<and>
        l' = l\<lparr>sent_rewards := sent_rewards l @ [(reward_contract params, m)],
               pending_rewards := (pending_rewards l)(p \<mapsto> reward_id_of B m)\<rparr>)"

lemma reward_effect_refl [simp]: "reward_effect B params p l l"
  by (simp add: reward_effect_def)

lemma reward_effect_sent:
  "rm_provider_id m = p \<Longrightarrow> pending_rewards l p = None \<Longrightarrow>
     reward_effect B params p l (l\<lparr>sent_rewards := sent_rewards l @ [(reward_contract params, m)],
       pending_rewards := (pending_rewards l)(p \<mapsto> reward_id_of B m)\<rparr>)"
  unfolding reward_effect_def by blast

lemma reward_from_withdraw_provider: "reward_from_withdraw w = Some m \<Longrightarrow> rm_provider_id m = wm_provider_id w"
  by (auto simp: reward_from_withdraw_def split: if_splits)

lemma process_declare_Inr:
  "process_declare env n s m l = (l', Inr s') \<Longrightarrow>
     try_into_active n DeclarationEvent s = Inr s' \<and>
     l' = l\<lparr>pending_declarations :=
       insert_entry n (dm_provider_id m) (update_from_message (blake_env env) m) (pending_declarations l)\<rparr>"
  by (auto simp: process_declare_def Let_def split: if_splits)

lemma process_reward_Inr:
  "process_reward env n s m params l = (l', Inr s') \<Longrightarrow>
     try_into_active n RewardEvent s = Inr s' \<and> reward_effect (blake_env env) params (rm_provider_id m) l l'"
  by (auto simp: process_reward_def Let_def intro: reward_effect_sent split: if_splits)

lemma process_withdraw_Inr:
  "process_withdraw env n s w params l = (l', Inr s') \<Longrightarrow>
     (try_into_withdrawn n WithdrawalEvent params s = Inr s' \<or>
      (\<exists>s1. try_into_withdrawn n WithdrawalEvent params s = Inr s1 \<and> try_into_withdrawn n RewardEvent params s1 = Inr s')) \<and>
     reward_effect (blake_env env) params (wm_provider_id w) l l'"
  by (auto simp: process_withdraw_def Let_def intro!: reward_effect_sent dest: reward_from_withdraw_provider
    split: if_splits option.splits)

definition message_effect ::
  "('r, 'c, 'm, 'p) sdp_env \<Rightarrow> block_number \<Rightarrow> provider_id \<Rightarrow> ('r, 'c, 'm) sdp_ledger \<Rightarrow> ('r, 'c, 'm) sdp_ledger \<Rightarrow> bool" where
  "message_effect env n p l l' \<longleftrightarrow>
     (\<exists>params u. reward_effect (blake_env env) params p l l' \<or>
        l' = l\<lparr>pending_declarations := insert_entry n p u (pending_declarations l)\<rparr>)"

lemma message_effect_sel:
  assumes "message_effect env n p l l'"
  shows "declaration_repo l' = declaration_repo l" "pending_providers l' = pending_providers l"
  using assms by (auto simp: message_effect_def reward_effect_def)

text \<open>An accepted message is one step of its provider, recorded as pending in its block.\<close>

lemma accepted_message:
  assumes "process_sdp_message env n msg l = (l', Inr ())"
  obtains params i j l1 where "get_parameters env (message_service_type msg) = Inr params"
    "current_info env n (message_provider_id msg) (message_declaration_id (blake_env env) msg) l = Inr i"
    "info_declaration_id i = message_declaration_id (blake_env env) msg" "provider_step params n i j"
    "message_effect env n (message_provider_id msg) l l1"
    "l' = l1\<lparr>pending_providers := insert_entry n (message_provider_id msg) j (pending_providers l1)\<rparr>"
proof -
  let ?p = "message_provider_id msg" and ?d = "message_declaration_id (blake_env env) msg"
  obtain params i s where a: "get_parameters env (message_service_type msg) = Inr params"
    "current_info env n ?p ?d l = Inr i" "try_from_info n i params = Inr s" "state_declaration_id s = ?d"
    using assms by (auto simp: process_sdp_message_def Let_def split: if_splits)
  obtain l1 s' where b: "(case msg of Declare m \<Rightarrow> process_declare env n s m l
      | Reward m \<Rightarrow> process_reward env n s m params l | Withdraw m \<Rightarrow> process_withdraw env n s m params l) = (l1, Inr s')"
    "l' = l1\<lparr>pending_providers := insert_entry n ?p (state_info s') (pending_providers l1)\<rparr>"
    using assms a by (auto simp: process_sdp_message_def Let_def attempt_def)
  have i: "state_info s = i" using try_from_info_Ok [OF a(3)] by simp
  have eff: "provider_step params n i (state_info s') \<and> message_effect env n ?p l l1"
  proof (cases msg)
    case (Declare m)
    then show ?thesis
      using process_declare_Inr [of env n s m l l1 s'] b(1) declares [OF a(3)] by (auto simp: message_effect_def)
  next
    case (Reward m)
    then show ?thesis
      using process_reward_Inr [of env n s m params l l1 s'] b(1) rewards [OF a(3)] by (auto simp: message_effect_def)
  next
    case (Withdraw w)
    then show ?thesis
      using process_withdraw_Inr [of env n s w params l l1 s'] b(1) withdraws [OF a(3)] withdraws_rewarded [OF a(3)]
      by (auto simp: message_effect_def)
  qed
  then show thesis
    using that [OF a(1,2) _ _ _ b(2)] a(4) i by (simp add: state_declaration_id_def)
qed

lemma handler_rejects:
  "(case msg of Declare m \<Rightarrow> process_declare env n s m l
      | Reward m \<Rightarrow> process_reward env n s m params l
      | Withdraw m \<Rightarrow> process_withdraw env n s m params l) = (l', Inl e) \<Longrightarrow> l' = l"
  by (cases msg) (auto dest: handlers_reject)

lemma rejected_message: "process_sdp_message env n msg l = (l', Inl e) \<Longrightarrow> l' = l"
  unfolding process_sdp_message_def Let_def
  by (auto dest: handler_rejects split: if_split_asm)

lemma message_cases:
  obtains (rejected) e where "process_sdp_message env n msg l = (l, Inl e)"
  | (accepted) l' where "process_sdp_message env n msg l = (l', Inr ())"
proof (cases "process_sdp_message env n msg l")
  case (Pair l' r)
  show thesis
  proof (cases r)
    case (Inl e)
    then show thesis using that(1) rejected_message [of env n msg l l' e] Pair by simp
  next
    case (Inr u)
    then show thesis using that(2) Pair by simp
  qed
qed

section \<open>The repository of declarations\<close>

text \<open>The services a repository knows for a declaration.\<close>

definition provides :: "'r repository \<Rightarrow> 'r \<Rightarrow> declaration_id \<Rightarrow> service_type \<Rightarrow> provider_id \<Rightarrow> bool" where
  "provides R r d t p =
     (case get_declaration R r d of Inr decl \<Rightarrow> has_service_provider decl t p | Inl _ \<Rightarrow> False)"

text \<open>What the ledger expects of the repository: updates succeed, are found again and change
  nothing else.\<close>

locale declarations_repository =
  fixes R :: "'r repository"
  assumes info_updates: "\<exists>r'. update_provider_info R i r = Inr r'"
    and declaration_updates: "\<exists>r'. update_declaration R u r = Inr r'"
    and info_after_info: "update_provider_info R i r = Inr r' \<Longrightarrow>
      get_provider_info R r' p = (if p = info_provider_id i then Inr i else get_provider_info R r p)"
    and provides_after_info: "update_provider_info R i r = Inr r' \<Longrightarrow> provides R r' d t p = provides R r d t p"
    and info_after_declaration: "update_declaration R u r = Inr r' \<Longrightarrow>
      get_provider_info R r' p = get_provider_info R r p"
    and provides_after_declaration: "update_declaration R u r = Inr r' \<Longrightarrow>
      provides R r' d t p \<longleftrightarrow> provides R r d t p \<or>
        (upd_declaration_id u = d \<and> upd_service_type u = t \<and> upd_provider_id u = p)"
begin

text \<open>Marking one provider writes its record and its declaration.\<close>

lemma mark_one_effect:
  assumes "repo env = R"
  shows "get_provider_info R (declaration_repo (mark_one env n i l)) p =
      (if p = info_provider_id i then Inr i else get_provider_info R (declaration_repo l) p)"
    and "provides R (declaration_repo (mark_one env n i l)) d t p \<longleftrightarrow>
      provides R (declaration_repo l) d t p \<or>
      (\<exists>u. lookup_entry (pending_declarations l) n (info_provider_id i) = Some u \<and>
         upd_declaration_id u = d \<and> upd_service_type u = t \<and> upd_provider_id u = p)"
    and "pending_providers (mark_one env n i l) = pending_providers l"
    and "lookup_entry (pending_declarations (mark_one env n i l)) m q =
      (if m = n \<and> q = info_provider_id i then None else lookup_entry (pending_declarations l) m q)"
    and "pending_rewards (mark_one env n i l) = (pending_rewards l)(info_provider_id i := None)"
proof -
  obtain r where r: "update_provider_info R i (declaration_repo l) = Inr r" using info_updates by blast
  note info = info_after_info [OF r] provides_after_info [OF r]
  have entry: "lookup_entry (remove_entry n (info_provider_id i) (pending_declarations l)) m q =
      (if m = n \<and> q = info_provider_id i then None else lookup_entry (pending_declarations l) m q)" for m q
    by (auto simp: lookup_entry_def remove_entry_def split: option.splits)
  have "(get_provider_info R (declaration_repo (mark_one env n i l)) p =
      (if p = info_provider_id i then Inr i else get_provider_info R (declaration_repo l) p)) \<and>
    (provides R (declaration_repo (mark_one env n i l)) d t p \<longleftrightarrow>
      provides R (declaration_repo l) d t p \<or>
      (\<exists>u. lookup_entry (pending_declarations l) n (info_provider_id i) = Some u \<and>
         upd_declaration_id u = d \<and> upd_service_type u = t \<and> upd_provider_id u = p)) \<and>
    pending_providers (mark_one env n i l) = pending_providers l \<and>
    pending_declarations (mark_one env n i l) = remove_entry n (info_provider_id i) (pending_declarations l) \<and>
    pending_rewards (mark_one env n i l) = (pending_rewards l)(info_provider_id i := None)"
  proof (cases "lookup_entry (pending_declarations l) n (info_provider_id i)")
    case None
    then show ?thesis
      using r info assms by (simp add: mark_one_def mark_declaration_in_block_def Let_def)
  next
    case (Some u)
    obtain r' where r': "update_declaration R u r = Inr r'" using declaration_updates by blast
    show ?thesis
      using r r' Some info info_after_declaration [OF r'] provides_after_declaration [OF r'] assms
      by (simp add: mark_one_def mark_declaration_in_block_def Let_def)
  qed
  then show "get_provider_info R (declaration_repo (mark_one env n i l)) p =
      (if p = info_provider_id i then Inr i else get_provider_info R (declaration_repo l) p)"
    and "provides R (declaration_repo (mark_one env n i l)) d t p \<longleftrightarrow>
      provides R (declaration_repo l) d t p \<or>
      (\<exists>u. lookup_entry (pending_declarations l) n (info_provider_id i) = Some u \<and>
         upd_declaration_id u = d \<and> upd_service_type u = t \<and> upd_provider_id u = p)"
    and "pending_providers (mark_one env n i l) = pending_providers l"
    and "lookup_entry (pending_declarations (mark_one env n i l)) m q =
      (if m = n \<and> q = info_provider_id i then None else lookup_entry (pending_declarations l) m q)"
    and "pending_rewards (mark_one env n i l) = (pending_rewards l)(info_provider_id i := None)"
    using entry by simp_all
qed

text \<open>Marking the providers of a block, in any order.\<close>

lemma mark_all_effect:
  assumes "repo env = R" and "distinct (map info_provider_id is)"
  shows "get_provider_info R (declaration_repo (fold (mark_one env n) is l)) p =
      (case find (\<lambda>i. info_provider_id i = p) is of
         Some i \<Rightarrow> Inr i | None \<Rightarrow> get_provider_info R (declaration_repo l) p)"
    and "provides R (declaration_repo (fold (mark_one env n) is l)) d t p \<longleftrightarrow>
      provides R (declaration_repo l) d t p \<or>
      (\<exists>i \<in> set is. \<exists>u. lookup_entry (pending_declarations l) n (info_provider_id i) = Some u \<and>
         upd_declaration_id u = d \<and> upd_service_type u = t \<and> upd_provider_id u = p)"
    and "pending_providers (fold (mark_one env n) is l) = pending_providers l"
  using assms(2)
proof (induction "is" arbitrary: l)
  case (Cons i "is")
  note one = mark_one_effect [OF assms(1), of n i]
  {
    case 1
    then have "find (\<lambda>j. info_provider_id j = info_provider_id i) is = None"
      by (simp add: find_None_iff) (metis imageI)
    then show ?case using Cons.IH(1) [of "mark_one env n i l"] 1 one(1) [of l p]
      by (auto split: option.splits)
  next
    case 2
    have "lookup_entry (pending_declarations (mark_one env n i l)) n (info_provider_id j) =
        lookup_entry (pending_declarations l) n (info_provider_id j)" if "j \<in> set is" for j
      using one(4) [of l] 2 imageI [OF that, of info_provider_id] by auto
    then show ?case using Cons.IH(2) [of "mark_one env n i l"] 2 one(2) [of l] by auto
  next
    case 3
    then show ?case using Cons.IH(3) [of "mark_one env n i l"] one(3) [of l] by simp
  }
qed simp_all

end

text \<open>The repository in the tests of the module: two maps.\<close>

record mock_repository_state =
  mock_providers :: "provider_id \<rightharpoonup> provider_info"
  mock_declarations :: "declaration_id \<rightharpoonup> sdp_declaration"

definition mock_get_provider_info ::
  "mock_repository_state \<Rightarrow> provider_id \<Rightarrow> repository_error + provider_info" where
  "mock_get_provider_info r p = (case mock_providers r p of Some i \<Rightarrow> Inr i | None \<Rightarrow> Inl (ProviderNotFound p))"

definition mock_get_declaration ::
  "mock_repository_state \<Rightarrow> declaration_id \<Rightarrow> repository_error + sdp_declaration" where
  "mock_get_declaration r d =
     (case mock_declarations r d of Some decl \<Rightarrow> Inr decl | None \<Rightarrow> Inl (DeclarationNotFound d))"

definition mock_update_provider_info ::
  "provider_info \<Rightarrow> mock_repository_state \<Rightarrow> repository_error + mock_repository_state" where
  "mock_update_provider_info i r = Inr (r\<lparr>mock_providers := (mock_providers r)(info_provider_id i \<mapsto> i)\<rparr>)"

definition mock_update_declaration ::
  "declaration_update \<Rightarrow> mock_repository_state \<Rightarrow> repository_error + mock_repository_state" where
  "mock_update_declaration u r =
     Inr (r\<lparr>mock_declarations := (mock_declarations r)(upd_declaration_id u \<mapsto>
       (case mock_declarations r (upd_declaration_id u) of
          Some decl \<Rightarrow> insert_service_provider (upd_provider_id u) (upd_service_type u) decl
        | None \<Rightarrow> \<lparr>decl_id = upd_declaration_id u, decl_locators = upd_locators u,
                   decl_services = [upd_service_type u \<mapsto> {upd_provider_id u}]\<rparr>))\<rparr>)"

definition mock_repository :: "mock_repository_state repository" where
  "mock_repository =
     \<lparr>get_provider_info = mock_get_provider_info, get_declaration = mock_get_declaration,
      update_provider_info = mock_update_provider_info, update_declaration = mock_update_declaration,
      check_nonce = (\<lambda>_ _ _. Inr ())\<rparr>"

lemma mock_repository_sel [simp]:
  "get_provider_info mock_repository = mock_get_provider_info"
  "get_declaration mock_repository = mock_get_declaration"
  "update_provider_info mock_repository = mock_update_provider_info"
  "update_declaration mock_repository = mock_update_declaration"
  "check_nonce mock_repository r p nonce = Inr ()"
  by (simp_all add: mock_repository_def)

lemma provides_insert:
  "has_service_provider (insert_service_provider p t d) t' p' \<longleftrightarrow>
     has_service_provider d t' p' \<or> (t' = t \<and> p' = p)"
  by (auto simp: has_service_provider_def insert_service_provider_def split: option.splits)

lemma provides_new:
  "has_service_provider \<lparr>decl_id = d, decl_locators = ls, decl_services = [t \<mapsto> {p}]\<rparr> t' p' \<longleftrightarrow> t' = t \<and> p' = p"
  by (simp add: has_service_provider_def)

lemma mock_provides:
  assumes "mock_update_declaration u r = Inr r'"
  shows "provides mock_repository r' d t p \<longleftrightarrow> provides mock_repository r d t p \<or>
    (upd_declaration_id u = d \<and> upd_service_type u = t \<and> upd_provider_id u = p)"
proof (cases "d = upd_declaration_id u")
  case True
  then show ?thesis
    using assms by (cases "mock_declarations r d")
      (auto simp: provides_def mock_update_declaration_def mock_get_declaration_def provides_insert provides_new)
next
  case False
  then show ?thesis
    using assms by (auto simp: provides_def mock_update_declaration_def mock_get_declaration_def)
qed

interpretation mock: declarations_repository mock_repository
proof (unfold_locales, goal_cases)
  case (1 i r)
  then show ?case by (simp add: mock_update_provider_info_def)
next
  case (2 u r)
  then show ?case by (simp add: mock_update_declaration_def)
next
  case (3 i r r' p)
  then show ?case by (auto simp: mock_update_provider_info_def mock_get_provider_info_def)
next
  case (4 i r r' d t p)
  then show ?case by (auto simp: provides_def mock_update_provider_info_def mock_get_declaration_def)
next
  case (5 u r r' p)
  then show ?case by (auto simp: mock_update_declaration_def mock_get_provider_info_def)
next
  case (6 u r r' d t p)
  then show ?case by (simp add: mock_provides)
qed

section \<open>Runs of messages\<close>

fun sdp_run ::
  "('r, 'c, 'm, 'p) sdp_env \<Rightarrow> (block_number \<times> ('m, 'p) sdp_message) list \<Rightarrow>
     ('r, 'c, 'm) sdp_ledger \<Rightarrow> ('r, 'c, 'm) sdp_ledger" where
  "sdp_run env [] l = l"
| "sdp_run env ((n, msg) # ms) l = sdp_run env ms (fst (process_sdp_message env n msg l))"

text \<open>Steps of a provider in one block, under the parameters of any service.\<close>

definition block_steps ::
  "('r, 'c, 'm, 'p) sdp_env \<Rightarrow> block_number \<Rightarrow> provider_info \<Rightarrow> provider_info \<Rightarrow> bool" where
  "block_steps env n =
     (\<lambda>i j. \<exists>t params. get_parameters env t = Inr params \<and> provider_step params n i j)\<^sup>*\<^sup>*"

text \<open>The record of a provider at the start of a block.\<close>

definition start_info ::
  "('r, 'c, 'm, 'p) sdp_env \<Rightarrow> block_number \<Rightarrow> provider_id \<Rightarrow> 'r \<Rightarrow> provider_info \<Rightarrow> bool" where
  "start_info env n p r i \<longleftrightarrow>
     get_provider_info (repo env) r p = Inr i \<or>
     (\<exists>q d. get_provider_info (repo env) r p = Inl (ProviderNotFound q) \<and> i = provider_info_new n p d)"

text \<open>What is pending in block \<open>n\<close> was reached from the repository by steps of that block.\<close>

definition pending_inv ::
  "('r, 'c, 'm, 'p) sdp_env \<Rightarrow> block_number \<Rightarrow> 'r \<Rightarrow> ('r, 'c, 'm) sdp_ledger \<Rightarrow> bool" where
  "pending_inv env n r l \<longleftrightarrow>
     declaration_repo l = r \<and>
     (\<forall>e. pending_providers l n = Some e \<longrightarrow> finite (dom e)) \<and>
     (\<forall>p j. lookup_entry (pending_providers l) n p = Some j \<longrightarrow>
        info_provider_id j = p \<and> (\<exists>i. start_info env n p r i \<and> block_steps env n i j))"

lemma step_keeps_ids:
  "provider_step params n i j \<Longrightarrow>
     info_provider_id j = info_provider_id i \<and> info_declaration_id j = info_declaration_id i \<and> created j = created i"
  using provider_step_cases [of params n i j] by auto

lemma lookup_insert_entry [simp]:
  "lookup_entry (insert_entry k p x m) k' p' = (if k' = k \<and> p' = p then Some x else lookup_entry m k' p')"
  by (auto simp: lookup_entry_def insert_entry_def split: option.splits)

lemma finite_insert_entry:
  "(\<forall>e. m k = Some e \<longrightarrow> finite (dom e)) \<Longrightarrow> insert_entry k p x m k = Some e \<Longrightarrow> finite (dom e)"
  by (auto simp: insert_entry_def split: option.splits)

lemma block_steps_trans: "block_steps env n i j \<Longrightarrow> block_steps env n j k \<Longrightarrow> block_steps env n i k"
  unfolding block_steps_def by (rule rtranclp_trans)

lemma message_keeps_pending:
  assumes inv: "pending_inv env n r l"
    and keyed: "\<And>p i. get_provider_info (repo env) r p = Inr i \<Longrightarrow> info_provider_id i = p"
  shows "pending_inv env n r (fst (process_sdp_message env n msg l))"
proof (cases rule: message_cases [of env n msg l])
  case (rejected e)
  then show ?thesis using inv by simp
next
  case (accepted l')
  let ?p = "message_provider_id msg"
  obtain params i j l1 where a: "get_parameters env (message_service_type msg) = Inr params"
    "current_info env n ?p (message_declaration_id (blake_env env) msg) l = Inr i"
    "provider_step params n i j" "message_effect env n ?p l l1"
    "l' = l1\<lparr>pending_providers := insert_entry n ?p j (pending_providers l1)\<rparr>"
    using accepted_message [OF accepted] .
  have one: "block_steps env n i j" unfolding block_steps_def using a(1,3) by blast
  have start: "info_provider_id i = ?p \<and> (\<exists>k. start_info env n ?p r k \<and> block_steps env n k i)"
  proof (cases "lookup_entry (pending_providers l) n ?p")
    case None
    then have "start_info env n ?p r i" "info_provider_id i = ?p"
      using a(2) inv keyed by (auto simp: current_info_def start_info_def pending_inv_def provider_info_new_def
        split: sum.splits repository_error.splits)
    then show ?thesis unfolding block_steps_def by blast
  next
    case (Some k)
    then have "k = i" using a(2) by (simp add: current_info_def)
    then show ?thesis using Some inv by (auto simp: pending_inv_def)
  qed
  then obtain k where k: "start_info env n ?p r k" "block_steps env n k i" "info_provider_id i = ?p" by blast
  have "info_provider_id j = ?p" using step_keeps_ids [OF a(3)] k(3) by simp
  note jp = this block_steps_trans [OF k(2) one]
  have l': "declaration_repo l' = r" "pending_providers l' = insert_entry n ?p j (pending_providers l)"
    using inv a(5) message_effect_sel [OF a(4)] by (simp_all add: pending_inv_def)
  have fin: "\<forall>e. pending_providers l n = Some e \<longrightarrow> finite (dom e)" using inv by (simp add: pending_inv_def)
  have entry: "info_provider_id j' = q \<and> (\<exists>i. start_info env n q r i \<and> block_steps env n i j')"
    if "lookup_entry (pending_providers l') n q = Some j'" for q j'
  proof (cases "q = ?p")
    case True
    then have "j' = j" using that l'(2) by simp
    then show ?thesis using jp k(1) True by blast
  next
    case False
    then show ?thesis using that l'(2) inv by (simp add: pending_inv_def)
  qed
  have "pending_inv env n r l'"
    unfolding pending_inv_def l' using finite_insert_entry [of "pending_providers l" n, OF fin] entry [unfolded l'(2)] by blast
  then show ?thesis using accepted by simp
qed

lemma run_keeps_pending:
  assumes keyed: "\<And>p i. get_provider_info (repo env) r p = Inr i \<Longrightarrow> info_provider_id i = p"
  shows "pending_inv env n r l \<Longrightarrow> pending_inv env n r (sdp_run env (map (Pair n) msgs) l)"
proof (induction msgs arbitrary: l)
  case (Cons msg msgs)
  then show ?case using message_keeps_pending [OF Cons.prems keyed] by simp
qed simp

lemma message_rewards:
  assumes l'_def: "l' = fst (process_sdp_message env n msg l)"
  shows "sent_rewards l' = sent_rewards l \<and> pending_rewards l' = pending_rewards l \<or>
    (\<exists>x. sent_rewards l' = sent_rewards l @ [x] \<and> pending_rewards l (rm_provider_id (snd x)) = None \<and>
       dom (pending_rewards l') = insert (rm_provider_id (snd x)) (dom (pending_rewards l)))"
proof (cases rule: message_cases [of env n msg l])
  case (rejected e)
  then show ?thesis by (simp add: l'_def)
next
  case (accepted l2)
  obtain l1 j where l1: "message_effect env n (message_provider_id msg) l l1"
    "l2 = l1\<lparr>pending_providers := insert_entry n (message_provider_id msg) j (pending_providers l1)\<rparr>"
    using accepted_message [OF accepted] .
  then show ?thesis
    using accepted by (auto simp: l'_def message_effect_def reward_effect_def)
qed

lemma withdrawn_block_steps:
  fixes env :: "('r, 'c, 'm, 'p) sdp_env"
  shows "block_steps env n i j \<Longrightarrow> withdrawn i \<noteq> None \<Longrightarrow> j = i"
  unfolding block_steps_def
proof (induction rule: rtranclp_induct)
  case (step j k)
  then obtain params :: "'c service_parameters" where "provider_step params n j k" by blast
  then have "withdrawn j = None" using provider_step_cases by blast
  then show ?case using step by simp
qed simp

lemma find_key: "distinct (map f xs) \<Longrightarrow> x \<in> set xs \<Longrightarrow> f x = k \<Longrightarrow> find (\<lambda>x. f x = k) xs = Some x"
  by (induction xs) auto

text \<open>The records after a block is marked.\<close>

lemma marked_infos:
  assumes repo: "declarations_repository (repo env)" and it: "iterates iter" and inv: "pending_inv env n r l"
  shows "get_provider_info (repo env) (declaration_repo (mark_in_block_sdp iter env n l)) p =
    (case lookup_entry (pending_providers l) n p of Some j \<Rightarrow> Inr j | None \<Rightarrow> get_provider_info (repo env) r p)"
proof (cases "pending_providers l n")
  case None
  then show ?thesis using inv by (simp add: mark_in_block_sdp_def lookup_entry_def pending_inv_def)
next
  case (Some e)
  let ?ps = "iter (dom e)" and ?infos = "map (\<lambda>p. the (e p)) (iter (dom e))"
  have key: "info_provider_id j = q" if "e q = Some j" for q j
    using inv Some that by (simp add: pending_inv_def lookup_entry_def)
  have fin: "finite (dom e)" using inv Some by (simp add: pending_inv_def)
  have set: "set ?ps = dom e" "distinct ?ps" using iterates_set [OF it fin] iterates_distinct [OF it fin] .
  have "map info_provider_id ?infos = ?ps"
    using set(1) key by (auto intro!: map_idI)
  then have dist: "distinct (map info_provider_id ?infos)" using set(2) by metis
  have find: "find (\<lambda>i. info_provider_id i = p) ?infos = e p"
  proof (cases "e p")
    case None
    then show ?thesis using set(1) key by (auto simp: find_None_iff)
  next
    case (Some j)
    then have "j \<in> set ?infos" using set(1) by force
    then show ?thesis using find_key [OF dist _ key [OF Some]] Some by simp
  qed
  have "declaration_repo l = r" using inv by (simp add: pending_inv_def)
  moreover have "get_provider_info (repo env) (declaration_repo (fold (mark_one env n) ?infos
      (l\<lparr>pending_providers := (pending_providers l)(n := None)\<rparr>))) p =
    (case e p of Some j \<Rightarrow> Inr j | None \<Rightarrow> get_provider_info (repo env) (declaration_repo l) p)"
    unfolding declarations_repository.mark_all_effect(1) [OF repo refl dist] find by (cases "e p") simp_all
  ultimately show ?thesis using Some by (cases "e p") (simp_all add: mark_in_block_sdp_def lookup_entry_def)
qed

section \<open>A sample ledger\<close>

definition sample_params :: "unit service_parameters" where
  "sample_params = \<lparr>lock_period = 10, inactivity_period = 20, retention_period = 30, reward_contract = (), params_timestamp = 0\<rparr>"

definition sample_sdp :: "(mock_repository_state, unit, nat, unit) sdp_env" where
  "sample_sdp = \<lparr>blake_env = id, repo = mock_repository, get_parameters = (\<lambda>_. Inr sample_params),
     verify_stake = (\<lambda>_ _. Inr ()), request_reward = (\<lambda>_ _. Inr ())\<rparr>"

definition sample_sdp_ledger :: "(mock_repository_state, unit, nat) sdp_ledger" where
  "sample_sdp_ledger = \<lparr>declaration_repo = \<lparr>mock_providers = Map.empty, mock_declarations = Map.empty\<rparr>,
     pending_providers = Map.empty, pending_declarations = Map.empty, pending_rewards = Map.empty, sent_rewards = []\<rparr>"

definition sample_reward :: "nat reward_message" where
  "sample_reward = \<lparr>rm_declaration_id = [2], rm_service_type = BlendNetwork, rm_provider_id = [1], rm_nonce = [],
     rm_metadata = None\<rparr>"

definition sample_withdraw :: "nat withdraw_message" where
  "sample_withdraw = \<lparr>wm_declaration_id = [2], wm_service_type = BlendNetwork, wm_provider_id = [1], wm_nonce = [],
     wm_metadata = None\<rparr>"

section \<open>Properties\<close>

text \<open>
  C25. A rejected message leaves no trace: on every error path the pending maps, the repository and
  the rewards sent are what they were.
\<close>

theorem sdp_rejection_clean:
  assumes "snd (process_sdp_message env n msg l) \<noteq> Inr ()"
  shows "fst (process_sdp_message env n msg l) = l"
  by (cases rule: message_cases [of env n msg l]) (use assms in simp_all)

theorem sdp_rejection_clean_witness:
  "fst (process_sdp_message sample_sdp 0 (Withdraw sample_withdraw) sample_sdp_ledger) = sample_sdp_ledger"
proof -
  have "snd (process_sdp_message sample_sdp 0 (Withdraw sample_withdraw) sample_sdp_ledger) \<noteq> Inr ()"
    by (simp add: process_sdp_message_def sample_sdp_def sample_sdp_ledger_def sample_withdraw_def attempt_def
      current_info_def lookup_entry_def mock_get_provider_info_def try_from_info_def provider_info_new_def
      state_declaration_id_def process_withdraw_def try_into_withdrawn_def active_into_withdrawn_def
      last_block_number_def sample_params_def record_pending_def)
  then show ?thesis by (rule sdp_rejection_clean)
qed

text \<open>
  C11. One reward per provider: however many reward and withdrawal messages arrive, for whatever
  blocks, before a block is marked or discarded, the rewards requested go to distinct providers that had none
  pending, and exactly these become pending.
\<close>

theorem sdp_reward_once:
  "\<exists>new. sent_rewards (sdp_run env ms l) = sent_rewards l @ new \<and>
     distinct (map (\<lambda>x. rm_provider_id (snd x)) new) \<and>
     (\<lambda>x. rm_provider_id (snd x)) ` set new \<inter> dom (pending_rewards l) = {} \<and>
     dom (pending_rewards (sdp_run env ms l)) =
       dom (pending_rewards l) \<union> (\<lambda>x. rm_provider_id (snd x)) ` set new"
proof (induction ms arbitrary: l)
  case (Cons nm ms)
  obtain n msg where nm: "nm = (n, msg)" by fastforce
  let ?l = "fst (process_sdp_message env n msg l)"
  obtain new where ih: "sent_rewards (sdp_run env ms ?l) = sent_rewards ?l @ new"
    "distinct (map (\<lambda>x. rm_provider_id (snd x)) new)"
    "(\<lambda>x. rm_provider_id (snd x)) ` set new \<inter> dom (pending_rewards ?l) = {}"
    "dom (pending_rewards (sdp_run env ms ?l)) = dom (pending_rewards ?l) \<union> (\<lambda>x. rm_provider_id (snd x)) ` set new"
    using Cons.IH [of ?l] by blast
  have "sent_rewards ?l = sent_rewards l \<and> pending_rewards ?l = pending_rewards l \<or>
    (\<exists>x. sent_rewards ?l = sent_rewards l @ [x] \<and> pending_rewards l (rm_provider_id (snd x)) = None \<and>
       dom (pending_rewards ?l) = insert (rm_provider_id (snd x)) (dom (pending_rewards l)))"
    using message_rewards [OF refl, of env n msg l] .
  then show ?case
  proof (elim disjE exE)
    fix x assume x: "sent_rewards ?l = sent_rewards l @ [x] \<and> pending_rewards l (rm_provider_id (snd x)) = None \<and>
       dom (pending_rewards ?l) = insert (rm_provider_id (snd x)) (dom (pending_rewards l))"
    show ?thesis by (rule exI [of _ "x # new"]) (use x ih nm in auto)
  next
    assume "sent_rewards ?l = sent_rewards l \<and> pending_rewards ?l = pending_rewards l"
    then show ?thesis using ih nm by (intro exI [of _ new]) simp
  qed
qed simp

text \<open>
  C9. A block of messages refines the steps of its providers: when the messages of a block have been
  processed and the block is marked, with a repository that keeps its contract, the record of every
  provider is what it was or what a sequence of declaration, reward and withdrawal steps at that block
  makes of it (of a new record for an unknown provider). The order in which the pending updates are
  written does not matter. In particular a withdrawn provider stays as it is.
\<close>

theorem sdp_block_refines_steps:
  assumes "declarations_repository (repo env)" and "iterates iter"
    and "\<forall>p i. get_provider_info (repo env) (declaration_repo l) p = Inr i \<longrightarrow> info_provider_id i = p"
    and "pending_providers l n = None"
    and "l' = mark_in_block_sdp iter env n (sdp_run env (map (Pair n) msgs) l)"
  shows "(get_provider_info (repo env) (declaration_repo l') p = get_provider_info (repo env) (declaration_repo l) p \<or>
      (\<exists>i j. start_info env n p (declaration_repo l) i \<and> block_steps env n i j \<and>
         get_provider_info (repo env) (declaration_repo l') p = Inr j)) \<and>
    (\<forall>i. get_provider_info (repo env) (declaration_repo l) p = Inr i \<and> withdrawn i \<noteq> None \<longrightarrow>
       get_provider_info (repo env) (declaration_repo l') p = Inr i)"
proof -
  let ?r = "declaration_repo l" and ?R = "repo env"
  define l1 where "l1 = sdp_run env (map (Pair n) msgs) l"
  have "pending_inv env n ?r l"
    using assms(4) by (simp add: pending_inv_def lookup_entry_def)
  then have inv: "pending_inv env n ?r l1" unfolding l1_def by (rule run_keeps_pending [rotated]) (use assms(3) in blast)
  have look: "get_provider_info ?R (declaration_repo l') p =
      (case lookup_entry (pending_providers l1) n p of Some j \<Rightarrow> Inr j | None \<Rightarrow> get_provider_info ?R ?r p)"
    using marked_infos [OF assms(1,2) inv] assms(5) by (simp add: l1_def)
  show ?thesis
  proof (cases "lookup_entry (pending_providers l1) n p")
    case None
    then show ?thesis using look by simp
  next
    case (Some j)
    then obtain i where i: "start_info env n p ?r i" "block_steps env n i j" using inv unfolding pending_inv_def by blast
    have "j = k" if "get_provider_info ?R ?r p = Inr k" "withdrawn k \<noteq> None" for k
      using i that withdrawn_block_steps [of env n k j] by (auto simp: start_info_def)
    then show ?thesis using look Some i by auto
  qed
qed

theorem sdp_block_refines_steps_witness:
  "get_provider_info mock_repository (declaration_repo (mark_in_block_sdp sorted_list_of_set sample_sdp 5
     (sdp_run sample_sdp (map (Pair 5) [Reward sample_reward])
       (sample_sdp_ledger\<lparr>declaration_repo := \<lparr>mock_providers = [[1] \<mapsto> (provider_info_new 0 [1] [2])\<lparr>withdrawn := Some 4\<rparr>],
          mock_declarations = Map.empty\<rparr>\<rparr>)))) [1]
   = Inr ((provider_info_new 0 [1] [2])\<lparr>withdrawn := Some 4\<rparr>)"
proof -
  let ?l = "sample_sdp_ledger\<lparr>declaration_repo := \<lparr>mock_providers = [[1] \<mapsto> (provider_info_new 0 [1] [2])\<lparr>withdrawn := Some 4\<rparr>],
    mock_declarations = Map.empty\<rparr>\<rparr>"
  have R: "repo sample_sdp = mock_repository" by (simp add: sample_sdp_def)
  have "declarations_repository (repo sample_sdp)" unfolding R by unfold_locales
  moreover have "\<forall>p i. get_provider_info (repo sample_sdp) (declaration_repo ?l) p = Inr i \<longrightarrow> info_provider_id i = p"
    by (simp add: R mock_get_provider_info_def provider_info_new_def)
  moreover have "pending_providers ?l 5 = None" by (simp add: sample_sdp_ledger_def)
  moreover have "get_provider_info (repo sample_sdp) (declaration_repo ?l) [1] =
      Inr ((provider_info_new 0 [1] [2])\<lparr>withdrawn := Some 4\<rparr>)"
    by (simp add: R mock_get_provider_info_def)
  ultimately show ?thesis
    using sdp_block_refines_steps [of sample_sdp sorted_list_of_set ?l 5 _ "[Reward sample_reward]" "[1]"] R
    by simp
qed

text \<open>
  A provider that never declared anything is rewarded: a reward message of a provider the repository
  does not know, for a declaration it does not know either, is accepted, the reward is requested and
  the provider becomes pending. The check that the provider provides the service only runs for known
  declarations.
\<close>

theorem undeclared_provider_rewarded:
  assumes "get_parameters env (rm_service_type m) = Inr params"
    and "get_provider_info (repo env) (declaration_repo l) (rm_provider_id m) = Inl (ProviderNotFound (rm_provider_id m))"
    and "get_declaration (repo env) (declaration_repo l) (rm_declaration_id m) = Inl (DeclarationNotFound (rm_declaration_id m))"
    and "check_nonce (repo env) (declaration_repo l) (rm_provider_id m) (rm_nonce m) = Inr ()"
    and "request_reward env (reward_contract params) m = Inr ()"
    and "pending_providers l n = None" and "pending_rewards l (rm_provider_id m) = None"
  shows "snd (process_sdp_message env n (Reward m) l) = Inr () \<and>
    sent_rewards (fst (process_sdp_message env n (Reward m) l)) = sent_rewards l @ [(reward_contract params, m)] \<and>
    lookup_entry (pending_providers (fst (process_sdp_message env n (Reward m) l))) n (rm_provider_id m) =
      Some ((provider_info_new n (rm_provider_id m) (rm_declaration_id m))\<lparr>rewarded := Some n\<rparr>)"
proof -
  let ?i = "provider_info_new n (rm_provider_id m) (rm_declaration_id m)"
  have cur: "current_info env n (rm_provider_id m) (rm_declaration_id m) l = Inr ?i"
    using assms(2,6) by (simp add: current_info_def lookup_entry_def)
  have "\<exists>s. try_from_info n ?i params = Inr s" by (simp add: try_from_info_def provider_info_new_def)
  then obtain s where s: "try_from_info n ?i params = Inr s" by blast
  have "s = Active ?i \<or> s = Inactive ?i" using try_from_info_Ok [OF s] by (simp add: provider_info_new_def)
  then have "try_into_active n RewardEvent s = Inr (Active (?i\<lparr>rewarded := Some n\<rparr>))" "state_info s = ?i"
    by (auto simp: try_into_active_def active_into_updated_def inactive_into_active_def last_block_number_def
      provider_info_new_def)
  then show ?thesis
    using assms cur s
    by (simp add: process_sdp_message_def process_reward_def attempt_def record_pending_def state_declaration_id_def
      Let_def provider_info_new_def)
qed

theorem undeclared_provider_rewarded_witness:
  "sent_rewards (fst (process_sdp_message sample_sdp 5 (Reward sample_reward) sample_sdp_ledger)) = [((), sample_reward)]"
  using undeclared_provider_rewarded [of sample_sdp sample_reward sample_params sample_sdp_ledger 5]
  by (simp add: sample_sdp_def sample_sdp_ledger_def mock_get_provider_info_def mock_get_declaration_def sample_params_def)

end
