(* ===== verification/Subnetworks.thy ===== *)
theory Subnetworks
  imports Prelude "HOL-Library.Multiset"
begin

text \<open>
  The assignment of peers to the subnetworks of the data availability network,
  \<open>nomos-da/network/subnetworks-assignations/src/lib.rs\<close> and \<open>versions/v1.rs\<close>, \<open>versions/v2.rs\<close>. A set is
  filled by taking the sorted peers round and round. Peers are of any linearly ordered type; network
  identifiers are 16 bit words, and the cast of a position to one is the code's. The trait
  \<open>MembershipHandler\<close> is the locale \<open>membership_handler\<close>, which both versions interpret.
\<close>

section \<open>The endless iterator over the peers\<close>

text \<open>\<open>Cycle\<close>: the original list and what is left of the current round.\<close>

definition cycle_next :: "'p list \<Rightarrow> 'p list \<Rightarrow> ('p \<times> 'p list) option" where
  "cycle_next orig rest =
     (case rest of
        x # xs \<Rightarrow> Some (x, xs)
      | [] \<Rightarrow> (case orig of x # xs \<Rightarrow> Some (x, xs) | [] \<Rightarrow> None))"

fun take_cycle :: "'p list \<Rightarrow> nat \<Rightarrow> 'p list \<Rightarrow> ('p list \<times> 'p list) option" where
  "take_cycle orig 0 rest = Some ([], rest)"
| "take_cycle orig (Suc n) rest =
     Option.bind (cycle_next orig rest) (\<lambda>(x, rest1).
     Option.bind (take_cycle orig n rest1) (\<lambda>(xs, rest2). Some (x # xs, rest2)))"

fun fill_subnetworks :: "'p list \<Rightarrow> nat list \<Rightarrow> 'p list \<Rightarrow> 'p set list option" where
  "fill_subnetworks orig [] rest = Some []"
| "fill_subnetworks orig (n # ns) rest =
     Option.bind (take_cycle orig n rest) (\<lambda>(xs, rest1).
     Option.bind (fill_subnetworks orig ns rest1) (\<lambda>subnetworks. Some (set xs # subnetworks)))"

section \<open>What both versions do with the assignments\<close>

definition assigned_networks :: "'p set list \<Rightarrow> 'p \<Rightarrow> u16 set" where
  "assigned_networks as p = set (map (\<lambda>(i, s). of_nat i) (filter (\<lambda>(i, s). p \<in> s) (enumerate 0 as)))"

definition assigned_somewhere :: "'p set list \<Rightarrow> 'p \<Rightarrow> bool" where
  "assigned_somewhere as p = list_ex (\<lambda>s. p \<in> s) as"

definition assigned_to :: "'p set list \<Rightarrow> u16 \<Rightarrow> 'p set option" where
  "assigned_to as n = (if unat n < length as then Some (as ! unat n) else None)"

section \<open>Version 1\<close>

record ('p, 'a) fill_from_node_list =
  v1_assignations :: "'p set list"
  v1_subnetwork_size :: nat
  v1_dispersal_factor :: nat
  v1_addressbook :: "'p \<rightharpoonup> 'a"

definition v1_fill :: "'p::linorder list \<Rightarrow> nat \<Rightarrow> nat \<Rightarrow> 'p set list option" where
  "v1_fill peers subnetwork_size replication_factor =
     (if peers = [] then None
      else fill_subnetworks (sort peers) (replicate subnetwork_size replication_factor) (sort peers))"

definition v1_new ::
  "'p::linorder list \<Rightarrow> ('p \<rightharpoonup> 'a) \<Rightarrow> nat \<Rightarrow> nat \<Rightarrow> ('p, 'a) fill_from_node_list option" where
  "v1_new peers addressbook subnetwork_size dispersal_factor =
     map_option (\<lambda>assignations.
       \<lparr>v1_assignations = assignations, v1_subnetwork_size = subnetwork_size,
        v1_dispersal_factor = dispersal_factor, v1_addressbook = addressbook\<rparr>)
     (v1_fill peers subnetwork_size dispersal_factor)"

definition clone_with_different_addressbook ::
  "('p, 'a) fill_from_node_list \<Rightarrow> ('p \<rightharpoonup> 'a) \<Rightarrow> ('p, 'a) fill_from_node_list" where
  "clone_with_different_addressbook h addressbook = h\<lparr>v1_addressbook := addressbook\<rparr>"

definition v1_membership :: "('p, 'a) fill_from_node_list \<Rightarrow> 'p \<Rightarrow> u16 set" where
  "v1_membership h = assigned_networks (v1_assignations h)"

definition v1_is_allowed :: "('p, 'a) fill_from_node_list \<Rightarrow> 'p \<Rightarrow> bool" where
  "v1_is_allowed h = assigned_somewhere (v1_assignations h)"

definition v1_members_of :: "('p, 'a) fill_from_node_list \<Rightarrow> u16 \<Rightarrow> 'p set option" where
  "v1_members_of h = assigned_to (v1_assignations h)"

definition v1_members :: "('p, 'a) fill_from_node_list \<Rightarrow> 'p set" where
  "v1_members h = \<Union> (set (v1_assignations h))"

definition v1_last_subnetwork_id :: "('p, 'a) fill_from_node_list \<Rightarrow> u16" where
  "v1_last_subnetwork_id h = of_nat (v1_subnetwork_size h - 1)"

definition v1_get_address :: "('p, 'a) fill_from_node_list \<Rightarrow> 'p \<Rightarrow> 'a option" where
  "v1_get_address h = v1_addressbook h"

section \<open>Version 2\<close>

record ('p, 'a) fill_with_original_replication =
  v2_assignations :: "'p set list"
  v2_addressbook :: "'p \<rightharpoonup> 'a"
  v2_subnetwork_size :: nat
  v2_dispersal_factor :: nat
  v2_original_replication :: nat
  v2_pivot :: u16

definition v2_fill :: "'p::linorder list \<Rightarrow> nat \<Rightarrow> nat \<Rightarrow> nat \<Rightarrow> u16 \<Rightarrow> 'p set list option" where
  "v2_fill peers subnetwork_size dispersal_factor original_replication pivot =
     (if peers = [] then None
      else fill_subnetworks (sort peers)
        (map (\<lambda>subnetwork. if subnetwork < unat pivot then original_replication else dispersal_factor)
          [0..<subnetwork_size]) (sort peers))"

definition v2_new ::
  "'p::linorder list \<Rightarrow> ('p \<rightharpoonup> 'a) \<Rightarrow> nat \<Rightarrow> nat \<Rightarrow> nat \<Rightarrow> u16 \<Rightarrow>
     ('p, 'a) fill_with_original_replication option" where
  "v2_new peers addressbook subnetwork_size dispersal_factor original_replication pivot =
     map_option (\<lambda>assignations.
       \<lparr>v2_assignations = assignations, v2_addressbook = addressbook, v2_subnetwork_size = subnetwork_size,
        v2_dispersal_factor = dispersal_factor, v2_original_replication = original_replication,
        v2_pivot = pivot\<rparr>)
     (v2_fill peers subnetwork_size dispersal_factor original_replication pivot)"

definition v2_membership :: "('p, 'a) fill_with_original_replication \<Rightarrow> 'p \<Rightarrow> u16 set" where
  "v2_membership h = assigned_networks (v2_assignations h)"

definition v2_is_allowed :: "('p, 'a) fill_with_original_replication \<Rightarrow> 'p \<Rightarrow> bool" where
  "v2_is_allowed h = assigned_somewhere (v2_assignations h)"

definition v2_members_of :: "('p, 'a) fill_with_original_replication \<Rightarrow> u16 \<Rightarrow> 'p set option" where
  "v2_members_of h = assigned_to (v2_assignations h)"

definition v2_members :: "('p, 'a) fill_with_original_replication \<Rightarrow> 'p set" where
  "v2_members h = \<Union> (set (v2_assignations h))"

definition v2_last_subnetwork_id :: "('p, 'a) fill_with_original_replication \<Rightarrow> u16" where
  "v2_last_subnetwork_id h = of_nat (v2_subnetwork_size h - 1)"

definition v2_get_address :: "('p, 'a) fill_with_original_replication \<Rightarrow> 'p \<Rightarrow> 'a option" where
  "v2_get_address h = v2_addressbook h"

section \<open>The contract of a membership\<close>

locale membership_handler =
  fixes valid :: "'h \<Rightarrow> bool"
    and membership :: "'h \<Rightarrow> 'p \<Rightarrow> u16 set"
    and is_allowed :: "'h \<Rightarrow> 'p \<Rightarrow> bool"
    and members_of :: "'h \<Rightarrow> u16 \<Rightarrow> 'p set option"
    and members :: "'h \<Rightarrow> 'p set"
    and last_subnetwork_id :: "'h \<Rightarrow> u16"
  assumes members_of_iff: "valid h \<Longrightarrow> n \<le> last_subnetwork_id h \<Longrightarrow>
      members_of h n = Some {p. n \<in> membership h p}"
    and membership_bound: "valid h \<Longrightarrow> n \<in> membership h p \<Longrightarrow> n \<le> last_subnetwork_id h"
    and allowed_iff: "valid h \<Longrightarrow> is_allowed h p \<longleftrightarrow> membership h p \<noteq> {}"
    and members_iff: "valid h \<Longrightarrow> p \<in> members h \<longleftrightarrow> is_allowed h p"
begin

text \<open>The default method of the trait.\<close>

lemma member_of_iff:
  assumes "valid h" and "n \<le> last_subnetwork_id h"
  shows "n \<in> membership h p \<longleftrightarrow> (\<exists>S. members_of h n = Some S \<and> p \<in> S)"
  using members_of_iff [OF assms] by simp

text \<open>The members are those of all subnetworks together.\<close>

lemma members_union:
  assumes "valid h"
  shows "members h = \<Union> {S. \<exists>n \<le> last_subnetwork_id h. members_of h n = Some S}"
proof -
  have "p \<in> members h \<longleftrightarrow> (\<exists>n \<le> last_subnetwork_id h. n \<in> membership h p)" for p
    using members_iff [OF assms] allowed_iff [OF assms] membership_bound [OF assms] by blast
  then have "p \<in> members h \<longleftrightarrow> (\<exists>n \<le> last_subnetwork_id h. \<exists>S. members_of h n = Some S \<and> p \<in> S)" for p
    using member_of_iff [OF assms] by metis
  then show ?thesis by blast
qed

end

lemma assigned_networks_iff:
  "n \<in> assigned_networks as p \<longleftrightarrow> (\<exists>i < length as. n = of_nat i \<and> p \<in> as ! i)"
  by (auto simp: assigned_networks_def in_set_enumerate_eq image_iff)

lemma u16_of_nat:
  assumes "i < 65536"
  shows "unat (of_nat i :: u16) = i"
  using assms by (simp add: unat_of_nat)

text \<open>The laws, for assignments whose positions fit into 16 bits.\<close>

lemma assignation_laws:
  assumes "0 < length as" and "length as \<le> 65536"
  shows "n \<le> of_nat (length as - 1) \<Longrightarrow> assigned_to as n = Some {p. n \<in> assigned_networks as p}"
    and "n \<in> assigned_networks as p \<Longrightarrow> n \<le> of_nat (length as - 1)"
    and "assigned_somewhere as p \<longleftrightarrow> assigned_networks as p \<noteq> {}"
    and "p \<in> \<Union> (set as) \<longleftrightarrow> assigned_somewhere as p"
proof -
  have last: "unat (of_nat (length as - 1) :: u16) = length as - 1" using assms by (simp add: u16_of_nat)
  show "assigned_to as n = Some {p. n \<in> assigned_networks as p}" if "n \<le> of_nat (length as - 1)"
  proof -
    have "unat n \<le> length as - 1" using that last unfolding word_le_nat_alt by argo
    then have n: "unat n < length as" using assms(1) by linarith
    have "n = of_nat i \<longleftrightarrow> i = unat n" if "i < length as" for i
      using u16_of_nat [of i] that assms(2) by auto
    then have "n \<in> assigned_networks as p \<longleftrightarrow> p \<in> as ! unat n" for p
      using n unfolding assigned_networks_iff by metis
    then show ?thesis using n by (simp add: assigned_to_def)
  qed
  show "n \<le> of_nat (length as - 1)" if "n \<in> assigned_networks as p"
    using that assms last u16_of_nat by (auto simp: assigned_networks_iff word_le_nat_alt)
  show "assigned_somewhere as p \<longleftrightarrow> assigned_networks as p \<noteq> {}"
    using assigned_networks_iff [of _ as p] by (auto simp: assigned_somewhere_def list_ex_length)
  show "p \<in> \<Union> (set as) \<longleftrightarrow> assigned_somewhere as p"
    by (auto simp: assigned_somewhere_def list_ex_iff)
qed

definition v1_valid :: "('p, 'a) fill_from_node_list \<Rightarrow> bool" where
  "v1_valid h \<longleftrightarrow> length (v1_assignations h) = v1_subnetwork_size h \<and>
     0 < v1_subnetwork_size h \<and> v1_subnetwork_size h \<le> 65536"

definition v2_valid :: "('p, 'a) fill_with_original_replication \<Rightarrow> bool" where
  "v2_valid h \<longleftrightarrow> length (v2_assignations h) = v2_subnetwork_size h \<and>
     0 < v2_subnetwork_size h \<and> v2_subnetwork_size h \<le> 65536"

interpretation v1: membership_handler v1_valid v1_membership v1_is_allowed v1_members_of v1_members v1_last_subnetwork_id
proof (unfold_locales, goal_cases)
  case (1 h n)
  then show ?case using assignation_laws(1) [of "v1_assignations h" n]
    by (simp add: v1_valid_def v1_last_subnetwork_id_def v1_members_of_def v1_membership_def)
next
  case (2 h n p)
  then show ?case using assignation_laws(2) [of "v1_assignations h" n p]
    by (simp add: v1_valid_def v1_last_subnetwork_id_def v1_membership_def)
next
  case (3 h p)
  then show ?case using assignation_laws(3) [of "v1_assignations h" p]
    by (simp add: v1_valid_def v1_is_allowed_def v1_membership_def)
next
  case (4 h p)
  then show ?case using assignation_laws(4) [of "v1_assignations h" p]
    by (simp add: v1_valid_def v1_members_def v1_is_allowed_def)
qed

interpretation v2: membership_handler v2_valid v2_membership v2_is_allowed v2_members_of v2_members v2_last_subnetwork_id
proof (unfold_locales, goal_cases)
  case (1 h n)
  then show ?case using assignation_laws(1) [of "v2_assignations h" n]
    by (simp add: v2_valid_def v2_last_subnetwork_id_def v2_members_of_def v2_membership_def)
next
  case (2 h n p)
  then show ?case using assignation_laws(2) [of "v2_assignations h" n p]
    by (simp add: v2_valid_def v2_last_subnetwork_id_def v2_membership_def)
next
  case (3 h p)
  then show ?case using assignation_laws(3) [of "v2_assignations h" p]
    by (simp add: v2_valid_def v2_is_allowed_def v2_membership_def)
next
  case (4 h p)
  then show ?case using assignation_laws(4) [of "v2_assignations h" p]
    by (simp add: v2_valid_def v2_members_def v2_is_allowed_def)
qed

section \<open>What filling computes\<close>

text \<open>The iterator at position \<open>p\<close> of its round gives the peers from there on, round and round.\<close>

lemma take_cycle_eq:
  assumes "orig \<noteq> []" and "p \<le> length orig"
  shows "\<exists>q \<le> length orig. q mod length orig = (p + n) mod length orig \<and>
    take_cycle orig n (drop p orig) = Some (map (\<lambda>j. orig ! ((p + j) mod length orig)) [0..<n], drop q orig)"
  using assms(2)
proof (induction n arbitrary: p)
  case 0
  then show ?case by auto
next
  case (Suc n)
  define r where "r = p mod length orig"
  have r: "r < length orig" using assms(1) by (simp add: r_def)
  have nxt: "cycle_next orig (drop p orig) = Some (orig ! r, drop (Suc r) orig)"
  proof (cases "p = length orig")
    case True
    then show ?thesis using assms(1) by (cases orig) (simp_all add: cycle_next_def r_def)
  next
    case False
    then have "p < length orig" using Suc.prems by simp
    then show ?thesis by (simp add: cycle_next_def r_def Cons_nth_drop_Suc [symmetric])
  qed
  obtain q where q: "q \<le> length orig" "q mod length orig = (Suc r + n) mod length orig"
      "take_cycle orig n (drop (Suc r) orig) =
         Some (map (\<lambda>j. orig ! ((Suc r + j) mod length orig)) [0..<n], drop q orig)"
    using Suc.IH [of "Suc r"] r by auto
  have shift: "(Suc r + j) mod length orig = (p + Suc j) mod length orig" for j
  proof -
    have "(Suc r + j) mod length orig = (p mod length orig + Suc j) mod length orig" by (simp add: r_def)
    then show ?thesis by (simp only: mod_add_left_eq)
  qed
  have "map (\<lambda>j. orig ! ((p + j) mod length orig)) [0..<Suc n]
      = orig ! r # map (\<lambda>j. orig ! ((Suc r + j) mod length orig)) [0..<n]"
    by (simp only: upt_conv_Cons map_Suc_upt [symmetric] list.map map_map o_def shift zero_less_Suc)
       (simp add: r_def)
  then show ?case using q nxt shift [of n] by auto
qed

text \<open>A subnetwork holds the run of peers that starts after all peers handed out before it.\<close>

definition cyclic_run :: "'p list \<Rightarrow> nat \<Rightarrow> nat \<Rightarrow> 'p set" where
  "cyclic_run orig start n = (\<lambda>j. orig ! ((start + j) mod length orig)) ` {0..<n}"

lemma cyclic_run_mod: "cyclic_run orig (p mod length orig) n = cyclic_run orig p n"
  by (simp add: cyclic_run_def mod_add_left_eq)

lemma fill_subnetworks_eq:
  assumes "orig \<noteq> []" and "p \<le> length orig"
  shows "fill_subnetworks orig ns (drop p orig) =
    Some (map (\<lambda>i. cyclic_run orig (p + sum_list (take i ns)) (ns ! i)) [0..<length ns])"
  using assms(2)
proof (induction ns arbitrary: p)
  case Nil
  then show ?case by simp
next
  case (Cons n ns)
  obtain q where q: "q \<le> length orig" "q mod length orig = (p + n) mod length orig"
      "take_cycle orig n (drop p orig) =
         Some (map (\<lambda>j. orig ! ((p + j) mod length orig)) [0..<n], drop q orig)"
    using take_cycle_eq [OF assms(1) Cons.prems, of n] by blast
  have run: "cyclic_run orig (q + k) m = cyclic_run orig (p + (n + k)) m" for k m
  proof -
    have "(q + k) mod length orig = (p + (n + k)) mod length orig"
      using mod_add_cong [OF q(2) refl, of k] by (simp add: add.assoc)
    then show ?thesis using cyclic_run_mod by metis
  qed
  have "map (\<lambda>i. cyclic_run orig (p + sum_list (take i (n # ns))) ((n # ns) ! i)) [0..<length (n # ns)]
      = cyclic_run orig p n # map (\<lambda>i. cyclic_run orig (q + sum_list (take i ns)) (ns ! i)) [0..<length ns]"
    unfolding list.size(4) Nat.add_0_right One_nat_def add_Suc_right upt_conv_Cons [OF zero_less_Suc]
      map_Suc_upt [symmetric] list.map map_map o_def run
    by simp
  then show ?case using q(3) Cons.IH [OF q(1)] by (simp add: cyclic_run_def)
qed

lemma v1_fill_eq:
  assumes "peers \<noteq> []"
  shows "v1_fill peers m f = Some (map (\<lambda>i. cyclic_run (sort peers) (i * f) f) [0..<m])"
proof -
  have "sum_list (take i (replicate m f)) = i * f" if "i < m" for i
    using that by (simp add: min_def sum_list_replicate)
  moreover have "sort peers \<noteq> []" using assms by (metis length_0_conv length_sort)
  ultimately show ?thesis
    using fill_subnetworks_eq [of "sort peers" 0 "replicate m f"] assms by (simp add: v1_fill_def)
qed

text \<open>A run no longer than the round names each peer once.\<close>

lemma mod_shift_inj:
  fixes j k s l :: nat
  assumes "(s + j) mod l = (s + k) mod l" and "j < l" and "k < l"
  shows "j = k"
proof -
  have one: "b = a" if "a \<le> b" "b < l" "(s + a) mod l = (s + b) mod l" for a b
  proof -
    have "l dvd (s + b) - (s + a)" using that(1,3) mod_eq_dvd_iff_nat [of "s + a" "s + b" l] by simp
    then have "l dvd b - a" by simp
    then show ?thesis using that(1,2) by (metis diff_is_0_eq dvd_imp_le le_antisym less_imp_diff_less not_less zero_less_iff_neq_zero)
  qed
  show ?thesis
  proof (cases "j \<le> k")
    case True
    then show ?thesis using one [of j k] assms by simp
  next
    case False
    then show ?thesis using one [of k j] assms by simp
  qed
qed

lemma card_cyclic_run:
  assumes "distinct orig" and "orig \<noteq> []"
  shows "card (cyclic_run orig s n) = min n (length orig)"
proof -
  let ?l = "length orig"
  have l: "0 < ?l" using assms(2) by simp
  have inj: "inj_on (\<lambda>j. orig ! ((s + j) mod ?l)) {0..<k}" if "k \<le> ?l" for k
  proof (rule inj_onI)
    fix x y assume "x \<in> {0..<k}" "y \<in> {0..<k}" "orig ! ((s + x) mod ?l) = orig ! ((s + y) mod ?l)"
    then show "x = y" using mod_shift_inj [of s x ?l y] that l assms(1) by (simp add: nth_eq_iff_index_eq)
  qed
  show ?thesis
  proof (cases "n \<le> ?l")
    case True
    then show ?thesis using card_image [OF inj [OF True]] by (simp add: cyclic_run_def)
  next
    case False
    have "cyclic_run orig s ?l \<subseteq> cyclic_run orig s n" using False by (auto simp: cyclic_run_def)
    moreover have "cyclic_run orig s n \<subseteq> set orig" using l by (auto simp: cyclic_run_def)
    moreover have "card (cyclic_run orig s ?l) = ?l"
      using card_image [OF inj [of ?l]] by (simp add: cyclic_run_def)
    ultimately have "card (cyclic_run orig s n) = ?l"
      using card_mono [of "set orig"] card_mono [of "cyclic_run orig s n"] distinct_card [OF assms(1)]
      by (metis List.finite_set finite_subset le_antisym)
    then show ?thesis using False by simp
  qed
qed

text \<open>How many of the first \<open>T\<close> numbers leave a given remainder.\<close>

lemma card_remainder:
  fixes n r T :: nat
  assumes "r < n"
  shows "T div n \<le> card {t. t < T \<and> t mod n = r}" and "card {t. t < T \<and> t mod n = r} \<le> T div n + 1"
proof -
  let ?S = "{t. t < T \<and> t mod n = r}"
  have n: "0 < n" using assms by simp
  have inj: "inj_on (\<lambda>k. k * n + r) A" for A using n by (simp add: inj_on_def)
  have fin: "finite ?S" by simp
  have "k * n + r < T" if "k < T div n" for k
  proof -
    have "k * n + r < Suc k * n" using assms by simp
    also have "\<dots> \<le> (T div n) * n" using that by (intro mult_le_mono1) simp
    also have "\<dots> \<le> T" by simp
    finally show ?thesis .
  qed
  then have "(\<lambda>k. k * n + r) ` {..<T div n} \<subseteq> ?S" using assms by auto
  from card_mono [OF fin this] show "T div n \<le> card ?S" using card_image [OF inj [of "{..<T div n}"]] by simp
  have "?S \<subseteq> (\<lambda>k. k * n + r) ` {..T div n}"
  proof
    fix t assume t: "t \<in> ?S"
    then have "t = (t div n) * n + r" using div_mult_mod_eq [of t n] by simp
    moreover have "t div n \<le> T div n" using t by (intro div_le_mono) simp
    ultimately show "t \<in> (\<lambda>k. k * n + r) ` {..T div n}" by blast
  qed
  from card_mono [OF _ this] have "card ?S \<le> card ((\<lambda>k. k * n + r) ` {..T div n})" by simp
  then show "card ?S \<le> T div n + 1" using card_image [OF inj [of "{..T div n}"]] by simp
qed

text \<open>
  The runs of length \<open>f\<close> that contain the peer at position \<open>r\<close> are as many as the places \<open>t\<close> handed out
  to it, since a run no longer than the round cannot hold it twice.
\<close>

lemma card_runs_of_peer:
  assumes "distinct orig" and "r < length orig" and "0 < f" and "f \<le> length orig"
  shows "card {i. i < m \<and> orig ! r \<in> cyclic_run orig (i * f) f}
    = card {t. t < m * f \<and> t mod length orig = r}"
proof -
  let ?l = "length orig"
  let ?S = "{t. t < m * f \<and> t mod ?l = r}"
  have mem: "orig ! r \<in> cyclic_run orig s n \<longleftrightarrow> (\<exists>j < n. (s + j) mod ?l = r)" for s n
  proof -
    have "orig ! r = orig ! ((s + j) mod ?l) \<longleftrightarrow> (s + j) mod ?l = r" for j
    proof -
      have "(s + j) mod ?l < ?l" using assms(2) by (intro mod_less_divisor) linarith
      then show ?thesis using assms(1,2) nth_eq_iff_index_eq [of orig r "(s + j) mod ?l"] by metis
    qed
    then show ?thesis by (auto simp: cyclic_run_def image_iff)
  qed
  have inj: "inj_on (\<lambda>t. t div f) ?S"
  proof (rule inj_onI)
    fix x y assume xy: "x \<in> ?S" "y \<in> ?S" "x div f = y div f"
    have "x mod f < ?l" "y mod f < ?l" using assms(3,4) by (meson less_le_trans mod_less_divisor)+
    moreover have "((x div f) * f + x mod f) mod ?l = ((x div f) * f + y mod f) mod ?l"
      using xy by (metis (mono_tags) div_mult_mod_eq mem_Collect_eq)
    ultimately have "x mod f = y mod f" using mod_shift_inj by blast
    then show "x = y" using xy(3) by (metis div_mult_mod_eq)
  qed
  have "(\<lambda>t. t div f) ` ?S = {i. i < m \<and> orig ! r \<in> cyclic_run orig (i * f) f}"
  proof (intro equalityI subsetI)
    fix i assume "i \<in> (\<lambda>t. t div f) ` ?S"
    then obtain t where t: "t < m * f" "t mod ?l = r" "i = t div f" by blast
    have "i < m" using t(1,3) by (simp add: less_mult_imp_div_less)
    moreover have "(i * f + t mod f) mod ?l = r" using t(2,3) by (simp add: div_mult_mod_eq)
    ultimately show "i \<in> {i. i < m \<and> orig ! r \<in> cyclic_run orig (i * f) f}"
      using mem assms(3) by (auto intro!: exI [of _ "t mod f"])
  next
    fix i assume "i \<in> {i. i < m \<and> orig ! r \<in> cyclic_run orig (i * f) f}"
    then obtain j where j: "i < m" "j < f" "(i * f + j) mod ?l = r" using mem by auto
    have "i * f + j < Suc i * f" using j(2) by simp
    also have "\<dots> \<le> m * f" using j(1) by (intro mult_le_mono1) simp
    finally have "i * f + j \<in> ?S" using j(3) by simp
    moreover have "(i * f + j) div f = i" using j(2) by simp
    ultimately show "i \<in> (\<lambda>t. t div f) ` ?S" by (intro image_eqI [of i _ "i * f + j"]) simp_all
  qed
  then show ?thesis using card_image [OF inj] by simp
qed

text \<open>C29. Filling from a list of distinct peers that has at least \<open>dispersal_factor\<close> of them succeeds, gives
  every subnetwork exactly \<open>dispersal_factor\<close> peers, and spreads the work evenly: two peers serve
  numbers of subnetworks that differ by one at most, the quotient of the places by the peers or one more.
  The result does not depend on the order in which the peers are listed.\<close>

theorem fill_balanced:
  assumes "peers \<noteq> []" and "distinct peers" and "0 < f" and "f \<le> length peers"
  shows "\<exists>h. v1_new peers book m f = Some h \<and> length (v1_assignations h) = m \<and>
    (\<forall>s \<in> set (v1_assignations h). card s = f \<and> s \<subseteq> set peers) \<and>
    (\<forall>p \<in> set peers. \<exists>k \<in> {m * f div length peers, m * f div length peers + 1}.
       card {i. i < m \<and> p \<in> v1_assignations h ! i} = k) \<and>
    (\<forall>peers'. mset peers' = mset peers \<longrightarrow> v1_new peers' book m f = Some h)"
proof -
  let ?o = "sort peers"
  let ?as = "map (\<lambda>i. cyclic_run ?o (i * f) f) [0..<m]"
  let ?h = "\<lparr>v1_assignations = ?as, v1_subnetwork_size = m, v1_dispersal_factor = f, v1_addressbook = book\<rparr>"
  have o: "distinct ?o" "length ?o = length peers" "set ?o = set peers" "?o \<noteq> []"
    using assms(1,2) by (simp_all, metis length_0_conv length_sort)
  have new: "v1_new peers book m f = Some ?h" using v1_fill_eq [OF assms(1)] by (simp add: v1_new_def)
  have "card s = f \<and> s \<subseteq> set peers" if "s \<in> set ?as" for s
  proof -
    obtain i where s: "s = cyclic_run ?o (i * f) f" using \<open>s \<in> set ?as\<close> by auto
    have "cyclic_run ?o (i * f) f \<subseteq> set ?o" 
      using o(4) by (auto simp: cyclic_run_def simp del: set_sort length_sort intro!: nth_mem)
    moreover have "card (cyclic_run ?o (i * f) f) = f"
      using card_cyclic_run [OF o(1,4), of "i * f" f] assms(4) o(2) by simp
    ultimately show ?thesis using s o(3) by simp
  qed
  moreover have "\<exists>k \<in> {m * f div length peers, m * f div length peers + 1}. card {i. i < m \<and> p \<in> ?as ! i} = k"
    if p: "p \<in> set peers" for p
  proof -
    obtain r where r: "r < length ?o" "?o ! r = p" 
      using p in_set_conv_nth [of p ?o] unfolding o(3) by blast
    have "{i. i < m \<and> p \<in> ?as ! i} = {i. i < m \<and> ?o ! r \<in> cyclic_run ?o (i * f) f}"
      unfolding r(2) by (intro Collect_cong conj_cong refl) simp
    then have "card {i. i < m \<and> p \<in> ?as ! i} = card {t. t < m * f \<and> t mod length ?o = r}"
      using card_runs_of_peer [OF o(1) r(1) assms(3), of m] assms(4) o(2) by simp
    then have "m * f div length peers \<le> card {i. i < m \<and> p \<in> ?as ! i} \<and>
        card {i. i < m \<and> p \<in> ?as ! i} \<le> m * f div length peers + 1"
      using card_remainder [OF r(1), of "m * f"] o(2) by simp
    then show ?thesis by (simp only: bex_simps insert_iff) linarith
  qed
  moreover have "v1_new peers' book m f = Some ?h" if "mset peers' = mset peers" for peers'
  proof -
    have "sort peers' = ?o" using that by (metis properties_for_sort sorted_sort mset_sort)
    moreover have "peers' \<noteq> []" using that assms(1) by auto
    ultimately show ?thesis using new assms(1) by (simp add: v1_new_def v1_fill_def)
  qed
  ultimately show ?thesis using new by (intro exI [of _ ?h]) simp
qed

theorem fill_balanced_witness:
  "\<exists>h. v1_new [3, 1, 2 :: nat] (\<lambda>p. Some p) 4 2 = Some h \<and> card {i. i < 4 \<and> 3 \<in> v1_assignations h ! i} \<in> {2, 3} \<and>
     v1_new [1, 2, 3] (\<lambda>p. Some p) 4 2 = Some h"
proof -
  obtain h where h: "v1_new [3, 1, 2 :: nat] (\<lambda>p. Some p) 4 2 = Some h"
    "\<forall>p \<in> set [3, 1, 2 :: nat]. \<exists>k \<in> {4 * 2 div length [3, 1, 2 :: nat], 4 * 2 div length [3, 1, 2 :: nat] + 1}.
       card {i. i < 4 \<and> p \<in> v1_assignations h ! i} = k"
    "\<forall>peers'. mset peers' = mset [3, 1, 2 :: nat] \<longrightarrow> v1_new peers' (\<lambda>p. Some p) 4 2 = Some h"
    using fill_balanced [of "[3, 1, 2 :: nat]" 2 "\<lambda>p. Some p" 4] by auto
  have "v1_new [1, 2, 3] (\<lambda>p. Some p) 4 2 = Some h" using h(3) [rule_format, of "[1, 2, 3]"] by simp
  moreover have "card {i. i < 4 \<and> 3 \<in> v1_assignations h ! i} \<in> {2, 3}" using h(2) by simp
  ultimately show ?thesis using h(1) by blast
qed

text \<open>Version 2 is version 1 with two factors: before the pivot its subnetworks are those version 1
  fills with the original replication, and when the pivot is zero or both factors agree the whole
  assignment is that of version 1 with the dispersal factor.\<close>

theorem v2_extends_v1:
  assumes "peers \<noteq> []" and "unat pivot \<le> m"
  shows "map_option (take (unat pivot)) (v2_fill peers m d r pivot) = v1_fill peers (unat pivot) r \<and>
    (pivot = 0 \<or> r = d \<longrightarrow> v2_fill peers m d r pivot = v1_fill peers m d)"
proof (intro conjI impI)
  define ns where "ns = map (\<lambda>i. if i < unat pivot then r else d) [0..<m]"
  have o: "sort peers \<noteq> []" using assms(1) by (metis length_0_conv length_sort)
  have fill: "v2_fill peers m d r pivot =
      Some (map (\<lambda>i. cyclic_run (sort peers) (sum_list (take i ns)) (ns ! i)) [0..<m])"
    using fill_subnetworks_eq [OF o, of 0 ns] assms(1) by (simp add: v2_fill_def ns_def)
  have run: "cyclic_run (sort peers) (sum_list (take i ns)) (ns ! i) = cyclic_run (sort peers) (i * r) r"
    if "i < unat pivot" for i
  proof -
    have "take i ns = replicate i r" using that assms(2) by (intro nth_equalityI) (auto simp: ns_def)
    moreover have "ns ! i = r" using that assms(2) by (simp add: ns_def)
    ultimately show ?thesis by (simp only: sum_list_replicate of_nat_id)
  qed
  show "map_option (take (unat pivot)) (v2_fill peers m d r pivot) = v1_fill peers (unat pivot) r"
  proof -
    have "take (unat pivot) [0..<m] = [0..<unat pivot]" using assms(2) by (simp add: min_def)
    then show ?thesis unfolding fill v1_fill_eq [OF assms(1)] option.map take_map option.inject
      by (simp only:) (rule map_cong [OF refl], rule run, simp)
  qed
  show "v2_fill peers m d r pivot = v1_fill peers m d" if "pivot = 0 \<or> r = d"
  proof -
    have "ns = replicate m d" using that by (intro nth_equalityI) (auto simp: ns_def)
    then show ?thesis by (simp only: v1_fill_def v2_fill_def ns_def)
  qed
qed

theorem v2_extends_v1_witness:
  "map_option (take 1) (v2_fill [2, 1, 3 :: nat] 2 1 2 1) = Some [{1, 2}] \<and>
   v2_fill [2, 1, 3 :: nat] 2 1 2 0 = Some [{1}, {2}]"
  using v2_extends_v1 [of "[2, 1, 3 :: nat]" 1 2 1 2] v2_extends_v1 [of "[2, 1, 3 :: nat]" 0 2 1 2]
  by (simp add: v1_fill_def cycle_next_def numeral_2_eq_2 insert_commute)

text \<open>A membership built for 1 to 65536 subnetworks satisfies the contract of the trait: a peer is listed
  under a subnetwork exactly when the subnetwork is listed under the peer, no listed subnetwork exceeds
  the last identifier, looking up any identifier up to the last one does not go out of range, and the
  members are those of all subnetworks.\<close>

theorem membership_views_agree:
  assumes "v1_new peers book m f = Some h" and "0 < m" and "m \<le> 65536"
  shows "(\<forall>n \<le> v1_last_subnetwork_id h. v1_members_of h n = Some {p. n \<in> v1_membership h p}) \<and>
    (\<forall>p. \<forall>n \<in> v1_membership h p. n \<le> v1_last_subnetwork_id h) \<and>
    v1_members h = \<Union> {S. \<exists>n \<le> v1_last_subnetwork_id h. v1_members_of h n = Some S} \<and>
    (\<forall>p. v1_is_allowed h p \<longleftrightarrow> p \<in> v1_members h)"
proof -
  obtain as where as: "v1_fill peers m f = Some as" "h = \<lparr>v1_assignations = as, v1_subnetwork_size = m,
      v1_dispersal_factor = f, v1_addressbook = book\<rparr>"
    using assms(1) by (auto simp: v1_new_def)
  have "peers \<noteq> []" using as(1) by (auto simp: v1_fill_def)
  then have "length as = m" using v1_fill_eq as(1) by fastforce
  then have v: "v1_valid h" using as(2) assms(2,3) by (simp add: v1_valid_def)
  show ?thesis
    using v1.members_of_iff [OF v] v1.membership_bound [OF v] v1.members_union [OF v] v1.members_iff [OF v] by blast
qed

theorem membership_views_agree_witness:
  "\<exists>h. v1_new [2, 1, 3 :: nat] (\<lambda>p. Some p) 2 1 = Some h \<and> v1_members_of h 1 = Some {p. 1 \<in> v1_membership h p}"
proof -
  let ?h = "\<lparr>v1_assignations = [{1}, {2 :: nat}], v1_subnetwork_size = 2, v1_dispersal_factor = 1,
    v1_addressbook = (\<lambda>p. Some p)\<rparr>"
  have new: "v1_new [2, 1, 3 :: nat] (\<lambda>p. Some p) 2 1 = Some ?h"
    by (simp add: v1_new_def v1_fill_def cycle_next_def numeral_2_eq_2)
  have "v1_members_of ?h 1 = Some {p. 1 \<in> v1_membership ?h p}"
    using membership_views_agree [OF new] by (simp add: v1_last_subnetwork_id_def)
  then show ?thesis using new by blast
qed

end
