(* ===== verification/Da_Connections.thy ===== *)
theory Da_Connections
  imports Subnetworks
begin

text \<open>
  The connections a node keeps in the data availability network,
  \<open>nomos-da/network/core/src/swarm/common/policy.rs\<close>, \<open>balancer.rs\<close>, \<open>monitor.rs\<close> and
  \<open>nomos-da/network/core/src/maintenance/balancer.rs\<close>, \<open>monitor.rs\<close>. The balancer counts the connections of every
  subnetwork and names the peers to dial; the monitor keeps decaying failure rates and blocks peers.
  The membership is the node's, \<open>FillFromNodeList\<close>. The random choice of peers, the order in which a
  hash set is walked and the exponential of the decay are parameters; so is the time, in nanoseconds.
  The rates are \<open>U57F7\<close>: a 64 bit word whose unit is 128.
\<close>

section \<open>The policy\<close>

record subnetwork_stats =
  stat_inbound :: nat
  stat_outbound :: nat

datatype connection_deviation = Missing nat

record policy_settings =
  min_dispersal_peers :: nat
  min_replication_peers :: nat
  max_dispersal_failures :: nat
  max_sampling_failures :: nat
  max_replication_failures :: nat
  malicious_threshold :: nat

record ('p, 'a) connection_policy =
  pol_settings :: policy_settings
  pol_membership :: "('p, 'a) fill_from_node_list"
  pol_local :: 'p

definition fixed_ge :: "u57f7 \<Rightarrow> nat \<Rightarrow> bool" where
  "fixed_ge a n \<longleftrightarrow> n * 128 \<le> unat a"

record peer_stats =
  dispersal_failures_rate :: u57f7
  sampling_failures_rate :: u57f7
  replication_failures_rate :: u57f7
  last_dispersal_failure :: "nat option"
  last_sampling_failure :: "nat option"
  last_replication_failure :: "nat option"

definition is_peer_malicious :: "policy_settings \<Rightarrow> peer_stats \<Rightarrow> bool" where
  "is_peer_malicious s stats \<longleftrightarrow>
     fixed_ge (dispersal_failures_rate stats) (malicious_threshold s) \<or>
     fixed_ge (sampling_failures_rate stats) (malicious_threshold s) \<or>
     fixed_ge (replication_failures_rate stats) (malicious_threshold s)"

definition is_peer_unhealthy :: "policy_settings \<Rightarrow> peer_stats \<Rightarrow> bool" where
  "is_peer_unhealthy s stats \<longleftrightarrow>
     fixed_ge (dispersal_failures_rate stats) (max_dispersal_failures s) \<or>
     fixed_ge (sampling_failures_rate stats) (max_sampling_failures s) \<or>
     fixed_ge (replication_failures_rate stats) (max_replication_failures s)"

text \<open>\<open>is_member_of\<close> is the trait's default method; subtraction of naturals saturates as the code's does.\<close>

definition is_member_of :: "('p, 'a) fill_from_node_list \<Rightarrow> 'p \<Rightarrow> u16 \<Rightarrow> bool" where
  "is_member_of m p n \<longleftrightarrow> n \<in> v1_membership m p"

definition required_connections :: "('p, 'a) connection_policy \<Rightarrow> u16 \<Rightarrow> nat" where
  "required_connections pol n =
     (if is_member_of (pol_membership pol) (pol_local pol) n
      then max (min_dispersal_peers (pol_settings pol)) (min_replication_peers (pol_settings pol))
      else min_dispersal_peers (pol_settings pol))"

definition connection_number_deviation ::
  "('p, 'a) connection_policy \<Rightarrow> u16 \<Rightarrow> subnetwork_stats \<Rightarrow> connection_deviation" where
  "connection_number_deviation pol n stats =
     Missing (required_connections pol n - (stat_inbound stats + stat_outbound stats))"

section \<open>The balancer\<close>

datatype 'p connection_event = OpenInbound 'p | OpenOutbound 'p | CloseInbound 'p | CloseOutbound 'p

record ('p, 'a) connection_balancer =
  bal_local :: 'p
  bal_membership :: "('p, 'a) fill_from_node_list"
  bal_policy :: "('p, 'a) connection_policy"
  subnetwork_stats_of :: "u16 \<rightharpoonup> subnetwork_stats"
  connected_peers :: "'p set"

definition new_balancer ::
  "'p \<Rightarrow> ('p, 'a) fill_from_node_list \<Rightarrow> ('p, 'a) connection_policy \<Rightarrow> ('p, 'a) connection_balancer" where
  "new_balancer p m pol =
     \<lparr>bal_local = p, bal_membership = m, bal_policy = pol, subnetwork_stats_of = Map.empty, connected_peers = {}\<rparr>"

definition no_stats :: subnetwork_stats where
  "no_stats = \<lparr>stat_inbound = 0, stat_outbound = 0\<rparr>"

definition stats_of :: "('p, 'a) connection_balancer \<Rightarrow> u16 \<Rightarrow> subnetwork_stats" where
  "stats_of b n = (case subnetwork_stats_of b n of Some s \<Rightarrow> s | None \<Rightarrow> no_stats)"

definition update_subnetwork_stats ::
  "int \<Rightarrow> int \<Rightarrow> u16 \<Rightarrow> ('p, 'a) connection_balancer \<Rightarrow> ('p, 'a) connection_balancer" where
  "update_subnetwork_stats di dout n b =
     (let s = stats_of b n in
      b\<lparr>subnetwork_stats_of := (subnetwork_stats_of b)(n \<mapsto>
          \<lparr>stat_inbound = nat (max 0 (int (stat_inbound s) + di)),
           stat_outbound = nat (max 0 (int (stat_outbound s) + dout))\<rparr>)\<rparr>)"

fun balancer_record_event ::
  "(u16 set \<Rightarrow> u16 list) \<Rightarrow> 'p connection_event \<Rightarrow> ('p, 'a) connection_balancer \<Rightarrow> ('p, 'a) connection_balancer" where
  "balancer_record_event iter (OpenInbound p) b =
     fold (update_subnetwork_stats 1 0) (iter (v1_membership (bal_membership b) p))
       (b\<lparr>connected_peers := insert p (connected_peers b)\<rparr>)"
| "balancer_record_event iter (OpenOutbound p) b =
     fold (update_subnetwork_stats 0 1) (iter (v1_membership (bal_membership b) p))
       (b\<lparr>connected_peers := insert p (connected_peers b)\<rparr>)"
| "balancer_record_event iter (CloseInbound p) b =
     fold (update_subnetwork_stats (-1) 0) (iter (v1_membership (bal_membership b) p))
       (b\<lparr>connected_peers := connected_peers b - {p}\<rparr>)"
| "balancer_record_event iter (CloseOutbound p) b =
     fold (update_subnetwork_stats 0 (-1)) (iter (v1_membership (bal_membership b) p))
       (b\<lparr>connected_peers := connected_peers b - {p}\<rparr>)"

definition select_missing_peers ::
  "('p set \<Rightarrow> 'p list) \<Rightarrow> ('p list \<Rightarrow> nat \<Rightarrow> 'p list) \<Rightarrow> ('p, 'a) connection_balancer \<Rightarrow> u16 \<Rightarrow> nat \<Rightarrow> 'p list option" where
  "select_missing_peers iter pick b n missing =
     map_option (\<lambda>candidates.
       pick (filter (\<lambda>p. p \<notin> connected_peers b \<and> p \<noteq> bal_local b) (iter candidates)) missing)
     (v1_members_of (bal_membership b) n)"

text \<open>One subnetwork of the loop of \<open>poll\<close>; \<open>None\<close> is the panic of an index out of range.\<close>

definition peers_for_subnetwork ::
  "('p set \<Rightarrow> 'p list) \<Rightarrow> ('p list \<Rightarrow> nat \<Rightarrow> 'p list) \<Rightarrow> ('p, 'a) connection_balancer \<Rightarrow> u16 \<Rightarrow> 'p list option" where
  "peers_for_subnetwork iter pick b n =
     (case connection_number_deviation (bal_policy b) n (stats_of b n) of
        Missing k \<Rightarrow> select_missing_peers iter pick b n k)"

text \<open>\<open>Some []\<close> is \<open>Poll::Pending\<close>: the code returns the peers only when there are some.\<close>

definition balancer_poll ::
  "('p set \<Rightarrow> 'p list) \<Rightarrow> ('p list \<Rightarrow> nat \<Rightarrow> 'p list) \<Rightarrow> bool \<Rightarrow> ('p, 'a) connection_balancer \<Rightarrow> 'p list option" where
  "balancer_poll iter pick interval_ready b =
     (if interval_ready
      then map_option concat (those (map (\<lambda>n. peers_for_subnetwork iter pick b (of_nat n))
        [0..<Suc (unat (v1_last_subnetwork_id (bal_membership b)))]))
      else Some [])"

section \<open>The balancer as a network behaviour\<close>

datatype endpoint = Dialer | Listener

record ('p, 'a) balancer_behaviour =
  bb_membership :: "('p, 'a) fill_from_node_list"
  bb_balancer :: "('p, 'a) connection_balancer"
  peers_to_dial :: "'p list"

definition bb_record_event ::
  "(u16 set \<Rightarrow> u16 list) \<Rightarrow> 'p connection_event \<Rightarrow> ('p, 'a) balancer_behaviour \<Rightarrow> ('p, 'a) balancer_behaviour" where
  "bb_record_event iter e bb = bb\<lparr>bb_balancer := balancer_record_event iter e (bb_balancer bb)\<rparr>"

definition bb_established_inbound ::
  "(u16 set \<Rightarrow> u16 list) \<Rightarrow> 'p \<Rightarrow> ('p, 'a) balancer_behaviour \<Rightarrow> ('p, 'a) balancer_behaviour" where
  "bb_established_inbound iter p = bb_record_event iter (OpenInbound p)"

definition bb_established_outbound ::
  "(u16 set \<Rightarrow> u16 list) \<Rightarrow> 'p \<Rightarrow> ('p, 'a) balancer_behaviour \<Rightarrow> ('p, 'a) balancer_behaviour" where
  "bb_established_outbound iter p = bb_record_event iter (OpenOutbound p)"

fun bb_connection_closed ::
  "(u16 set \<Rightarrow> u16 list) \<Rightarrow> endpoint \<Rightarrow> 'p \<Rightarrow> ('p, 'a) balancer_behaviour \<Rightarrow> ('p, 'a) balancer_behaviour" where
  "bb_connection_closed iter Dialer p bb = bb_record_event iter (CloseInbound p) bb"
| "bb_connection_closed iter Listener p bb = bb_record_event iter (CloseOutbound p) bb"

text \<open>
  A poll answers a pending request for the statistics, refills the queue from the balancer when it is
  empty and takes one peer from it. A peer without an address is dropped without a dial.
\<close>

definition bb_poll ::
  "('p set \<Rightarrow> 'p list) \<Rightarrow> ('p list \<Rightarrow> nat \<Rightarrow> 'p list) \<Rightarrow> bool \<Rightarrow> bool \<Rightarrow> ('p, 'a) balancer_behaviour \<Rightarrow>
     (('p, 'a) balancer_behaviour \<times> (u16 \<rightharpoonup> subnetwork_stats) option \<times> ('p \<times> 'a) option) option" where
  "bb_poll iter pick stats_requested interval_ready bb =
     (let reply = (if stats_requested then Some (subnetwork_stats_of (bb_balancer bb)) else None) in
      Option.bind (if peers_to_dial bb = [] then balancer_poll iter pick interval_ready (bb_balancer bb)
                   else Some (peers_to_dial bb))
        (\<lambda>peers. case peers of
            [] \<Rightarrow> Some (bb\<lparr>peers_to_dial := []\<rparr>, reply, None)
          | p # ps \<Rightarrow> Some (bb\<lparr>peers_to_dial := ps\<rparr>, reply,
              map_option (\<lambda>addr. (p, addr)) (v1_get_address (bb_membership bb) p))))"

section \<open>The monitor\<close>

datatype peer_status = Malicious | Unhealthy | Healthy

text \<open>The errors of the protocols, reduced to the peer they name.\<close>

datatype 'p executor_dispersal_error =
    ExecutorIo 'p
  | ExecutorSerialization
  | ExecutorProtocol
  | ExecutorOpenStream 'p

datatype 'p validator_dispersal_error = ValidatorIo 'p

datatype 'p replication_error =
    ReplicationIo 'p
  | ReplicationOpenStream 'p
  | DequeueOutbound 'p

datatype 'p sampling_protocol_error =
    SamplingIo 'p
  | SamplingProtocol 'p
  | SamplingOpenStream 'p
  | SamplingDeserialize 'p
  | SamplingRequestChannel 'p
  | SamplingInvalidBlobId 'p
  | SamplingBlobNotFound 'p
  | SamplingResponseChannel 'p

fun executor_error_peer :: "'p executor_dispersal_error \<Rightarrow> 'p option" where
  "executor_error_peer (ExecutorIo p) = Some p"
| "executor_error_peer (ExecutorOpenStream p) = Some p"
| "executor_error_peer _ = None"

fun validator_error_peer :: "'p validator_dispersal_error \<Rightarrow> 'p option" where
  "validator_error_peer (ValidatorIo p) = Some p"

fun replication_error_peer :: "'p replication_error \<Rightarrow> 'p option" where
  "replication_error_peer (ReplicationOpenStream p) = Some p"
| "replication_error_peer (ReplicationIo p) = Some p"
| "replication_error_peer (DequeueOutbound p) = Some p"

fun sampling_error_peer :: "'p sampling_protocol_error \<Rightarrow> 'p option" where
  "sampling_error_peer (SamplingIo p) = Some p"
| "sampling_error_peer (SamplingProtocol p) = Some p"
| "sampling_error_peer (SamplingOpenStream p) = Some p"
| "sampling_error_peer (SamplingDeserialize p) = Some p"
| "sampling_error_peer (SamplingRequestChannel p) = Some p"
| "sampling_error_peer (SamplingInvalidBlobId p) = Some p"
| "sampling_error_peer (SamplingBlobNotFound p) = Some p"
| "sampling_error_peer (SamplingResponseChannel p) = Some p"

datatype 'p monitor_event =
    ExecutorDispersal "'p executor_dispersal_error"
  | ValidatorDispersal "'p validator_dispersal_error"
  | Replication "'p replication_error"
  | Sampling "'p sampling_protocol_error"
  | Noop

fun monitor_event_peer :: "'p monitor_event \<Rightarrow> 'p option" where
  "monitor_event_peer (ExecutorDispersal e) = executor_error_peer e"
| "monitor_event_peer (ValidatorDispersal e) = validator_error_peer e"
| "monitor_event_peer (Replication e) = replication_error_peer e"
| "monitor_event_peer (Sampling e) = sampling_error_peer e"
| "monitor_event_peer Noop = None"

text \<open>The events of the four protocols, as the monitor sees them: \<open>None\<close> is a success or a message.\<close>

fun from_executor_event :: "'p executor_dispersal_error option \<Rightarrow> 'p monitor_event" where
  "from_executor_event (Some (ExecutorIo p)) = ExecutorDispersal (ExecutorIo p)"
| "from_executor_event (Some (ExecutorOpenStream p)) = ExecutorDispersal (ExecutorOpenStream p)"
| "from_executor_event _ = Noop"

fun from_validator_event :: "'p validator_dispersal_error option \<Rightarrow> 'p monitor_event" where
  "from_validator_event (Some e) = ValidatorDispersal e"
| "from_validator_event None = Noop"

fun from_replication_event :: "'p replication_error option \<Rightarrow> 'p monitor_event" where
  "from_replication_event (Some e) = Replication e"
| "from_replication_event None = Noop"

fun from_sampling_event :: "'p sampling_protocol_error option \<Rightarrow> 'p monitor_event" where
  "from_sampling_event (Some (SamplingIo p)) = Sampling (SamplingIo p)"
| "from_sampling_event (Some (SamplingOpenStream p)) = Sampling (SamplingOpenStream p)"
| "from_sampling_event _ = Noop"

record monitor_settings =
  failure_time_window :: nat
  time_decay_factor :: u57f7

record 'p connection_monitor =
  mon_peer_stats :: "'p \<rightharpoonup> peer_stats"
  mon_policy :: policy_settings
  mon_settings :: monitor_settings

definition default_peer_stats :: peer_stats where
  "default_peer_stats = \<lparr>dispersal_failures_rate = 0, sampling_failures_rate = 0, replication_failures_rate = 0,
     last_dispersal_failure = None, last_sampling_failure = None, last_replication_failure = None\<rparr>"

definition new_monitor :: "monitor_settings \<Rightarrow> policy_settings \<Rightarrow> 'p connection_monitor" where
  "new_monitor s pol = \<lparr>mon_peer_stats = Map.empty, mon_policy = pol, mon_settings = s\<rparr>"

text \<open>\<open>decay elapsed window\<close> stands for \<open>U57F7::from_num((-elapsed / window).exp())\<close>.\<close>

definition compute_failure_rate ::
  "(nat \<Rightarrow> nat \<Rightarrow> u57f7) \<Rightarrow> nat \<Rightarrow> nat \<Rightarrow> u57f7 \<Rightarrow> nat \<Rightarrow> u57f7 \<Rightarrow> u57f7" where
  "compute_failure_rate decay now last_failure failure_rate window decay_factor =
     (let elapsed = now - last_failure in
      if 0 < elapsed then fixed_mul failure_rate (fixed_mul (decay elapsed window) decay_factor)
      else failure_rate)"

definition compute_dispersal_failure_rate ::
  "(nat \<Rightarrow> nat \<Rightarrow> u57f7) \<Rightarrow> peer_stats \<Rightarrow> nat \<Rightarrow> nat \<Rightarrow> u57f7 \<Rightarrow> u57f7" where
  "compute_dispersal_failure_rate decay st now window factor =
     compute_failure_rate decay now (case last_dispersal_failure st of Some t \<Rightarrow> t | None \<Rightarrow> now)
       (dispersal_failures_rate st) window factor"

definition compute_sampling_failure_rate ::
  "(nat \<Rightarrow> nat \<Rightarrow> u57f7) \<Rightarrow> peer_stats \<Rightarrow> nat \<Rightarrow> nat \<Rightarrow> u57f7 \<Rightarrow> u57f7" where
  "compute_sampling_failure_rate decay st now window factor =
     compute_failure_rate decay now (case last_sampling_failure st of Some t \<Rightarrow> t | None \<Rightarrow> now)
       (sampling_failures_rate st) window factor"

definition compute_replication_failure_rate ::
  "(nat \<Rightarrow> nat \<Rightarrow> u57f7) \<Rightarrow> peer_stats \<Rightarrow> nat \<Rightarrow> nat \<Rightarrow> u57f7 \<Rightarrow> u57f7" where
  "compute_replication_failure_rate decay st now window factor =
     compute_failure_rate decay now (case last_replication_failure st of Some t \<Rightarrow> t | None \<Rightarrow> now)
       (replication_failures_rate st) window factor"

definition get_updated_stats ::
  "(nat \<Rightarrow> nat \<Rightarrow> u57f7) \<Rightarrow> peer_stats \<Rightarrow> nat \<Rightarrow> nat \<Rightarrow> u57f7 \<Rightarrow> peer_stats" where
  "get_updated_stats decay st now window factor =
     st\<lparr>dispersal_failures_rate := compute_dispersal_failure_rate decay st now window factor,
        sampling_failures_rate := compute_sampling_failure_rate decay st now window factor,
        replication_failures_rate := compute_replication_failure_rate decay st now window factor\<rparr>"

definition evaluate_peer ::
  "(nat \<Rightarrow> nat \<Rightarrow> u57f7) \<Rightarrow> 'p connection_monitor \<Rightarrow> nat \<Rightarrow> 'p \<Rightarrow> peer_status" where
  "evaluate_peer decay m now p =
     (case mon_peer_stats m p of
        Some st \<Rightarrow>
          (let st' = get_updated_stats decay st now (failure_time_window (mon_settings m))
                 (time_decay_factor (mon_settings m)) in
           if is_peer_malicious (mon_policy m) st' then Malicious
           else if is_peer_unhealthy (mon_policy m) st' then Unhealthy else Healthy)
      | None \<Rightarrow> Healthy)"

definition record_failure ::
  "(nat \<Rightarrow> nat \<Rightarrow> u57f7) \<Rightarrow> monitor_settings \<Rightarrow> nat \<Rightarrow> 'p monitor_event \<Rightarrow> peer_stats \<Rightarrow> peer_stats" where
  "record_failure decay s now e st =
     (let w = failure_time_window s; f = time_decay_factor s in
      case e of
        ExecutorDispersal _ \<Rightarrow>
          st\<lparr>dispersal_failures_rate := compute_dispersal_failure_rate decay st now w f + fixed_one,
             last_dispersal_failure := Some now\<rparr>
      | ValidatorDispersal _ \<Rightarrow>
          st\<lparr>dispersal_failures_rate := compute_dispersal_failure_rate decay st now w f + fixed_one,
             last_dispersal_failure := Some now\<rparr>
      | Replication _ \<Rightarrow>
          st\<lparr>replication_failures_rate := compute_replication_failure_rate decay st now w f + fixed_one,
             last_replication_failure := Some now\<rparr>
      | Sampling _ \<Rightarrow>
          st\<lparr>sampling_failures_rate := compute_sampling_failure_rate decay st now w f + fixed_one,
             last_sampling_failure := Some now\<rparr>
      | Noop \<Rightarrow> st)"

definition monitor_record_event ::
  "(nat \<Rightarrow> nat \<Rightarrow> u57f7) \<Rightarrow> nat \<Rightarrow> 'p monitor_event \<Rightarrow> 'p connection_monitor \<Rightarrow>
     'p connection_monitor \<times> ('p \<times> peer_status) option" where
  "monitor_record_event decay now e m =
     (case monitor_event_peer e of
        Some p \<Rightarrow>
          (let st = (case mon_peer_stats m p of Some st \<Rightarrow> st | None \<Rightarrow> default_peer_stats);
               m' = m\<lparr>mon_peer_stats := (mon_peer_stats m)(p \<mapsto> record_failure decay (mon_settings m) now e st)\<rparr> in
           (m', Some (p, evaluate_peer decay m' now p)))
      | None \<Rightarrow> (m, None))"

definition reset_peer :: "'p \<Rightarrow> 'p connection_monitor \<Rightarrow> 'p connection_monitor" where
  "reset_peer p m = m\<lparr>mon_peer_stats := (mon_peer_stats m)(p := None)\<rparr>"

section \<open>The monitor as a network behaviour\<close>

record 'p monitor_behaviour =
  mb_monitor :: "'p connection_monitor"
  malicious_peers :: "'p set"
  unhealthy_peers :: "'p \<rightharpoonup> nat"
  close_connections :: "'p list"
  redial_cooldown :: nat

definition block_peer :: "'p \<Rightarrow> 'p monitor_behaviour \<Rightarrow> 'p monitor_behaviour \<times> bool" where
  "block_peer p mb =
     (if p \<in> malicious_peers mb then (mb, False)
      else (mb\<lparr>malicious_peers := insert p (malicious_peers mb),
               close_connections := close_connections mb @ [p]\<rparr>, True))"

definition temporarily_block_peer :: "nat \<Rightarrow> 'p \<Rightarrow> 'p monitor_behaviour \<Rightarrow> 'p monitor_behaviour" where
  "temporarily_block_peer now p mb =
     mb\<lparr>unhealthy_peers := (unhealthy_peers mb)(p \<mapsto> now + redial_cooldown mb),
        close_connections := close_connections mb @ [p]\<rparr>"

text \<open>The disjunction is lazy: the second removal is only run when the first one found nothing.\<close>

definition unblock_peer :: "'p \<Rightarrow> 'p monitor_behaviour \<Rightarrow> 'p monitor_behaviour \<times> bool" where
  "unblock_peer p mb =
     (if p \<in> malicious_peers mb then (mb\<lparr>malicious_peers := malicious_peers mb - {p}\<rparr>, True)
      else (mb\<lparr>unhealthy_peers := (unhealthy_peers mb)(p := None)\<rparr>, unhealthy_peers mb p \<noteq> None))"

definition mb_record_event ::
  "(nat \<Rightarrow> nat \<Rightarrow> u57f7) \<Rightarrow> nat \<Rightarrow> 'p monitor_event \<Rightarrow> 'p monitor_behaviour \<Rightarrow> 'p monitor_behaviour" where
  "mb_record_event decay now e mb =
     (let (m, output) = monitor_record_event decay now e (mb_monitor mb);
          mb' = mb\<lparr>mb_monitor := m\<rparr> in
      case output of
        Some (p, Malicious) \<Rightarrow> fst (block_peer p mb')
      | Some (p, Unhealthy) \<Rightarrow> temporarily_block_peer now p mb'
      | _ \<Rightarrow> mb')"

datatype 'p connection_denied = Blocked 'p | TemporarilyBlocked 'p

definition enforce ::
  "nat \<Rightarrow> 'p \<Rightarrow> 'p monitor_behaviour \<Rightarrow> 'p monitor_behaviour \<times> ('p connection_denied + unit)" where
  "enforce now p mb =
     (let mb' = mb\<lparr>unhealthy_peers :=
            (\<lambda>q. case unhealthy_peers mb q of Some t \<Rightarrow> if now \<le> t then Some t else None | None \<Rightarrow> None)\<rparr> in
      (mb', if p \<in> malicious_peers mb' then Inl (Blocked p)
            else if unhealthy_peers mb' p \<noteq> None then Inl (TemporarilyBlocked p)
            else Inr ()))"

definition pending_outbound_connection ::
  "nat \<Rightarrow> 'p option \<Rightarrow> 'p monitor_behaviour \<Rightarrow> 'p monitor_behaviour \<times> ('p connection_denied + unit)" where
  "pending_outbound_connection now p mb = (case p of Some p \<Rightarrow> enforce now p mb | None \<Rightarrow> (mb, Inr ()))"

datatype 'p monitor_command = Block 'p | Unblock 'p | BlacklistedPeers | MonitorStats

datatype 'p monitor_reply = Done bool | Peers "'p list" | Stats "'p \<rightharpoonup> peer_stats"

definition mb_command ::
  "('p set \<Rightarrow> 'p list) \<Rightarrow> 'p monitor_command \<Rightarrow> 'p monitor_behaviour \<Rightarrow> 'p monitor_behaviour \<times> 'p monitor_reply" where
  "mb_command iter c mb =
     (case c of
        Block p \<Rightarrow> apsnd Done (block_peer p mb)
      | Unblock p \<Rightarrow> apsnd Done (unblock_peer p mb)
      | BlacklistedPeers \<Rightarrow> (mb, Peers (iter (malicious_peers mb)))
      | MonitorStats \<Rightarrow> (mb, Stats (mon_peer_stats (mb_monitor mb))))"

definition mb_poll ::
  "('p set \<Rightarrow> 'p list) \<Rightarrow> 'p monitor_command option \<Rightarrow> 'p monitor_behaviour \<Rightarrow>
     'p monitor_behaviour \<times> 'p monitor_reply option \<times> 'p option" where
  "mb_poll iter cmd mb =
     (let (mb', reply) = (case cmd of Some c \<Rightarrow> apsnd Some (mb_command iter c mb) | None \<Rightarrow> (mb, None)) in
      case close_connections mb' of
        p # ps \<Rightarrow> (mb'\<lparr>close_connections := ps\<rparr>, reply, Some p)
      | [] \<Rightarrow> (mb', reply, None))"

section \<open>Lemmas on the balancer\<close>

definition bump_stats :: "int \<Rightarrow> int \<Rightarrow> subnetwork_stats \<Rightarrow> subnetwork_stats" where
  "bump_stats di dout s = \<lparr>stat_inbound = nat (max 0 (int (stat_inbound s) + di)),
     stat_outbound = nat (max 0 (int (stat_outbound s) + dout))\<rparr>"

lemma update_subnetwork_stats_sel [simp]:
  "stats_of (update_subnetwork_stats di dout n b) k = (if k = n then bump_stats di dout (stats_of b n) else stats_of b k)"
  "connected_peers (update_subnetwork_stats di dout n b) = connected_peers b"
  "bal_membership (update_subnetwork_stats di dout n b) = bal_membership b"
  "bal_policy (update_subnetwork_stats di dout n b) = bal_policy b"
  "bal_local (update_subnetwork_stats di dout n b) = bal_local b"
  by (simp_all add: update_subnetwork_stats_def stats_of_def bump_stats_def Let_def)

lemma fold_update_stats:
  "distinct ns \<Longrightarrow> stats_of (fold (update_subnetwork_stats di dout) ns b) k =
     (if k \<in> set ns then bump_stats di dout (stats_of b k) else stats_of b k)"
  by (induction ns arbitrary: b) auto

lemma fold_update_sel [simp]:
  "connected_peers (fold (update_subnetwork_stats di dout) ns b) = connected_peers b"
  "bal_membership (fold (update_subnetwork_stats di dout) ns b) = bal_membership b"
  "bal_policy (fold (update_subnetwork_stats di dout) ns b) = bal_policy b"
  "bal_local (fold (update_subnetwork_stats di dout) ns b) = bal_local b"
  by (induction ns arbitrary: b) simp_all

lemma stats_of_connected [simp]: "stats_of (b\<lparr>connected_peers := C\<rparr>) k = stats_of b k"
  by (simp add: stats_of_def)

fun event_peer :: "'p connection_event \<Rightarrow> 'p" where
  "event_peer (OpenInbound p) = p"
| "event_peer (OpenOutbound p) = p"
| "event_peer (CloseInbound p) = p"
| "event_peer (CloseOutbound p) = p"

fun event_delta :: "'p connection_event \<Rightarrow> int \<times> int" where
  "event_delta (OpenInbound p) = (1, 0)"
| "event_delta (OpenOutbound p) = (0, 1)"
| "event_delta (CloseInbound p) = (-1, 0)"
| "event_delta (CloseOutbound p) = (0, -1)"

lemma record_event_membership [simp]:
  "bal_membership (balancer_record_event iter e b) = bal_membership b"
  by (cases e) simp_all

lemma finite_word_set [simp]: "finite (S :: u16 set)"
  by simp

text \<open>An event changes the counters of the peer's subnetworks only, whatever order they are walked in.\<close>

lemma record_event_stats:
  assumes "iterates iter"
  shows "stats_of (balancer_record_event iter e b) n =
    (if n \<in> v1_membership (bal_membership b) (event_peer e)
     then bump_stats (fst (event_delta e)) (snd (event_delta e)) (stats_of b n) else stats_of b n)"
proof -
  let ?ns = "iter (v1_membership (bal_membership b) (event_peer e))"
  have "set ?ns = v1_membership (bal_membership b) (event_peer e)" "distinct ?ns"
    using assms by (simp_all add: iterates_set iterates_distinct)
  then show ?thesis by (cases e) (simp_all add: fold_update_stats)
qed

declare balancer_record_event.simps [simp del]

text \<open>The connections that are open, as the events tell; an event that closes one names an open one.\<close>

inductive balancer_history ::
  "(u16 set \<Rightarrow> u16 list) \<Rightarrow> ('p, 'a) connection_balancer \<Rightarrow> (endpoint \<times> 'p) multiset \<Rightarrow> bool"
  for iter :: "u16 set \<Rightarrow> u16 list" where
  fresh: "balancer_history iter (new_balancer p m pol) {#}"
| open_inbound: "balancer_history iter b C \<Longrightarrow>
    balancer_history iter (balancer_record_event iter (OpenInbound p) b) (add_mset (Listener, p) C)"
| open_outbound: "balancer_history iter b C \<Longrightarrow>
    balancer_history iter (balancer_record_event iter (OpenOutbound p) b) (add_mset (Dialer, p) C)"
| close_inbound: "balancer_history iter b C \<Longrightarrow> (Listener, p) \<in># C \<Longrightarrow>
    balancer_history iter (balancer_record_event iter (CloseInbound p) b) (C - {#(Listener, p)#})"
| close_outbound: "balancer_history iter b C \<Longrightarrow> (Dialer, p) \<in># C \<Longrightarrow>
    balancer_history iter (balancer_record_event iter (CloseOutbound p) b) (C - {#(Dialer, p)#})"

definition connections_in :: "('p, 'a) fill_from_node_list \<Rightarrow> endpoint \<Rightarrow> u16 \<Rightarrow> (endpoint \<times> 'p) multiset \<Rightarrow> nat" where
  "connections_in m e n C = size {#c \<in># C. fst c = e \<and> n \<in> v1_membership m (snd c)#}"

lemma connections_in_add [simp]:
  "connections_in m e n (add_mset (e', p) C) =
     connections_in m e n C + (if e = e' \<and> n \<in> v1_membership m p then 1 else 0)"
  by (simp add: connections_in_def)

lemma connections_in_remove:
  assumes "(e', p) \<in># C"
  shows "connections_in m e n (C - {#(e', p)#}) =
    connections_in m e n C - (if e = e' \<and> n \<in> v1_membership m p then 1 else 0)"
proof -
  have "C = add_mset (e', p) (C - {#(e', p)#})" using assms by simp
  then have "connections_in m e n C =
      connections_in m e n (C - {#(e', p)#}) + (if e = e' \<and> n \<in> v1_membership m p then 1 else 0)"
    using connections_in_add [of m e n e' p "C - {#(e', p)#}"] by metis
  then show ?thesis by simp
qed

text \<open>As long as every closing event names a connection that is open in that direction, the counters of
  every subnetwork are the numbers of open inbound and outbound connections to its members.\<close>

theorem balancer_counts_connections:
  assumes "balancer_history iter b C" and "iterates iter"
  shows "stat_inbound (stats_of b n) = connections_in (bal_membership b) Listener n C \<and>
    stat_outbound (stats_of b n) = connections_in (bal_membership b) Dialer n C"
  using assms(1)
proof (induction rule: balancer_history.induct)
  case (fresh p m pol)
  then show ?case by (simp add: new_balancer_def stats_of_def no_stats_def connections_in_def)
next
  case (open_inbound b C p)
  then show ?case by (simp add: record_event_stats [OF assms(2)] bump_stats_def nat_add_distrib)
next
  case (open_outbound b C p)
  then show ?case by (simp add: record_event_stats [OF assms(2)] bump_stats_def nat_add_distrib)
next
  case (close_inbound b C p)
  then show ?case
    by (simp add: record_event_stats [OF assms(2)] bump_stats_def connections_in_remove nat_diff_distrib' max_def)
next
  case (close_outbound b C p)
  then show ?case
    by (simp add: record_event_stats [OF assms(2)] bump_stats_def connections_in_remove nat_diff_distrib' max_def)
qed

definition sample_membership :: "(nat, nat) fill_from_node_list" where
  "sample_membership = \<lparr>v1_assignations = [{1, 2}, {2, 3}], v1_subnetwork_size = 2, v1_dispersal_factor = 2,
     v1_addressbook = (\<lambda>p. Some p)\<rparr>"

definition sample_settings :: policy_settings where
  "sample_settings = \<lparr>min_dispersal_peers = 1, min_replication_peers = 1, max_dispersal_failures = 2,
     max_sampling_failures = 2, max_replication_failures = 2, malicious_threshold = 3\<rparr>"

definition sample_policy :: "(nat, nat) connection_policy" where
  "sample_policy = \<lparr>pol_settings = sample_settings, pol_membership = sample_membership, pol_local = 1\<rparr>"

lemma sample_membership_simps [simp]:
  "v1_membership sample_membership 2 = {0, 1}"
  "v1_members_of sample_membership 0 = Some {1, 2}"
  "v1_last_subnetwork_id sample_membership = 1"
  "v1_valid sample_membership"
  by (simp_all add: sample_membership_def v1_membership_def assigned_networks_def v1_members_of_def assigned_to_def
      v1_last_subnetwork_id_def v1_valid_def insert_commute)

theorem balancer_counts_connections_witness:
  "stat_inbound (stats_of (balancer_record_event sorted_list_of_set (OpenInbound 2)
     (new_balancer 1 sample_membership sample_policy)) 1) = 1"
proof -
  have "balancer_history sorted_list_of_set (balancer_record_event sorted_list_of_set (OpenInbound 2)
      (new_balancer 1 sample_membership sample_policy)) (add_mset (Listener, 2) {#})"
    by (intro balancer_history.intros)
  from balancer_counts_connections [OF this, of 1] show ?thesis
    by (simp add: new_balancer_def connections_in_def)
qed

lemma new_balancer_sel [simp]:
  "stats_of (new_balancer p m pol) n = no_stats"
  "bal_membership (new_balancer p m pol) = m"
  "bal_local (new_balancer p m pol) = p"
  "connected_peers (new_balancer p m pol) = {}"
  "stat_inbound no_stats = 0"
  "stat_outbound no_stats = 0"
  by (simp_all add: new_balancer_def stats_of_def no_stats_def)

text \<open>When the remote end or the node closes a connection that the node itself had dialled, the behaviour
  reports the closing of an inbound connection. The outbound counter of the peer's subnetworks keeps
  counting the closed connection and the inbound counter loses one that is still open; the peer is no
  longer listed as connected. A connection the peer had dialled is miscounted the other way.\<close>

theorem closed_connection_still_counted:
  assumes "iterates iter" and "n \<in> v1_membership (bal_membership (bb_balancer bb)) p"
  shows "let bb1 = bb_connection_closed iter Dialer p (bb_established_outbound iter p bb);
      bb2 = bb_connection_closed iter Listener p (bb_established_inbound iter p bb);
      before = stats_of (bb_balancer bb) n;
      after1 = stats_of (bb_balancer bb1) n;
      after2 = stats_of (bb_balancer bb2) n in
    stat_outbound after1 = stat_outbound before + 1 \<and> stat_inbound after1 = stat_inbound before - 1 \<and>
    stat_inbound after2 = stat_inbound before + 1 \<and> stat_outbound after2 = stat_outbound before - 1 \<and>
    p \<notin> connected_peers (bb_balancer bb1) \<and> p \<notin> connected_peers (bb_balancer bb2)"
  using assms(2)
  by (simp add: Let_def bb_established_inbound_def bb_established_outbound_def bb_record_event_def
      record_event_stats [OF assms(1)] bump_stats_def nat_add_distrib nat_diff_distrib' max_def)
    (simp add: balancer_record_event.simps)

theorem closed_connection_still_counted_witness:
  "let bb = \<lparr>bb_membership = sample_membership, bb_balancer = new_balancer 1 sample_membership sample_policy,
       peers_to_dial = []\<rparr>;
     bb1 = bb_connection_closed sorted_list_of_set Dialer 2 (bb_established_outbound sorted_list_of_set 2 bb) in
   stat_outbound (stats_of (bb_balancer bb1) 1) = 1 \<and> 2 \<notin> connected_peers (bb_balancer bb1)"
  using closed_connection_still_counted [of sorted_list_of_set 1 "\<lparr>bb_membership = sample_membership,
    bb_balancer = new_balancer 1 sample_membership sample_policy, peers_to_dial = []\<rparr>" 2]
  by (simp add: Let_def)

subsection \<open>The peers to dial\<close>

definition members_finite :: "('p, 'a) fill_from_node_list \<Rightarrow> bool" where
  "members_finite m \<longleftrightarrow> (\<forall>s \<in> set (v1_assignations m). finite s)"

definition missing_connections :: "('p, 'a) connection_balancer \<Rightarrow> u16 \<Rightarrow> nat" where
  "missing_connections b n = required_connections (bal_policy b) n - (stat_inbound (stats_of b n) + stat_outbound (stats_of b n))"

definition dial_candidates :: "('p, 'a) connection_balancer \<Rightarrow> u16 \<Rightarrow> 'p set" where
  "dial_candidates b n = {p. n \<in> v1_membership (bal_membership b) p \<and> p \<notin> connected_peers b \<and> p \<noteq> bal_local b}"

lemma peers_for_subnetwork_spec:
  assumes "v1_valid (bal_membership b)" and "members_finite (bal_membership b)" and "iterates iter" and "picks pick"
    and "n \<le> v1_last_subnetwork_id (bal_membership b)"
  shows "\<exists>ps. peers_for_subnetwork iter pick b n = Some ps \<and> distinct ps \<and> set ps \<subseteq> dial_candidates b n \<and>
    length ps = min (missing_connections b n) (card (dial_candidates b n))"
proof -
  let ?S = "{p. n \<in> v1_membership (bal_membership b) p}"
  let ?xs = "filter (\<lambda>p. p \<notin> connected_peers b \<and> p \<noteq> bal_local b) (iter ?S)"
  have S: "v1_members_of (bal_membership b) n = Some ?S" using v1.members_of_iff [OF assms(1,5)] .
  then have "?S \<in> set (v1_assignations (bal_membership b))"
    unfolding v1_members_of_def assigned_to_def by (metis nth_mem option.distinct(1) option.inject)
  then have "finite ?S" using assms(2) by (simp add: members_finite_def)
  then have xs: "set ?xs = dial_candidates b n" "distinct ?xs"
    using iterates_set [OF assms(3)] iterates_distinct [OF assms(3)] by (auto simp: dial_candidates_def)
  have "peers_for_subnetwork iter pick b n = Some (pick ?xs (missing_connections b n))"
    by (simp add: peers_for_subnetwork_def connection_number_deviation_def select_missing_peers_def S
        missing_connections_def)
  moreover have "card (dial_candidates b n) = length ?xs" using distinct_card [OF xs(2)] unfolding xs(1) .
  ultimately show ?thesis
    using assms(4) [unfolded picks_def, rule_format, OF xs(2), of "missing_connections b n"] unfolding xs(1)
    by (intro exI [of _ "pick ?xs (missing_connections b n)"]) simp
qed

text \<open>C30. A poll of the balancer returns, one subnetwork after the other, the peers it chose for it: for
  every subnetwork as many different peers as it lacks connections, or all there are when they are fewer,
  and only members of the subnetwork that are not connected and are not the node itself.\<close>

theorem balancer_dials_missing:
  assumes "v1_valid (bal_membership b)" and "members_finite (bal_membership b)" and "iterates iter" and "picks pick"
  shows "\<exists>chosen. balancer_poll iter pick True b =
      Some (concat (map (\<lambda>i. chosen (of_nat i)) [0..<Suc (unat (v1_last_subnetwork_id (bal_membership b)))])) \<and>
    (\<forall>n \<le> v1_last_subnetwork_id (bal_membership b). distinct (chosen n) \<and>
       (\<forall>p \<in> set (chosen n). n \<in> v1_membership (bal_membership b) p \<and> p \<notin> connected_peers b \<and> p \<noteq> bal_local b) \<and>
       length (chosen n) = min (missing_connections b n) (card (dial_candidates b n)))"
proof -
  let ?last = "v1_last_subnetwork_id (bal_membership b)"
  let ?ids = "[0..<Suc (unat ?last)]"
  define g where "g n = the (peers_for_subnetwork iter pick b n)" for n
  have g: "peers_for_subnetwork iter pick b n = Some (g n)" "distinct (g n)" "set (g n) \<subseteq> dial_candidates b n"
      "length (g n) = min (missing_connections b n) (card (dial_candidates b n))" if "n \<le> ?last" for n
    using peers_for_subnetwork_spec [OF assms that] by (auto simp: g_def)
  have "(of_nat i :: u16) \<le> ?last" if "i \<in> set ?ids" for i
  proof -
    have "i \<le> unat ?last" using that by auto
    moreover have "unat ?last < 65536" using unsigned_less [of ?last] by simp
    ultimately show ?thesis by (simp add: word_le_nat_alt u16_of_nat)
  qed
  then have "those (map (\<lambda>i. peers_for_subnetwork iter pick b (of_nat i)) ?ids) = Some (map (\<lambda>i. g (of_nat i)) ?ids)"
    using g(1) by (simp add: those_Some_iff del: upt_Suc)
  then have "balancer_poll iter pick True b = Some (concat (map (\<lambda>i. g (of_nat i)) ?ids))"
    by (simp add: balancer_poll_def del: upt_Suc)
  moreover have "n \<in> v1_membership (bal_membership b) p \<and> p \<notin> connected_peers b \<and> p \<noteq> bal_local b"
    if "n \<le> ?last" "p \<in> set (g n)" for n p
    using g(3) [OF that(1)] that(2) by (auto simp: dial_candidates_def)
  ultimately show ?thesis using g(2,4) by (intro exI [of _ g]) simp
qed

theorem balancer_dials_missing_witness:
  "\<exists>chosen. balancer_poll sorted_list_of_set (\<lambda>xs n. take n xs) True
     (new_balancer 1 sample_membership sample_policy) = Some (chosen 0 @ chosen (1 :: u16)) \<and>
     length (chosen 0) = 1 \<and> length (chosen 1) = 1 \<and> 1 \<notin> set (chosen 0) \<union> set (chosen 1)"
proof -
  let ?b = "new_balancer 1 sample_membership sample_policy"
  have member: "v1_membership sample_membership p = (if p = 1 then {0} else if p = 2 then {0, 1} else if p = 3 then {1} else {})"
    for p by (auto simp: sample_membership_def v1_membership_def assigned_networks_def)
  have cand: "dial_candidates ?b 0 = {2}" "dial_candidates ?b 1 = {2, 3}"
    by (auto simp: dial_candidates_def member split: if_splits)
  have miss: "missing_connections ?b 0 = 1" "missing_connections ?b 1 = 1"
    by (simp_all add: missing_connections_def) (simp_all add: new_balancer_def required_connections_def sample_policy_def
        sample_settings_def is_member_of_def)
  have "members_finite sample_membership" by (simp add: members_finite_def sample_membership_def)
  moreover have "picks (\<lambda>(xs :: nat list) n. take n xs)" by (auto simp: picks_def dest: in_set_takeD)
  ultimately obtain chosen where poll: "balancer_poll sorted_list_of_set (\<lambda>xs n. take n xs) True ?b = Some (chosen 0 @ chosen (1 :: u16))"
    and all: "\<forall>n \<le> 1. distinct (chosen n) \<and> (\<forall>p \<in> set (chosen n). n \<in> v1_membership sample_membership p \<and> p \<noteq> 1) \<and>
       length (chosen n) = min (missing_connections ?b n) (card (dial_candidates ?b n))"
    using balancer_dials_missing [of ?b sorted_list_of_set "\<lambda>xs n. take n xs"] by auto
  show ?thesis
    using poll all [rule_format, of 0] all [rule_format, of 1] cand miss by (intro exI [of _ chosen]) auto
qed

section \<open>Lemmas on the monitor\<close>

lemma fixed_mul_le:
  assumes "b \<le> 128"
  shows "unat (fixed_mul a b) \<le> unat a"
proof -
  have "unat b \<le> 128" using assms by (simp add: word_le_nat_alt)
  then have "unat a * unat b div 128 \<le> unat a * 128 div 128" by (intro div_le_mono mult_le_mono2)
  then have le: "unat a * unat b div 128 \<le> unat a" by simp
  have "unat a < 18446744073709551616" using unsigned_less [of a] by simp
  then have "unat a * unat b div 128 < 18446744073709551616" using le by (rule le_less_trans [rotated])
  then show ?thesis using le by (simp add: fixed_mul_def unat_of_nat)
qed

text \<open>What the decay relies on: an exponential of a negative number is at most one.\<close>

definition decays :: "(nat \<Rightarrow> nat \<Rightarrow> u57f7) \<Rightarrow> bool" where
  "decays decay \<longleftrightarrow> (\<forall>elapsed window. decay elapsed window \<le> fixed_one)"

lemma fixed_mul_one_le:
  assumes "a \<le> 128" and "b \<le> 128"
  shows "fixed_mul a b \<le> 128"
proof -
  have "unat (fixed_mul a b) \<le> unat a" by (rule fixed_mul_le [OF assms(2)])
  also have "\<dots> \<le> unat (128 :: u64)" using assms(1) by (simp add: word_le_nat_alt)
  finally show ?thesis by (simp only: word_le_nat_alt)
qed

lemma compute_failure_rate_le:
  assumes "decays decay" and "factor \<le> fixed_one"
  shows "unat (compute_failure_rate decay now t rate window factor) \<le> unat rate"
  using fixed_mul_le fixed_mul_one_le assms by (simp add: compute_failure_rate_def decays_def fixed_one_def Let_def)

lemma add_one_le: "unat (a + fixed_one) \<le> unat a + 128"
  by (simp add: fixed_one_def unat_word_ariths)

text \<open>The failures of a peer a history of events records, by protocol.\<close>

fun is_dispersal_failure :: "'p \<Rightarrow> nat \<times> 'p monitor_event \<Rightarrow> bool" where
  "is_dispersal_failure p (t, ExecutorDispersal e) \<longleftrightarrow> executor_error_peer e = Some p"
| "is_dispersal_failure p (t, ValidatorDispersal e) \<longleftrightarrow> validator_error_peer e = Some p"
| "is_dispersal_failure p _ \<longleftrightarrow> False"

fun is_sampling_failure :: "'p \<Rightarrow> nat \<times> 'p monitor_event \<Rightarrow> bool" where
  "is_sampling_failure p (t, Sampling e) \<longleftrightarrow> sampling_error_peer e = Some p"
| "is_sampling_failure p _ \<longleftrightarrow> False"

fun is_replication_failure :: "'p \<Rightarrow> nat \<times> 'p monitor_event \<Rightarrow> bool" where
  "is_replication_failure p (t, Replication e) \<longleftrightarrow> replication_error_peer e = Some p"
| "is_replication_failure p _ \<longleftrightarrow> False"

definition failures :: "('e \<Rightarrow> bool) \<Rightarrow> 'e list \<Rightarrow> nat" where
  "failures P es = length (filter P es)"

lemma failures_snoc: "failures P (es @ [e]) = failures P es + (if P e then 1 else 0)"
  by (simp add: failures_def)

definition peer_stats_of :: "'p connection_monitor \<Rightarrow> 'p \<Rightarrow> peer_stats" where
  "peer_stats_of m p = (case mon_peer_stats m p of Some st \<Rightarrow> st | None \<Rightarrow> default_peer_stats)"

definition rates_bounded :: "peer_stats \<Rightarrow> nat \<Rightarrow> nat \<Rightarrow> nat \<Rightarrow> bool" where
  "rates_bounded st d s r \<longleftrightarrow> unat (dispersal_failures_rate st) \<le> 128 * d \<and>
     unat (sampling_failures_rate st) \<le> 128 * s \<and> unat (replication_failures_rate st) \<le> 128 * r"

lemma rates_bounded_updated:
  assumes "rates_bounded st d s r" and "decays decay" and "factor \<le> fixed_one"
  shows "rates_bounded (get_updated_stats decay st now window factor) d s r"
  using assms(1) compute_failure_rate_le [OF assms(2,3)]
  by (simp add: rates_bounded_def get_updated_stats_def compute_dispersal_failure_rate_def
      compute_sampling_failure_rate_def compute_replication_failure_rate_def) (meson le_trans)

lemma rate_plus_one:
  assumes "unat rate \<le> 128 * k" and "decays decay" and "factor \<le> fixed_one"
  shows "unat (compute_failure_rate decay now t rate window factor + fixed_one) \<le> 128 + 128 * k"
proof -
  have "unat (compute_failure_rate decay now t rate window factor + fixed_one)
      \<le> unat (compute_failure_rate decay now t rate window factor) + 128" by (rule add_one_le)
  also have "\<dots> \<le> 128 + 128 * k" using compute_failure_rate_le [OF assms(2,3), of now t rate window] assms(1) by linarith
  finally show ?thesis .
qed

lemma record_failure_bounded:
  assumes "rates_bounded st d s r" and "decays decay" and "time_decay_factor cfg \<le> fixed_one"
    and "monitor_event_peer e = Some p"
  shows "rates_bounded (record_failure decay cfg now e st) (d + (if is_dispersal_failure p (t, e) then 1 else 0))
    (s + (if is_sampling_failure p (t, e) then 1 else 0)) (r + (if is_replication_failure p (t, e) then 1 else 0))"
  using assms rate_plus_one [OF _ assms(2,3)]
  by (cases e) (simp_all add: rates_bounded_def record_failure_def Let_def compute_dispersal_failure_rate_def
      compute_sampling_failure_rate_def compute_replication_failure_rate_def)

lemma monitor_record_event_fields [simp]:
  "mon_policy (fst (monitor_record_event decay now e m)) = mon_policy m"
  "mon_settings (fst (monitor_record_event decay now e m)) = mon_settings m"
  by (simp_all add: monitor_record_event_def Let_def split: option.splits)

lemma failure_names_peer:
  "is_dispersal_failure p (t, e) \<Longrightarrow> monitor_event_peer e = Some p"
  "is_sampling_failure p (t, e) \<Longrightarrow> monitor_event_peer e = Some p"
  "is_replication_failure p (t, e) \<Longrightarrow> monitor_event_peer e = Some p"
  by (cases e; simp)+

lemma monitor_event_bounded:
  assumes "rates_bounded (peer_stats_of m p) d s r" and "decays decay"
    and "time_decay_factor (mon_settings m) \<le> fixed_one"
  shows "rates_bounded (peer_stats_of (fst (monitor_record_event decay now e m)) p)
    (d + (if is_dispersal_failure p (t, e) then 1 else 0))
    (s + (if is_sampling_failure p (t, e) then 1 else 0)) (r + (if is_replication_failure p (t, e) then 1 else 0))"
proof (cases "monitor_event_peer e = Some p")
  case True
  have "peer_stats_of (fst (monitor_record_event decay now e m)) p
      = record_failure decay (mon_settings m) now e (peer_stats_of m p)"
    using True by (simp add: monitor_record_event_def peer_stats_of_def Let_def)
  then show ?thesis using record_failure_bounded [OF assms True] by simp
next
  case False
  have "peer_stats_of (fst (monitor_record_event decay now e m)) p = peer_stats_of m p"
    using False by (auto simp: monitor_record_event_def peer_stats_of_def Let_def split: option.splits)
  then show ?thesis using assms(1) failure_names_peer [of p t e] False by auto
qed

lemma bounded_healthy:
  assumes "rates_bounded (peer_stats_of m p) d s r" and "decays decay"
    and "time_decay_factor (mon_settings m) \<le> fixed_one"
    and "d < max_dispersal_failures (mon_policy m)" "s < max_sampling_failures (mon_policy m)"
      "r < max_replication_failures (mon_policy m)"
    and "d < malicious_threshold (mon_policy m)" "s < malicious_threshold (mon_policy m)"
      "r < malicious_threshold (mon_policy m)"
  shows "evaluate_peer decay m now p = Healthy"
proof (cases "mon_peer_stats m p")
  case None
  then show ?thesis by (simp add: evaluate_peer_def)
next
  case (Some st)
  let ?st = "get_updated_stats decay st now (failure_time_window (mon_settings m)) (time_decay_factor (mon_settings m))"
  have "rates_bounded st d s r" using assms(1) Some by (simp add: peer_stats_of_def)
  then have "rates_bounded ?st d s r" by (rule rates_bounded_updated [OF _ assms(2,3)])
  then have "\<not> is_peer_malicious (mon_policy m) ?st" "\<not> is_peer_unhealthy (mon_policy m) ?st"
    using assms(4-9) by (simp_all add: rates_bounded_def is_peer_malicious_def is_peer_unhealthy_def fixed_ge_def)
  then show ?thesis using Some by (simp add: evaluate_peer_def)
qed

lemma block_peer_sel [simp]:
  "malicious_peers (fst (block_peer p mb)) = insert p (malicious_peers mb)"
  "unhealthy_peers (fst (block_peer p mb)) = unhealthy_peers mb"
  "mb_monitor (fst (block_peer p mb)) = mb_monitor mb"
  by (auto simp: block_peer_def)

lemma temporarily_block_peer_sel [simp]:
  "malicious_peers (temporarily_block_peer now p mb) = malicious_peers mb"
  "unhealthy_peers (temporarily_block_peer now p mb) = (unhealthy_peers mb)(p \<mapsto> now + redial_cooldown mb)"
  "mb_monitor (temporarily_block_peer now p mb) = mb_monitor mb"
  by (simp_all add: temporarily_block_peer_def)

lemma monitor_output:
  "snd (monitor_record_event decay now e m) =
     map_option (\<lambda>p. (p, evaluate_peer decay (fst (monitor_record_event decay now e m)) now p)) (monitor_event_peer e)"
  by (simp add: monitor_record_event_def Let_def split: option.splits)

text \<open>An event touches the entries of the peer it names, and only when that peer is not healthy.\<close>

lemma mb_record_event_monitor [simp]:
  "mb_monitor (mb_record_event decay now e mb) = fst (monitor_record_event decay now e (mb_monitor mb))"
  by (auto simp: mb_record_event_def Let_def split: prod.splits option.splits peer_status.splits)

lemma mb_record_event_other:
  assumes "monitor_event_peer e \<noteq> Some p \<or>
    evaluate_peer decay (fst (monitor_record_event decay now e (mb_monitor mb))) now p = Healthy"
  shows "p \<in> malicious_peers (mb_record_event decay now e mb) \<longleftrightarrow> p \<in> malicious_peers mb"
    and "unhealthy_peers (mb_record_event decay now e mb) p = unhealthy_peers mb p"
proof -
  obtain m where m: "m = fst (monitor_record_event decay now e (mb_monitor mb))" by blast
  have out: "monitor_record_event decay now e (mb_monitor mb) =
      (m, map_option (\<lambda>p. (p, evaluate_peer decay m now p)) (monitor_event_peer e))"
    using monitor_output [of decay now e "mb_monitor mb"] unfolding m by (metis prod.collapse)
  have "(p \<in> malicious_peers (mb_record_event decay now e mb) \<longleftrightarrow> p \<in> malicious_peers mb) \<and>
      unhealthy_peers (mb_record_event decay now e mb) p = unhealthy_peers mb p"
  proof (cases "monitor_event_peer e")
    case None
    then show ?thesis using out by (simp add: mb_record_event_def)
  next
    case (Some q)
    then have out': "monitor_record_event decay now e (mb_monitor mb) = (m, Some (q, evaluate_peer decay m now q))"
      using out by simp
    show ?thesis
    proof (cases "evaluate_peer decay m now q")
      case Healthy
      then show ?thesis by (simp add: mb_record_event_def out')
    next
      case Unhealthy
      then have "q \<noteq> p" using assms Some m by auto
      then show ?thesis using Unhealthy by (simp add: mb_record_event_def out')
    next
      case Malicious
      then have "q \<noteq> p" using assms Some m by auto
      then show ?thesis using Malicious by (simp add: mb_record_event_def out')
    qed
  qed
  then show "p \<in> malicious_peers (mb_record_event decay now e mb) \<longleftrightarrow> p \<in> malicious_peers mb"
    and "unhealthy_peers (mb_record_event decay now e mb) p = unhealthy_peers mb p" by simp_all
qed

definition new_monitor_behaviour :: "'p connection_monitor \<Rightarrow> nat \<Rightarrow> 'p monitor_behaviour" where
  "new_monitor_behaviour m cooldown = \<lparr>mb_monitor = m, malicious_peers = {}, unhealthy_peers = Map.empty,
     close_connections = [], redial_cooldown = cooldown\<rparr>"

text \<open>
  Everything that happens to the behaviour: an event of the protocols, a poll with a command or
  without one, and a connection that is to be opened or was opened.
\<close>

datatype 'p monitor_op =
    Observe nat "'p monitor_event"
  | PollMonitor "'p monitor_command option"
  | Connecting nat "'p option"
  | Connected nat 'p

fun monitor_do ::
  "(nat \<Rightarrow> nat \<Rightarrow> u57f7) \<Rightarrow> ('p set \<Rightarrow> 'p list) \<Rightarrow> 'p monitor_op \<Rightarrow> 'p monitor_behaviour \<Rightarrow> 'p monitor_behaviour" where
  "monitor_do decay iter (Observe now e) mb = mb_record_event decay now e mb"
| "monitor_do decay iter (PollMonitor cmd) mb = fst (mb_poll iter cmd mb)"
| "monitor_do decay iter (Connecting now p) mb = fst (pending_outbound_connection now p mb)"
| "monitor_do decay iter (Connected now p) mb = fst (enforce now p mb)"

text \<open>The events of a run, and whether the last command about a peer was to block it.\<close>

fun observed :: "'p monitor_op \<Rightarrow> (nat \<times> 'p monitor_event) list" where
  "observed (Observe now e) = [(now, e)]"
| "observed _ = []"

fun ordered_block :: "'p \<Rightarrow> 'p monitor_op \<Rightarrow> bool \<Rightarrow> bool" where
  "ordered_block p (PollMonitor (Some (Block q))) b = (b \<or> q = p)"
| "ordered_block p (PollMonitor (Some (Unblock q))) b = (b \<and> q \<noteq> p)"
| "ordered_block p _ b = b"

text \<open>A peer whose rates are bounded and that is only denied by order.\<close>

definition only_ordered ::
  "monitor_settings \<Rightarrow> policy_settings \<Rightarrow> 'p \<Rightarrow> (nat \<times> 'p monitor_event) list \<Rightarrow> bool \<Rightarrow> 'p monitor_behaviour \<Rightarrow> bool" where
  "only_ordered cfg pol p es blocked mb \<longleftrightarrow>
     mon_settings (mb_monitor mb) = cfg \<and> mon_policy (mb_monitor mb) = pol \<and>
     rates_bounded (peer_stats_of (mb_monitor mb) p) (failures (is_dispersal_failure p) es)
       (failures (is_sampling_failure p) es) (failures (is_replication_failure p) es) \<and>
     (p \<in> malicious_peers mb \<longleftrightarrow> blocked) \<and> unhealthy_peers mb p = None"

lemma observe_only_ordered:
  assumes "decays decay" and "time_decay_factor cfg \<le> fixed_one"
    and "failures (is_dispersal_failure p) (es @ [(t, e)]) < min (max_dispersal_failures pol) (malicious_threshold pol)"
    and "failures (is_sampling_failure p) (es @ [(t, e)]) < min (max_sampling_failures pol) (malicious_threshold pol)"
    and "failures (is_replication_failure p) (es @ [(t, e)]) < min (max_replication_failures pol) (malicious_threshold pol)"
    and "only_ordered cfg pol p es blocked mb"
  shows "only_ordered cfg pol p (es @ [(t, e)]) blocked (mb_record_event decay t e mb)"
proof -
  have mb: "mon_settings (mb_monitor mb) = cfg" "mon_policy (mb_monitor mb) = pol"
    "rates_bounded (peer_stats_of (mb_monitor mb) p) (failures (is_dispersal_failure p) es)
       (failures (is_sampling_failure p) es) (failures (is_replication_failure p) es)"
    "p \<in> malicious_peers mb \<longleftrightarrow> blocked" "unhealthy_peers mb p = None"
    using assms(6) by (simp_all add: only_ordered_def)
  let ?m = "fst (monitor_record_event decay t e (mb_monitor mb))"
  have bnd: "rates_bounded (peer_stats_of ?m p) (failures (is_dispersal_failure p) (es @ [(t, e)]))
      (failures (is_sampling_failure p) (es @ [(t, e)])) (failures (is_replication_failure p) (es @ [(t, e)]))"
    unfolding failures_snoc using monitor_event_bounded [OF mb(3) assms(1)] mb(1) assms(2) by simp
  have "evaluate_peer decay ?m t p = Healthy"
    by (rule bounded_healthy [OF bnd assms(1)]) (use mb(1,2) assms(2-5) in simp_all)
  then show ?thesis
    using mb_record_event_other [of e p decay t mb] bnd mb unfolding only_ordered_def by simp
qed

lemma mb_poll_only_ordered:
  assumes "only_ordered cfg pol p es blocked mb"
  shows "only_ordered cfg pol p es (ordered_block p (PollMonitor cmd) blocked) (fst (mb_poll iter cmd mb))"
proof (cases cmd)
  case None
  then show ?thesis using assms by (auto simp: mb_poll_def only_ordered_def split: list.splits)
next
  case (Some c)
  then show ?thesis using assms
    by (cases c) (auto simp: mb_poll_def mb_command_def block_peer_def unblock_peer_def only_ordered_def
        split: list.splits)
qed

lemma enforce_only_ordered:
  assumes "only_ordered cfg pol p es blocked mb"
  shows "only_ordered cfg pol p es blocked (fst (enforce now q mb))"
    and "snd (enforce now p mb) = (if blocked then Inl (Blocked p) else Inr ())"
  using assms by (simp_all add: only_ordered_def enforce_def Let_def)

text \<open>C31. A peer that has failed less often, over the whole run and in each of the three protocols, than both the
  limit of that protocol and the malicious threshold is denied a connection exactly when it was told so: when the
  last command about it was to block it. The decay, whose factor is at most one, can only lower the rate, the fixed-point
  arithmetic never raises it above the number of failures, and the failures of other peers do not count.\<close>

theorem monitor_no_false_alarm:
  assumes "decays decay" and "time_decay_factor cfg \<le> fixed_one"
    and "failures (is_dispersal_failure p) (concat (map observed ops)) <
      min (max_dispersal_failures pol) (malicious_threshold pol)"
    and "failures (is_sampling_failure p) (concat (map observed ops)) <
      min (max_sampling_failures pol) (malicious_threshold pol)"
    and "failures (is_replication_failure p) (concat (map observed ops)) <
      min (max_replication_failures pol) (malicious_threshold pol)"
  shows "snd (enforce now p (fold (monitor_do decay iter) ops (new_monitor_behaviour (new_monitor cfg pol) cooldown))) =
    (if fold (ordered_block p) ops False then Inl (Blocked p) else Inr ())"
proof -
  let ?mb = "\<lambda>ops. fold (monitor_do decay iter) ops (new_monitor_behaviour (new_monitor cfg pol) cooldown)"
  have "only_ordered cfg pol p (concat (map observed ops)) (fold (ordered_block p) ops False) (?mb ops)"
    using assms(3-5)
  proof (induction ops rule: rev_induct)
    case Nil
    then show ?case by (simp add: only_ordered_def new_monitor_behaviour_def new_monitor_def peer_stats_of_def
          default_peer_stats_def rates_bounded_def failures_def)
  next
    case (snoc x ops)
    have IH: "only_ordered cfg pol p (concat (map observed ops)) (fold (ordered_block p) ops False) (?mb ops)"
      using snoc.IH snoc.prems by (simp add: failures_def)
    show ?case
    proof (cases x)
      case (Observe t e)
      then show ?thesis using observe_only_ordered [OF assms(1,2) _ _ _ IH] snoc.prems by simp
    next
      case (PollMonitor cmd)
      then show ?thesis using mb_poll_only_ordered [OF IH] by simp
    next
      case (Connecting t q)
      then show ?thesis using IH enforce_only_ordered(1) [OF IH]
        by (cases q) (simp_all add: pending_outbound_connection_def)
    next
      case (Connected t q)
      then show ?thesis using enforce_only_ordered(1) [OF IH] by simp
    qed
  qed
  then show ?thesis by (rule enforce_only_ordered(2))
qed

theorem monitor_no_false_alarm_witness:
  "let run = \<lambda>ops. fold (monitor_do (\<lambda>elapsed window. 64) sorted_list_of_set) ops
       (new_monitor_behaviour (new_monitor \<lparr>failure_time_window = 10, time_decay_factor = 100\<rparr> sample_settings) 5) in
   snd (enforce 9 7 (run [Observe 1 (Sampling (SamplingIo (7 :: nat))), PollMonitor (Some (Block 8)),
     Observe 2 (Replication (ReplicationIo 8)), Connected 3 7])) = Inr () \<and>
   snd (enforce 9 7 (run [Observe 1 (Sampling (SamplingIo 7)), PollMonitor (Some (Block 7))])) = Inl (Blocked 7)"
proof -
  let ?cfg = "\<lparr>failure_time_window = 10, time_decay_factor = 100\<rparr>"
  let ?one = "[Observe 1 (Sampling (SamplingIo (7 :: nat))), PollMonitor (Some (Block 8)),
    Observe 2 (Replication (ReplicationIo 8)), Connected 3 7]"
  let ?two = "[Observe 1 (Sampling (SamplingIo (7 :: nat))), PollMonitor (Some (Block 7))]"
  let ?run = "\<lambda>ops. fold (monitor_do (\<lambda>elapsed window. 64) sorted_list_of_set) ops
    (new_monitor_behaviour (new_monitor ?cfg sample_settings) 5)"
  have "snd (enforce 9 7 (?run ?one)) = (if fold (ordered_block 7) ?one False then Inl (Blocked 7) else Inr ())"
    by (rule monitor_no_false_alarm) (simp_all add: decays_def fixed_one_def sample_settings_def failures_def)
  moreover have "snd (enforce 9 7 (?run ?two)) = (if fold (ordered_block 7) ?two False then Inl (Blocked 7) else Inr ())"
    by (rule monitor_no_false_alarm) (simp_all add: decays_def fixed_one_def sample_settings_def failures_def)
  moreover have "\<not> fold (ordered_block 7) ?one False" "fold (ordered_block 7) ?two False" by simp_all
  ultimately show ?thesis unfolding Let_def by (simp only: if_True if_False simp_thms)
qed

text \<open>Unblocking a peer that is both on the block list and temporarily blocked reports success and takes it
  off the block list, but the temporary block stays: until the cool-down ends the next connection to the peer
  is still denied, and only a second command lifts it.\<close>

theorem unblock_keeps_temporary_block:
  assumes "p \<in> malicious_peers mb" and "unhealthy_peers mb p = Some until" and "now \<le> until"
  shows "snd (unblock_peer p mb) \<and> p \<notin> malicious_peers (fst (unblock_peer p mb)) \<and>
    snd (enforce now p (fst (unblock_peer p mb))) = Inl (TemporarilyBlocked p) \<and>
    snd (enforce now p (fst (unblock_peer p (fst (unblock_peer p mb))))) = Inr ()"
  using assms by (simp add: unblock_peer_def enforce_def Let_def)

theorem unblock_keeps_temporary_block_witness:
  "let mb = fst (block_peer 7 (temporarily_block_peer 3 (7 :: nat)
       (new_monitor_behaviour (new_monitor \<lparr>failure_time_window = 10, time_decay_factor = 100\<rparr> sample_settings) 5))) in
   snd (unblock_peer 7 mb) \<and> snd (enforce 4 7 (fst (unblock_peer 7 mb))) = Inl (TemporarilyBlocked 7)"
  using unblock_keeps_temporary_block [of 7 "fst (block_peer 7 (temporarily_block_peer 3 (7 :: nat)
       (new_monitor_behaviour (new_monitor \<lparr>failure_time_window = 10, time_decay_factor = 100\<rparr> sample_settings) 5)))" 8 4]
  by (simp add: Let_def new_monitor_behaviour_def temporarily_block_peer_def block_peer_def)

end
