(* ===== verification/Da_Messages.thy ===== *)
theory Da_Messages
  imports Prelude
begin

text \<open>
  The messages of the data availability protocols and their framing on a stream,
  \<open>nomos-da/network/messages/src\<close>. Serialisation (\<open>wire::serialize\<close>, which wraps a third-party format) and the
  shares are parameters. A frame is a length of two bytes, most significant first, followed by the
  serialised message; a reader is the list of bytes that are still to come, a writer is a parameter.
\<close>

section \<open>Messages\<close>

record 's share_message =
  sm_blob_id :: bytes
  sm_data :: 's

record 's dispersal_request =
  dr_share :: "'s share_message"
  dr_subnetwork_id :: u16

record 's replication_request =
  rr_share :: "'s share_message"
  rr_subnetwork_id :: u16

datatype dispersal_error_type = ChunkSize | Verification

record dispersal_error =
  de_blob_id :: bytes
  de_error_type :: dispersal_error_type
  de_error_description :: string

datatype dispersal_response = DispersedBlobId bytes | DispersedError dispersal_error

text \<open>\<open>ReplicationResponseId\<close>: an array of 34 zeros of which the first 32 and the last two bytes are
  overwritten.\<close>

definition replication_response_id :: "bytes \<Rightarrow> u16 \<Rightarrow> bytes" where
  "replication_response_id blob_id subnetwork_id = take 32 blob_id @ be_bytes 2 subnetwork_id"

definition replication_request_id :: "'s replication_request \<Rightarrow> bytes" where
  "replication_request_id m = replication_response_id (sm_blob_id (rr_share m)) (rr_subnetwork_id m)"

section \<open>Packing\<close>

definition MAX_MSG_LEN_BYTES :: nat where "MAX_MSG_LEN_BYTES = 2"

definition MAX_MSG_LEN :: nat where "MAX_MSG_LEN = 2 ^ (MAX_MSG_LEN_BYTES * 8)"

datatype 'e io_error = UnexpectedEof | MessageTooLarge nat | WireError 'e | WriteError

definition pack :: "('m \<Rightarrow> 'e + bytes) \<Rightarrow> 'm \<Rightarrow> 'e io_error + bytes" where
  "pack serialize m = (case serialize m of Inl e \<Rightarrow> Inl (WireError e) | Inr b \<Rightarrow> Inr b)"

definition get_packed_message_size :: "bytes \<Rightarrow> 'e io_error + nat" where
  "get_packed_message_size packed =
     (if MAX_MSG_LEN < length packed then Inl (MessageTooLarge (length packed)) else Inr (length packed))"

definition prepare_message_for_writer :: "bytes \<Rightarrow> 'e io_error + bytes" where
  "prepare_message_for_writer packed =
     (case get_packed_message_size packed of
        Inl e \<Rightarrow> Inl e
      | Inr n \<Rightarrow> Inr (be_bytes MAX_MSG_LEN_BYTES (of_nat n :: u16) @ packed))"

definition pack_to_writer ::
  "('m \<Rightarrow> 'e + bytes) \<Rightarrow> ('w \<Rightarrow> bytes \<Rightarrow> 'e io_error + 'w) \<Rightarrow> 'm \<Rightarrow> 'w \<Rightarrow> 'e io_error + 'w" where
  "pack_to_writer serialize write_all m w =
     (case pack serialize m of
        Inl e \<Rightarrow> Inl e
      | Inr packed \<Rightarrow>
          (case prepare_message_for_writer packed of
             Inl e \<Rightarrow> Inl e
           | Inr buffer \<Rightarrow> write_all w buffer))"

definition read_exact :: "nat \<Rightarrow> bytes \<Rightarrow> 'e io_error + bytes \<times> bytes" where
  "read_exact n r = (if n \<le> length r then Inr (take n r, drop n r) else Inl UnexpectedEof)"

definition from_be_bytes :: "bytes \<Rightarrow> u16" where
  "from_be_bytes bs = of_nat (foldl (\<lambda>acc b. acc * 256 + unat b) 0 bs)"

definition read_data_length :: "bytes \<Rightarrow> 'e io_error + nat \<times> bytes" where
  "read_data_length r =
     (case read_exact MAX_MSG_LEN_BYTES r of
        Inl e \<Rightarrow> Inl e
      | Inr (len, r') \<Rightarrow> Inr (unat (from_be_bytes len), r'))"

definition unpack :: "(bytes \<Rightarrow> 'e + 'm) \<Rightarrow> bytes \<Rightarrow> 'e io_error + 'm" where
  "unpack deserialize data = (case deserialize data of Inl e \<Rightarrow> Inl (WireError e) | Inr m \<Rightarrow> Inr m)"

definition unpack_from_reader :: "(bytes \<Rightarrow> 'e + 'm) \<Rightarrow> bytes \<Rightarrow> 'e io_error + 'm \<times> bytes" where
  "unpack_from_reader deserialize r =
     (case read_data_length r of
        Inl e \<Rightarrow> Inl e
      | Inr (n, r') \<Rightarrow>
          (case read_exact n r' of
             Inl e \<Rightarrow> Inl e
           | Inr (data, r'') \<Rightarrow>
               (case unpack deserialize data of Inl e \<Rightarrow> Inl e | Inr m \<Rightarrow> Inr (m, r''))))"

section \<open>Properties\<close>

text \<open>What is relied on of the serialisation: a message can be read back from its bytes.\<close>

definition wire_inverse :: "('m \<Rightarrow> 'e + bytes) \<Rightarrow> (bytes \<Rightarrow> 'e + 'm) \<Rightarrow> bool" where
  "wire_inverse serialize deserialize \<longleftrightarrow> (\<forall>m b. serialize m = Inr b \<longrightarrow> deserialize b = Inr m)"

text \<open>A stream that takes every byte, and the messages of a stream one after the other.\<close>

definition append_writer :: "bytes \<Rightarrow> bytes \<Rightarrow> 'e io_error + bytes" where
  "append_writer w b = Inr (w @ b)"

fun pack_all :: "('m \<Rightarrow> 'e + bytes) \<Rightarrow> 'm list \<Rightarrow> bytes \<Rightarrow> 'e io_error + bytes" where
  "pack_all serialize [] w = Inr w"
| "pack_all serialize (m # ms) w =
     (case pack_to_writer serialize append_writer m w of Inl e \<Rightarrow> Inl e | Inr w' \<Rightarrow> pack_all serialize ms w')"

fun unpack_many :: "(bytes \<Rightarrow> 'e + 'm) \<Rightarrow> nat \<Rightarrow> bytes \<Rightarrow> 'e io_error + 'm list \<times> bytes" where
  "unpack_many deserialize 0 r = Inr ([], r)"
| "unpack_many deserialize (Suc n) r =
     (case unpack_from_reader deserialize r of
        Inl e \<Rightarrow> Inl e
      | Inr (m, r') \<Rightarrow> (case unpack_many deserialize n r' of Inl e \<Rightarrow> Inl e | Inr (ms, r'') \<Rightarrow> Inr (m # ms, r'')))"

lemma from_be_bytes_be_bytes [simp]: "from_be_bytes (be_bytes 2 w) = (w :: u16)"
proof -
  have "unat w < 65536" using unsigned_less [of w] by simp
  then have "unat w div 256 < 256" by simp
  then have "unat (ucast (drop_bit 8 w) :: u8) = unat w div 256"
    by (simp add: unsigned_ucast_eq unsigned_drop_bit_eq take_bit_eq_mod drop_bit_eq_div unat_div_distrib)
  moreover have "unat (ucast w :: u8) = unat w mod 256" by (simp add: unsigned_ucast_eq take_bit_eq_mod)
  ultimately show ?thesis
    by (simp add: from_be_bytes_def be_bytes_def le_bytes_def numeral_2_eq_2)
qed

lemma read_frame:
  assumes "length b < 65536"
  shows "unpack_from_reader deserialize (be_bytes 2 (of_nat (length b) :: u16) @ b @ rest) =
    (case unpack deserialize b of Inl e \<Rightarrow> Inl e | Inr m \<Rightarrow> Inr (m, rest))"
proof -
  have "unat (of_nat (length b) :: u16) = length b" using assms by (simp add: unat_of_nat)
  then show ?thesis
    by (simp add: unpack_from_reader_def read_data_length_def read_exact_def MAX_MSG_LEN_BYTES_def)
qed

lemma pack_append:
  assumes "serialize m = Inr b"
  shows "pack_to_writer serialize append_writer m w =
    (if 65536 < length b then Inl (MessageTooLarge (length b))
     else Inr (w @ be_bytes 2 (of_nat (length b) :: u16) @ b))"
  using assms by (simp add: pack_to_writer_def pack_def prepare_message_for_writer_def get_packed_message_size_def
      append_writer_def MAX_MSG_LEN_def MAX_MSG_LEN_BYTES_def)

text \<open>Messages that serialise to fewer than 65536 bytes, written one after the other to a stream, are read back
  from it in the same order, and what follows them on the stream is left untouched.\<close>

theorem packing_roundtrip:
  assumes "wire_inverse serialize deserialize"
    and "\<And>m. m \<in> set ms \<Longrightarrow> \<exists>b. serialize m = Inr b \<and> length b < 65536"
  shows "\<exists>frames. pack_all serialize ms w = Inr (w @ frames) \<and>
    unpack_many deserialize (length ms) (frames @ rest) = Inr (ms, rest)"
  using assms(2)
proof (induction ms arbitrary: w)
  case Nil
  then show ?case by (intro exI [of _ "[]"]) simp
next
  case (Cons m ms)
  obtain b where b: "serialize m = Inr b" "length b < 65536" using Cons.prems [of m] by auto
  let ?frame = "be_bytes 2 (of_nat (length b) :: u16) @ b"
  have pk: "pack_to_writer serialize append_writer m w = Inr (w @ ?frame)" using pack_append [of serialize m b w] b by simp
  obtain frames where f: "pack_all serialize ms (w @ ?frame) = Inr ((w @ ?frame) @ frames)"
      "unpack_many deserialize (length ms) (frames @ rest) = Inr (ms, rest)"
    using Cons.IH [of "w @ ?frame"] Cons.prems by auto
  have "unpack deserialize b = Inr m" using assms(1) b(1) by (simp add: wire_inverse_def unpack_def)
  then have "unpack_from_reader deserialize ((?frame @ frames) @ rest) = Inr (m, frames @ rest)"
    using read_frame [OF b(2), of deserialize "frames @ rest"] by simp
  then show ?case using pk f by (intro exI [of _ "?frame @ frames"]) simp
qed

theorem packing_roundtrip_witness:
  "\<exists>frames. pack_all (\<lambda>m. Inr [m, m]) [3, 4 :: u8] [] = (Inr ([] @ frames) :: unit io_error + bytes) \<and>
     unpack_many (\<lambda>b. Inr (hd b)) (length [3, 4 :: u8]) (frames @ [9]) = (Inr ([3, 4], [9]) :: unit io_error + _)"
  by (rule packing_roundtrip) (simp_all add: wire_inverse_def)

text \<open>A message that serialises to exactly 65536 bytes passes the size check, but its length wraps to zero
  in the two bytes of the prefix. The reader decodes an empty message and takes the serialised message
  for the next frame. Only longer messages are refused.\<close>

theorem packing_limit_wraps:
  assumes "serialize m = Inr b" and "length b = 65536"
  shows "pack_to_writer serialize append_writer m w = Inr (w @ [0, 0] @ b) \<and>
    unpack_from_reader deserialize ([0, 0] @ b) =
      (case deserialize [] of Inl e \<Rightarrow> Inl (WireError e) | Inr m' \<Rightarrow> Inr (m', b))"
proof -
  have z: "be_bytes 2 (0 :: u16) = [0, 0]" by (simp add: be_bytes_def le_bytes_def numeral_2_eq_2)
  have "(65536 :: u16) = 0" by (simp add: word_eq_iff_unsigned)
  then have "be_bytes 2 (65536 :: u16) = [0, 0]" using z by (simp only:)
  then have "pack_to_writer serialize append_writer m w = Inr (w @ [0, 0] @ b)"
    using pack_append [of serialize m b w] assms z by simp
  moreover have "unpack_from_reader deserialize ([0, 0] @ b) =
      (case unpack deserialize [] of Inl e \<Rightarrow> Inl e | Inr m' \<Rightarrow> Inr (m', b))"
    using read_frame [of "[]" deserialize b] z by simp
  ultimately show ?thesis by (simp add: unpack_def split: sum.splits)
qed

theorem packing_limit_wraps_witness:
  "unpack_from_reader (\<lambda>b. Inr (length b)) ([0, 0] @ replicate 65536 7) = (Inr (0, replicate 65536 7) :: unit io_error + _)"
proof -
  have "unpack_from_reader (\<lambda>b. Inr (length b)) ([0, 0] @ replicate 65536 7) =
      (case Inr (length ([] :: bytes)) of Inl e \<Rightarrow> Inl (WireError e) | Inr m' \<Rightarrow> (Inr (m', replicate 65536 7) :: unit io_error + _))"
    by (rule packing_limit_wraps [of "\<lambda>m. Inr (replicate m 7)" 65536 "replicate 65536 7" "[]", THEN conjunct2])
      (rule refl, rule length_replicate)
  then show ?thesis by (simp only: sum.case list.size)
qed

text \<open>Messages of different blobs or subnetworks have different identifiers.\<close>

lemma replication_response_id_inject:
  assumes "length b = 32" and "length b' = 32"
  shows "replication_response_id b n = replication_response_id b' n' \<longleftrightarrow> b = b' \<and> n = n'"
  using assms be_bytes_inject [of 2 n n'] by (auto simp: replication_response_id_def)

end
