(* ===== verification/Da_Replication.thy ===== *)
theory Da_Replication
  imports Da_Connections Da_Messages "HOL-Library.AList"
begin

text \<open>
  The replication protocol of the data availability network,
  \<open>nomos-da/network/core/src/protocols/replication/behaviour.rs\<close>: shares received from a peer or handed in by the node
  are queued for every connected member of their subnetwork and written to the peers' streams, one message per
  peer at a time. Futures are lists of tasks; which task ends, and how its reads and writes end, are
  arguments of a poll, as are the streams the network opens. The cache of seen messages
  (\<open>TimedSizedCache\<close>) is a parameter. An index map keeps insertion order and is an association list; a panic is
  \<open>None\<close>.
\<close>

section \<open>Pending messages\<close>

record ('p, 'm) pending_outbound =
  po_messages :: "('p \<times> 'm list) list"
  po_last_scheduled :: "'p option"

definition po_default :: "('p, 'm) pending_outbound" where
  "po_default = \<lparr>po_messages = [], po_last_scheduled = None\<rparr>"

definition enqueue_message :: "'p \<Rightarrow> 'm \<Rightarrow> ('p, 'm) pending_outbound \<Rightarrow> ('p, 'm) pending_outbound" where
  "enqueue_message p m po =
     po\<lparr>po_messages := AList.update p
          ((case map_of (po_messages po) p of Some q \<Rightarrow> q | None \<Rightarrow> []) @ [m]) (po_messages po)\<rparr>"

text \<open>The left summand is \<open>PeerNotFound\<close>.\<close>

definition dequeue_message :: "'p \<Rightarrow> ('p, 'm) pending_outbound \<Rightarrow> unit + ('p, 'm) pending_outbound \<times> 'm option" where
  "dequeue_message p po =
     (case map_of (po_messages po) p of
        None \<Rightarrow> Inl ()
      | Some [] \<Rightarrow> Inr (po, None)
      | Some (m # q) \<Rightarrow> Inr (po\<lparr>po_messages := AList.update p q (po_messages po)\<rparr>, Some m))"

fun get_index_of :: "'k \<Rightarrow> ('k \<times> 'v) list \<Rightarrow> nat option" where
  "get_index_of k [] = None"
| "get_index_of k ((k', v) # xs) = (if k' = k then Some 0 else map_option Suc (get_index_of k xs))"

definition find_schedulable :: "('p \<Rightarrow> bool) \<Rightarrow> ('p \<times> 'm list) list \<Rightarrow> 'p option" where
  "find_schedulable idle ms = map_option fst (find (\<lambda>(p, q). q \<noteq> [] \<and> idle p) ms)"

definition next_peer :: "'p option \<Rightarrow> ('p \<times> 'm list) list \<Rightarrow> ('p \<Rightarrow> bool) \<Rightarrow> 'p option option" where
  "next_peer previous ms idle =
     (case previous of
        Some prev \<Rightarrow>
          (case get_index_of prev ms of
             None \<Rightarrow> None
           | Some i \<Rightarrow> Some (find_schedulable idle (drop (i + 1) ms @ take (i + 1) ms)))
      | None \<Rightarrow> Some (find_schedulable idle ms))"

definition po_next_peer ::
  "('p \<Rightarrow> bool) \<Rightarrow> ('p, 'm) pending_outbound \<Rightarrow> (('p, 'm) pending_outbound \<times> 'p option) option" where
  "po_next_peer idle po =
     map_option (\<lambda>next. (po\<lparr>po_last_scheduled := next\<rparr>, next))
       (next_peer (po_last_scheduled po) (po_messages po) idle)"

definition on_disconnected :: "('p \<times> 'q) list \<Rightarrow> 'p option \<Rightarrow> 'p \<Rightarrow> (('p \<times> 'q) list \<times> 'p option) option" where
  "on_disconnected ms last_scheduled disconnected =
     (let ms' = AList.delete disconnected ms in
      case last_scheduled of
        None \<Rightarrow> Some (ms', None)
      | Some p \<Rightarrow>
          (case get_index_of p ms of
             None \<Rightarrow> None
           | Some i \<Rightarrow>
               Some (ms',
                 if p = disconnected
                 then (if i = 0 then (if ms' = [] then None else Some (fst (last ms')))
                       else if i - 1 < length ms' then Some (fst (ms' ! (i - 1))) else None)
                 else None)))"

definition po_on_disconnected :: "'p \<Rightarrow> ('p, 'm) pending_outbound \<Rightarrow> ('p, 'm) pending_outbound option" where
  "po_on_disconnected p po =
     map_option (\<lambda>(ms, l). \<lparr>po_messages = ms, po_last_scheduled = l\<rparr>)
       (on_disconnected (po_messages po) (po_last_scheduled po) p)"

section \<open>The behaviour\<close>

datatype write_half = Idle | Busy

datatype ('p, 'm) outbound_task = WriteTask 'p 'm | OpenTask 'p 'm

text \<open>How the input and output of a task end.\<close>

record task_io =
  open_ok :: bool
  pack_ok :: bool
  flush_ok :: bool

record 'c seen_cache_ops =
  cache_get :: "'c \<Rightarrow> bytes \<Rightarrow> bool \<times> 'c"
  cache_set :: "'c \<Rightarrow> bytes \<Rightarrow> 'c"

record ('p, 'a, 's, 'c) replication_behaviour =
  rb_local :: 'p
  rb_membership :: "('p, 'a) fill_from_node_list"
  rb_connected :: "'p set"
  rb_pending :: "('p, 's replication_request) pending_outbound"
  rb_streams :: "'p \<rightharpoonup> write_half"
  rb_outbound_tasks :: "('p, 's replication_request) outbound_task list"
  rb_incoming_tasks :: "'p list"
  rb_new_read_halves :: "'p list"
  rb_seen :: 'c

definition new_replication :: "'c \<Rightarrow> 'p \<Rightarrow> ('p, 'a) fill_from_node_list \<Rightarrow> ('p, 'a, 's, 'c) replication_behaviour" where
  "new_replication cache p m = \<lparr>rb_local = p, rb_membership = m, rb_connected = {}, rb_pending = po_default,
     rb_streams = Map.empty, rb_outbound_tasks = [], rb_incoming_tasks = [], rb_new_read_halves = [], rb_seen = cache\<rparr>"

definition rb_update_membership ::
  "('p, 'a) fill_from_node_list \<Rightarrow> ('p, 'a, 's, 'c) replication_behaviour \<Rightarrow> ('p, 'a, 's, 'c) replication_behaviour" where
  "rb_update_membership m st = st\<lparr>rb_membership := m\<rparr>"

definition is_neighbour :: "('p, 'a, 's, 'c) replication_behaviour \<Rightarrow> 'p \<Rightarrow> bool" where
  "is_neighbour st p \<longleftrightarrow>
     v1_membership (rb_membership st) (rb_local st) \<inter> v1_membership (rb_membership st) p \<noteq> {}"

definition no_loopback_member_peers_of :: "('p, 'a, 's, 'c) replication_behaviour \<Rightarrow> u16 \<Rightarrow> 'p set option" where
  "no_loopback_member_peers_of st n =
     map_option (\<lambda>peers. peers - {rb_local st}) (v1_members_of (rb_membership st) n)"

definition send_message ::
  "'c seen_cache_ops \<Rightarrow> ('p set \<Rightarrow> 'p list) \<Rightarrow> 's replication_request \<Rightarrow> ('p, 'a, 's, 'c) replication_behaviour \<Rightarrow>
     ('p, 'a, 's, 'c) replication_behaviour option" where
  "send_message ops iter m st =
     (let (seen, c) = cache_get ops (rb_seen st) (replication_request_id m) in
      if seen then Some (st\<lparr>rb_seen := c\<rparr>)
      else map_option (\<lambda>peers.
          st\<lparr>rb_seen := cache_set ops c (replication_request_id m),
             rb_pending := fold (\<lambda>p. enqueue_message p m)
               (filter (\<lambda>p. p \<in> peers) (iter (rb_connected st))) (rb_pending st)\<rparr>)
        (no_loopback_member_peers_of st (rr_subnetwork_id m)))"

definition try_open_stream :: "'p \<Rightarrow> task_io \<Rightarrow> ('p replication_error, unit) outcome" where
  "try_open_stream p io = (if open_ok io then Ok () else Err (ReplicationOpenStream p))"

definition try_write_message :: "'p \<Rightarrow> task_io \<Rightarrow> ('p replication_error, 'p) outcome" where
  "try_write_message p io =
     (if \<not> pack_ok io then Abort else if \<not> flush_ok io then Err (ReplicationIo p) else Ok p)"

text \<open>A task that opens a stream hands its read half over before it writes.\<close>

fun run_task :: "('p, 'm) outbound_task \<Rightarrow> task_io \<Rightarrow> 'p list \<times> ('p replication_error, 'p) outcome" where
  "run_task (WriteTask p m) io = ([], try_write_message p io)"
| "run_task (OpenTask p m) io =
     (if open_ok io then [p] else [], bind_outcome (try_open_stream p io) (\<lambda>_. try_write_message p io))"

definition remove_nth :: "nat \<Rightarrow> 'x list \<Rightarrow> 'x list" where
  "remove_nth i xs = take i xs @ drop (i + 1) xs"

datatype ('p, 's) replication_event = IncomingMessage 'p "'s replication_request" | ReplicationError "'p replication_error"

text \<open>The result of the \<open>i\<close>-th reading task: an error of the stream or a message.\<close>

definition poll_incoming_tasks ::
  "'c seen_cache_ops \<Rightarrow> ('p set \<Rightarrow> 'p list) \<Rightarrow> (nat \<times> (unit + 's replication_request)) option \<Rightarrow>
     ('p, 'a, 's, 'c) replication_behaviour \<Rightarrow>
     (('p, 'a, 's, 'c) replication_behaviour \<times> ('p, 's) replication_event option) option" where
  "poll_incoming_tasks ops iter inc st =
     (case inc of
        Some (i, r) \<Rightarrow>
          (if i < length (rb_incoming_tasks st) then
             (let p = rb_incoming_tasks st ! i; rest = remove_nth i (rb_incoming_tasks st) in
              case r of
                Inr m \<Rightarrow>
                  map_option (\<lambda>st'. (st'\<lparr>rb_incoming_tasks := rest @ [p]\<rparr>, Some (IncomingMessage p m)))
                    (send_message ops iter m st)
              | Inl _ \<Rightarrow> Some (st\<lparr>rb_incoming_tasks := rest\<rparr>, Some (ReplicationError (ReplicationIo p))))
           else Some (st, None))
      | None \<Rightarrow> Some (st, None))"

text \<open>The \<open>i\<close>-th writing task ends; the error, when there is one, ends the poll.\<close>

definition poll_outbound_tasks ::
  "(nat \<times> task_io) option \<Rightarrow> ('p, 'a, 's, 'c) replication_behaviour \<Rightarrow>
     (('p, 'a, 's, 'c) replication_behaviour \<times> 'p replication_error option) option" where
  "poll_outbound_tasks out st =
     (case out of
        Some (i, io) \<Rightarrow>
          (if i < length (rb_outbound_tasks st) then
             (let (reads, r) = run_task (rb_outbound_tasks st ! i) io;
                  st1 = st\<lparr>rb_outbound_tasks := remove_nth i (rb_outbound_tasks st),
                           rb_new_read_halves := rb_new_read_halves st @ reads\<rparr> in
              case r of
                Abort \<Rightarrow> None
              | Err e \<Rightarrow> Some (st1, Some e)
              | Ok p \<Rightarrow>
                  (case dequeue_message p (rb_pending st1) of
                     Inl _ \<Rightarrow> Some (st1, Some (DequeueOutbound p))
                   | Inr (po, Some m) \<Rightarrow>
                       Some (st1\<lparr>rb_pending := po, rb_outbound_tasks := rb_outbound_tasks st1 @ [WriteTask p m]\<rparr>, None)
                   | Inr (po, None) \<Rightarrow>
                       Some (st1\<lparr>rb_pending := po, rb_streams := (rb_streams st1)(p \<mapsto> Idle)\<rparr>, None)))
           else Some (st, None))
      | None \<Rightarrow> Some (st, None))"

definition stream_idle :: "('p, 'a, 's, 'c) replication_behaviour \<Rightarrow> 'p \<Rightarrow> bool" where
  "stream_idle st p \<longleftrightarrow> rb_streams st p = Some Idle \<or> rb_streams st p = None"

definition schedule_next_outbound_message ::
  "('p, 'a, 's, 'c) replication_behaviour \<Rightarrow>
     (('p, 'a, 's, 'c) replication_behaviour \<times> 'p replication_error option) option" where
  "schedule_next_outbound_message st =
     (case po_next_peer (stream_idle st) (rb_pending st) of
        None \<Rightarrow> None
      | Some (po, None) \<Rightarrow> Some (st\<lparr>rb_pending := po\<rparr>, None)
      | Some (po, Some p) \<Rightarrow>
          (case dequeue_message p po of
             Inl _ \<Rightarrow> Some (st\<lparr>rb_pending := po\<rparr>, Some (DequeueOutbound p))
           | Inr (po', None) \<Rightarrow> None
           | Inr (po', Some m) \<Rightarrow>
               (case rb_streams st p of
                  Some Idle \<Rightarrow>
                    Some (st\<lparr>rb_pending := po', rb_streams := (rb_streams st)(p \<mapsto> Busy),
                             rb_outbound_tasks := rb_outbound_tasks st @ [WriteTask p m]\<rparr>, None)
                | Some Busy \<Rightarrow> None
                | None \<Rightarrow>
                    Some (st\<lparr>rb_pending := po', rb_streams := (rb_streams st)(p \<mapsto> Busy),
                             rb_outbound_tasks := rb_outbound_tasks st @ [OpenTask p m]\<rparr>, None))))"

definition poll_incoming_streams ::
  "'p option \<Rightarrow> ('p, 'a, 's, 'c) replication_behaviour \<Rightarrow> ('p, 'a, 's, 'c) replication_behaviour" where
  "poll_incoming_streams s st =
     (case s of
        Some p \<Rightarrow> st\<lparr>rb_streams := (rb_streams st)(p \<mapsto> Idle), rb_incoming_tasks := rb_incoming_tasks st @ [p]\<rparr>
      | None \<Rightarrow> st)"

definition poll_new_outbound_read_halves ::
  "('p, 'a, 's, 'c) replication_behaviour \<Rightarrow> ('p, 'a, 's, 'c) replication_behaviour" where
  "poll_new_outbound_read_halves st =
     (case rb_new_read_halves st of
        p # ps \<Rightarrow> st\<lparr>rb_new_read_halves := ps, rb_incoming_tasks := rb_incoming_tasks st @ [p]\<rparr>
      | [] \<Rightarrow> st)"

definition rb_poll ::
  "'c seen_cache_ops \<Rightarrow> ('p set \<Rightarrow> 'p list) \<Rightarrow> (nat \<times> (unit + 's replication_request)) option \<Rightarrow> (nat \<times> task_io) option \<Rightarrow>
     'p option \<Rightarrow> ('p, 'a, 's, 'c) replication_behaviour \<Rightarrow>
     (('p, 'a, 's, 'c) replication_behaviour \<times> ('p, 's) replication_event option) option" where
  "rb_poll ops iter inc out stream st =
     Option.bind (poll_incoming_tasks ops iter inc st) (\<lambda>(st1, event).
     case event of
       Some (ReplicationError e) \<Rightarrow> Some (st1, event)
     | _ \<Rightarrow>
       Option.bind (poll_outbound_tasks out st1) (\<lambda>(st2, err).
       case err of
         Some e \<Rightarrow> Some (st2, Some (ReplicationError e))
       | None \<Rightarrow>
         Option.bind (schedule_next_outbound_message st2) (\<lambda>(st3, err).
         case err of
           Some e \<Rightarrow> Some (st3, Some (ReplicationError e))
         | None \<Rightarrow> Some (poll_new_outbound_read_halves (poll_incoming_streams stream st3), event))))"

definition rb_established_inbound ::
  "'p \<Rightarrow> ('p, 'a, 's, 'c) replication_behaviour \<Rightarrow> ('p, 'a, 's, 'c) replication_behaviour" where
  "rb_established_inbound p st =
     (if is_neighbour st p then st\<lparr>rb_connected := insert p (rb_connected st)\<rparr> else st)"

definition rb_established_outbound ::
  "'p \<Rightarrow> ('p, 'a, 's, 'c) replication_behaviour \<Rightarrow> ('p, 'a, 's, 'c) replication_behaviour" where
  "rb_established_outbound p st = st\<lparr>rb_connected := insert p (rb_connected st)\<rparr>"

definition rb_connection_closed ::
  "'p \<Rightarrow> ('p, 'a, 's, 'c) replication_behaviour \<Rightarrow> ('p, 'a, 's, 'c) replication_behaviour option" where
  "rb_connection_closed p st =
     map_option (\<lambda>po. st\<lparr>rb_connected := rb_connected st - {p}, rb_streams := (rb_streams st)(p := None),
                        rb_pending := po\<rparr>)
       (po_on_disconnected p (rb_pending st))"

section \<open>Lemmas on the queues\<close>

lemma get_index_of_SomeD: "get_index_of k ms = Some i \<Longrightarrow> i < length ms \<and> fst (ms ! i) = k"
  by (induction k ms arbitrary: i rule: get_index_of.induct) (auto split: if_splits)

lemma get_index_of_None: "get_index_of k ms = None \<longleftrightarrow> k \<notin> fst ` set ms"
  by (induction k ms rule: get_index_of.induct) auto

text \<open>Every peer has one queue, and the marker names a peer that has one.\<close>

definition po_inv :: "('p, 'm) pending_outbound \<Rightarrow> bool" where
  "po_inv po \<longleftrightarrow> distinct (map fst (po_messages po)) \<and>
     (\<forall>p. po_last_scheduled po = Some p \<longrightarrow> p \<in> fst ` set (po_messages po))"

definition queue_of :: "('p, 'm) pending_outbound \<Rightarrow> 'p \<Rightarrow> 'm list" where
  "queue_of po p = (case map_of (po_messages po) p of Some q \<Rightarrow> q | None \<Rightarrow> [])"

lemma po_inv_default: "po_inv po_default"
  by (simp add: po_inv_def po_default_def)

lemma po_inv_update:
  assumes "po_inv po"
  shows "po_inv (po\<lparr>po_messages := AList.update p q (po_messages po)\<rparr>)"
  using assms by (auto simp: po_inv_def distinct_update dom_update)

lemma po_inv_enqueue: "po_inv po \<Longrightarrow> po_inv (enqueue_message p m po)"
  by (simp add: enqueue_message_def po_inv_update)

lemma po_inv_dequeue: "po_inv po \<Longrightarrow> dequeue_message p po = Inr (po', r) \<Longrightarrow> po_inv po'"
  by (auto simp: dequeue_message_def po_inv_update split: option.splits list.splits)

lemma po_inv_fold_enqueue: "po_inv po \<Longrightarrow> po_inv (fold (\<lambda>p. enqueue_message p m) ps po)"
  by (induction ps arbitrary: po) (simp_all add: po_inv_enqueue)

lemma queue_of_enqueue: "queue_of (enqueue_message p m po) r = queue_of po r @ (if r = p then [m] else [])"
  by (simp add: queue_of_def enqueue_message_def update_conv')

lemma queue_of_fold_enqueue:
  "distinct ps \<Longrightarrow> queue_of (fold (\<lambda>p. enqueue_message p m) ps po) r = queue_of po r @ (if r \<in> set ps then [m] else [])"
  by (induction ps arbitrary: po) (auto simp: queue_of_enqueue)

lemma find_schedulable_SomeD:
  assumes "find_schedulable idle ms = Some p"
  shows "\<exists>q. (p, q) \<in> set ms \<and> q \<noteq> [] \<and> idle p"
proof -
  obtain x where x: "find (\<lambda>(p, q). q \<noteq> [] \<and> idle p) ms = Some x" "fst x = p"
    using assms by (auto simp: find_schedulable_def)
  then have "x \<in> set ms" "snd x \<noteq> [] \<and> idle (fst x)"
    by (auto simp: find_Some_iff case_prod_unfold)
  then show ?thesis using x(2) by (metis prod.collapse)
qed

lemma next_peer_total:
  assumes "\<And>p. prev = Some p \<Longrightarrow> p \<in> fst ` set ms"
  shows "\<exists>r. next_peer prev ms idle = Some r \<and> (\<forall>p. r = Some p \<longrightarrow> (\<exists>q. (p, q) \<in> set ms \<and> q \<noteq> [] \<and> idle p))"
proof (cases prev)
  case None
  then show ?thesis using find_schedulable_SomeD by (fastforce simp: next_peer_def)
next
  case (Some p)
  then obtain i where i: "get_index_of p ms = Some i" using assms get_index_of_None by fastforce
  have "\<exists>q. (r, q) \<in> set ms \<and> q \<noteq> [] \<and> idle r" if "find_schedulable idle (drop (i + 1) ms @ take (i + 1) ms) = Some r" for r
    using find_schedulable_SomeD [OF that] by (auto dest: in_set_takeD in_set_dropD)
  then show ?thesis using Some i by (simp add: next_peer_def)
qed

lemma po_next_peer_total:
  assumes "po_inv po"
  shows "\<exists>r. po_next_peer idle po = Some (po\<lparr>po_last_scheduled := r\<rparr>, r) \<and> po_inv (po\<lparr>po_last_scheduled := r\<rparr>) \<and>
    (\<forall>p. r = Some p \<longrightarrow> (\<exists>m q. map_of (po_messages po) p = Some (m # q)) \<and> idle p)"
proof -
  obtain r where r: "next_peer (po_last_scheduled po) (po_messages po) idle = Some r"
      "\<And>p. r = Some p \<Longrightarrow> \<exists>q. (p, q) \<in> set (po_messages po) \<and> q \<noteq> [] \<and> idle p"
    using next_peer_total [of "po_last_scheduled po" "po_messages po" idle] assms by (auto simp: po_inv_def)
  have "(\<exists>m q. map_of (po_messages po) p = Some (m # q)) \<and> idle p \<and> p \<in> fst ` set (po_messages po)" if "r = Some p" for p
    using r(2) [OF that] assms by (auto simp: po_inv_def map_of_is_SomeI neq_Nil_conv image_iff) (metis fst_conv)+
  then show ?thesis using r(1) assms by (auto simp: po_next_peer_def po_inv_def)
qed

lemma po_on_disconnected_total:
  assumes "po_inv po"
  shows "\<exists>po'. po_on_disconnected p po = Some po' \<and> po_inv po'"
proof (cases "po_last_scheduled po")
  case None
  then show ?thesis using assms
    by (simp add: po_on_disconnected_def on_disconnected_def po_inv_def distinct_delete)
next
  case (Some l)
  let ?ms = "AList.delete p (po_messages po)"
  obtain i where i: "get_index_of l (po_messages po) = Some i"
    using Some assms get_index_of_None by (fastforce simp: po_inv_def)
  have "last ?ms \<in> set ?ms" if "?ms \<noteq> []" using that by simp
  moreover have "?ms ! (i - 1) \<in> set ?ms" if "i - 1 < length ?ms" using that by simp
  ultimately show ?thesis using assms Some i
    by (auto simp: po_on_disconnected_def on_disconnected_def po_inv_def distinct_delete Let_def)
qed

section \<open>Runs of the behaviour\<close>

datatype ('p, 'a, 's) rb_op =
    EstablishedInbound 'p
  | EstablishedOutbound 'p
  | Closed 'p
  | SendMessage "'s replication_request"
  | UpdateMembership "('p, 'a) fill_from_node_list"
  | PollAll "(nat \<times> (unit + 's replication_request)) option" "(nat \<times> task_io) option" "'p option"

fun rb_do ::
  "'c seen_cache_ops \<Rightarrow> ('p set \<Rightarrow> 'p list) \<Rightarrow> ('p, 'a, 's) rb_op \<Rightarrow> ('p, 'a, 's, 'c) replication_behaviour \<Rightarrow>
     ('p, 'a, 's, 'c) replication_behaviour option" where
  "rb_do ops iter (EstablishedInbound p) st = Some (rb_established_inbound p st)"
| "rb_do ops iter (EstablishedOutbound p) st = Some (rb_established_outbound p st)"
| "rb_do ops iter (Closed p) st = rb_connection_closed p st"
| "rb_do ops iter (SendMessage m) st = send_message ops iter m st"
| "rb_do ops iter (UpdateMembership m) st = Some (rb_update_membership m st)"
| "rb_do ops iter (PollAll inc out stream) st = map_option fst (rb_poll ops iter inc out stream st)"

inductive rb_reachable ::
  "'c seen_cache_ops \<Rightarrow> ('p set \<Rightarrow> 'p list) \<Rightarrow> ('p, 'a, 's, 'c) replication_behaviour \<Rightarrow> bool"
  for ops :: "'c seen_cache_ops" and iter :: "'p set \<Rightarrow> 'p list" where
  start: "rb_reachable ops iter (new_replication c p m)"
| step: "rb_reachable ops iter st \<Longrightarrow> rb_do ops iter op st = Some st' \<Longrightarrow> rb_reachable ops iter st'"

lemma send_message_pending:
  assumes "send_message ops iter m st = Some st'" and "po_inv (rb_pending st)"
  shows "po_inv (rb_pending st')" and "rb_outbound_tasks st' = rb_outbound_tasks st"
  using assms by (auto simp: send_message_def Let_def po_inv_fold_enqueue split: prod.splits if_splits)

lemma poll_incoming_tasks_pending:
  assumes "poll_incoming_tasks ops iter inc st = Some (st', ev)" and "po_inv (rb_pending st)"
  shows "po_inv (rb_pending st')"
  using assms send_message_pending
  by (auto simp: poll_incoming_tasks_def Let_def split: option.splits if_splits sum.splits) fastforce

lemma poll_outbound_tasks_pending:
  assumes "poll_outbound_tasks out st = Some (st', err)" and "po_inv (rb_pending st)"
  shows "po_inv (rb_pending st')"
  using assms po_inv_dequeue [OF assms(2)]
  by (auto simp: poll_outbound_tasks_def Let_def split: option.splits if_splits sum.splits prod.splits outcome.splits)

text \<open>The scheduler finds a queued message and an idle or missing stream for the peer it picks.\<close>

lemma schedule_total:
  assumes "po_inv (rb_pending st)"
  shows "\<exists>st'. schedule_next_outbound_message st = Some (st', None) \<and> po_inv (rb_pending st')"
proof -
  obtain r where r: "po_next_peer (stream_idle st) (rb_pending st) = Some (rb_pending st\<lparr>po_last_scheduled := r\<rparr>, r)"
      "po_inv (rb_pending st\<lparr>po_last_scheduled := r\<rparr>)"
      "\<And>p. r = Some p \<Longrightarrow> (\<exists>m q. map_of (po_messages (rb_pending st)) p = Some (m # q)) \<and> stream_idle st p"
    using po_next_peer_total [OF assms, of "stream_idle st"] by blast
  show ?thesis
  proof (cases r)
    case None
    then show ?thesis using r(1,2) by (simp add: schedule_next_outbound_message_def)
  next
    case (Some p)
    obtain m q where q: "map_of (po_messages (rb_pending st)) p = Some (m # q)" using r(3) [OF Some] by blast
    let ?po = "rb_pending st\<lparr>po_last_scheduled := r\<rparr>"
    let ?po' = "?po\<lparr>po_messages := AList.update p q (po_messages ?po)\<rparr>"
    have d: "dequeue_message p ?po = Inr (?po', Some m)" using q by (simp add: dequeue_message_def)
    have "po_inv ?po'" by (rule po_inv_update [OF r(2)])
    moreover have "stream_idle st p" using r(3) [OF Some] by blast
    ultimately show ?thesis using r(1) d Some
      by (auto simp: schedule_next_outbound_message_def stream_idle_def)
  qed
qed

lemma run_task_Abort: "snd (run_task t io) = Abort \<Longrightarrow> \<not> pack_ok io"
  by (cases t) (auto simp: try_write_message_def try_open_stream_def split: if_splits)

lemma rb_do_pending:
  assumes "rb_do ops iter op st = Some st'" and "po_inv (rb_pending st)"
  shows "po_inv (rb_pending st')"
proof (cases op)
  case (PollAll inc out stream)
  obtain st1 ev where 1: "poll_incoming_tasks ops iter inc st = Some (st1, ev)"
    using assms(1) PollAll by (auto simp: rb_poll_def split: bind_splits)
  have p1: "po_inv (rb_pending st1)" by (rule poll_incoming_tasks_pending [OF 1 assms(2)])
  have rest: "po_inv (rb_pending st')" if ok: "\<And>e. ev \<noteq> Some (ReplicationError e)"
  proof -
    obtain st2 err where 2: "poll_outbound_tasks out st1 = Some (st2, err)"
      using assms(1) PollAll 1 ok by (auto simp: rb_poll_def split: option.splits replication_event.splits bind_splits)
    have p2: "po_inv (rb_pending st2)" by (rule poll_outbound_tasks_pending [OF 2 p1])
    obtain st3 where 3: "schedule_next_outbound_message st2 = Some (st3, None)" "po_inv (rb_pending st3)"
      using schedule_total [OF p2] by blast
    show ?thesis using assms(1) PollAll 1 2 3 ok p2
      by (auto simp: rb_poll_def poll_incoming_streams_def poll_new_outbound_read_halves_def
          split: option.splits replication_event.splits list.splits)
  qed
  show ?thesis
  proof (cases "\<exists>e. ev = Some (ReplicationError e)")
    case True
    then show ?thesis using assms(1) PollAll 1 p1 by (auto simp: rb_poll_def)
  next
    case False
    then show ?thesis using rest by blast
  qed
next
  case (Closed p)
  then show ?thesis using assms po_on_disconnected_total [of "rb_pending st" p] by (auto simp: rb_connection_closed_def)
next
  case (SendMessage m)
  then show ?thesis using assms send_message_pending by auto
qed (use assms in \<open>auto simp: rb_established_inbound_def rb_established_outbound_def rb_update_membership_def\<close>)

lemma rb_reachable_inv: "rb_reachable ops iter st \<Longrightarrow> po_inv (rb_pending st)"
  by (induction rule: rb_reachable.induct) (auto simp: new_replication_def po_inv_default intro: rb_do_pending)

text \<open>C26. In every state the behaviour can reach, none of its assertions about the queues and the streams fails:
  an operation panics only when a message names a subnetwork the membership does not have, or when the
  bytes of a message cannot be written to a stream.\<close>

theorem replication_panics_only:
  assumes "rb_reachable ops iter st" and "rb_do ops iter op st = None"
  shows "(\<exists>m. (op = SendMessage m \<or> (\<exists>i out stream. op = PollAll (Some (i, Inr m)) out stream)) \<and>
       v1_members_of (rb_membership st) (rr_subnetwork_id m) = None) \<or>
    (\<exists>inc i io stream. op = PollAll inc (Some (i, io)) stream \<and> \<not> pack_ok io)"
proof -
  have inv: "po_inv (rb_pending st)" by (rule rb_reachable_inv [OF assms(1)])
  have send: "v1_members_of (rb_membership st) (rr_subnetwork_id m) = None" if "send_message ops iter m st = None" for m
    using that by (auto simp: send_message_def no_loopback_member_peers_of_def Let_def split: prod.splits if_splits)
  show ?thesis
  proof (cases op)
    case (PollAll inc out stream)
    show ?thesis
    proof (cases "poll_incoming_tasks ops iter inc st")
      case None
      then show ?thesis using PollAll send
        by (auto simp: poll_incoming_tasks_def Let_def split: option.splits if_splits sum.splits)
    next
      case (Some r)
      obtain st1 ev where 1: "poll_incoming_tasks ops iter inc st = Some (st1, ev)" using Some by (cases r) simp
      have p1: "po_inv (rb_pending st1)" by (rule poll_incoming_tasks_pending [OF 1 inv])
      have "poll_outbound_tasks out st1 = None"
      proof (rule ccontr)
        assume "poll_outbound_tasks out st1 \<noteq> None"
        then obtain st2 err where 2: "poll_outbound_tasks out st1 = Some (st2, err)" by auto
        obtain st3 where 3: "schedule_next_outbound_message st2 = Some (st3, None)"
          using schedule_total [OF poll_outbound_tasks_pending [OF 2 p1]] by blast
        then show False using assms(2) PollAll 1 2
          by (auto simp: rb_poll_def split: option.splits replication_event.splits)
      qed
      then obtain i io where "out = Some (i, io)" "snd (run_task (rb_outbound_tasks st1 ! i) io) = Abort"
        by (auto simp: poll_outbound_tasks_def Let_def split: option.splits if_splits sum.splits prod.splits outcome.splits)
      then show ?thesis using PollAll run_task_Abort by blast
    qed
  next
    case (Closed p)
    then show ?thesis using assms(2) po_on_disconnected_total [OF inv, of p] by (auto simp: rb_connection_closed_def)
  next
    case (SendMessage m)
    then show ?thesis using assms(2) send by auto
  qed (use assms(2) in simp_all)
qed

definition sample_cache :: "bytes set seen_cache_ops" where
  "sample_cache = \<lparr>cache_get = (\<lambda>c k. (k \<in> c, c)), cache_set = (\<lambda>c k. insert k c)\<rparr>"

definition sample_request :: "u16 \<Rightarrow> nat replication_request" where
  "sample_request n = \<lparr>rr_share = \<lparr>sm_blob_id = replicate 32 5, sm_data = 1\<rparr>, rr_subnetwork_id = n\<rparr>"

definition sample_replication :: "(nat, nat, nat, bytes set) replication_behaviour" where
  "sample_replication = new_replication {} 1 sample_membership"

lemma sample_members_of:
  "v1_members_of sample_membership 9 = None"
  "v1_members_of sample_membership 1 = Some {2, 3}"
  by (simp_all add: sample_membership_def v1_members_of_def assigned_to_def)

theorem replication_panics_only_witness:
  "rb_do sample_cache sorted_list_of_set (SendMessage (sample_request 9)) sample_replication = None \<and>
   v1_members_of (rb_membership sample_replication) 9 = None"
proof -
  have reach: "rb_reachable sample_cache sorted_list_of_set sample_replication"
    unfolding sample_replication_def by (rule rb_reachable.start)
  have none: "rb_do sample_cache sorted_list_of_set (SendMessage (sample_request 9)) sample_replication = None"
    by (simp add: send_message_def sample_cache_def sample_replication_def new_replication_def sample_request_def
        no_loopback_member_peers_of_def sample_members_of)
  from replication_panics_only [OF reach none] show ?thesis using none by (auto simp: sample_request_def)
qed

text \<open>A peer that sends a message with a subnetwork identifier the membership does not have makes the poll
  that reads it panic: the identifier is used as an index before anything has checked it.\<close>

theorem replication_remote_panic:
  assumes "i < length (rb_incoming_tasks st)" and "length (v1_assignations (rb_membership st)) \<le> unat (rr_subnetwork_id m)"
    and "\<not> fst (cache_get ops (rb_seen st) (replication_request_id m))"
  shows "rb_poll ops iter (Some (i, Inr m)) out stream st = None"
  using assms by (simp add: rb_poll_def poll_incoming_tasks_def send_message_def no_loopback_member_peers_of_def
      v1_members_of_def assigned_to_def case_prod_unfold)

theorem replication_remote_panic_witness:
  "rb_poll sample_cache sorted_list_of_set (Some (0, Inr (sample_request 9))) None None
     (sample_replication\<lparr>rb_incoming_tasks := [2]\<rparr>) = None"
  by (rule replication_remote_panic)
    (simp_all add: sample_replication_def new_replication_def sample_membership_def sample_cache_def sample_request_def)

text \<open>What is relied on of the cache: a message that was just entered is found.\<close>

definition remembers :: "'c seen_cache_ops \<Rightarrow> bool" where
  "remembers ops \<longleftrightarrow> (\<forall>c k. fst (cache_get ops (cache_set ops c k) k))"

text \<open>C27. Sending a message that has not been seen appends it once to the queue of every connected member of its
  subnetwork other than the node itself and to no other queue; sending it again changes no queue.\<close>

theorem replication_sends_once:
  assumes "v1_valid (rb_membership st)" and "rr_subnetwork_id m \<le> v1_last_subnetwork_id (rb_membership st)"
    and "iterates iter" and "finite (rb_connected st)" and "remembers ops"
    and "\<not> fst (cache_get ops (rb_seen st) (replication_request_id m))"
  shows "\<exists>st' st''. send_message ops iter m st = Some st' \<and>
    (\<forall>p. queue_of (rb_pending st') p = queue_of (rb_pending st) p @
      (if p \<in> rb_connected st \<and> p \<noteq> rb_local st \<and> rr_subnetwork_id m \<in> v1_membership (rb_membership st) p
       then [m] else [])) \<and>
    send_message ops iter m st' = Some st'' \<and> rb_pending st'' = rb_pending st'"
proof -
  let ?S = "{p. rr_subnetwork_id m \<in> v1_membership (rb_membership st) p}"
  let ?ps = "filter (\<lambda>p. p \<in> ?S - {rb_local st}) (iter (rb_connected st))"
  have S: "v1_members_of (rb_membership st) (rr_subnetwork_id m) = Some ?S" by (rule v1.members_of_iff [OF assms(1,2)])
  obtain c where c: "cache_get ops (rb_seen st) (replication_request_id m) = (False, c)"
    using assms(6) by (metis prod.collapse)
  let ?st = "st\<lparr>rb_seen := cache_set ops c (replication_request_id m),
      rb_pending := fold (\<lambda>p. enqueue_message p m) ?ps (rb_pending st)\<rparr>"
  have send: "send_message ops iter m st = Some ?st"
    by (simp add: send_message_def c no_loopback_member_peers_of_def S)
  have "distinct ?ps" using iterates_distinct [OF assms(3,4)] by simp
  then have q: "queue_of (rb_pending ?st) p = queue_of (rb_pending st) p @
      (if p \<in> rb_connected st \<and> p \<noteq> rb_local st \<and> rr_subnetwork_id m \<in> v1_membership (rb_membership st) p
       then [m] else [])" for p
    using queue_of_fold_enqueue [of ?ps m "rb_pending st" p] iterates_set [OF assms(3,4)] by auto
  have "fst (cache_get ops (rb_seen ?st) (replication_request_id m))" using assms(5) by (simp add: remembers_def)
  then have again: "\<exists>st''. send_message ops iter m ?st = Some st'' \<and> rb_pending st'' = rb_pending ?st"
    unfolding send_message_def by (simp add: case_prod_unfold)
  show ?thesis using send q again by blast
qed

theorem replication_sends_once_witness:
  "\<exists>st'. send_message sample_cache sorted_list_of_set (sample_request 1) (rb_established_outbound 2 sample_replication) = Some st' \<and>
     queue_of (rb_pending st') 2 = [sample_request 1] \<and> queue_of (rb_pending st') 3 = []"
proof -
  let ?st = "rb_established_outbound 2 sample_replication"
  have st: "rb_membership ?st = sample_membership" "rb_connected ?st = {2}" "rb_local ?st = 1" "rb_seen ?st = {}"
      "rb_pending ?st = po_default"
    by (simp_all add: rb_established_outbound_def sample_replication_def new_replication_def)
  have "remembers sample_cache" "\<not> fst (cache_get sample_cache {} k)" for k
    by (simp_all add: remembers_def sample_cache_def)
  then show ?thesis
    using replication_sends_once [of ?st "sample_request 1" sorted_list_of_set sample_cache]
    by (auto simp: st sample_request_def queue_of_def po_default_def)
qed

section \<open>Fairness of the scheduler\<close>

text \<open>The number of places the search that starts at place \<open>s\<close> passes before it comes to place \<open>j\<close> of \<open>n\<close>.\<close>

definition search_distance :: "nat \<Rightarrow> nat \<Rightarrow> nat \<Rightarrow> nat" where
  "search_distance n s j = (if s \<le> j then j - s else j + n - s)"

lemma search_distance_le: "s \<le> n \<Longrightarrow> j < n \<Longrightarrow> search_distance n s j \<le> n - 1"
  by (auto simp: search_distance_def)

lemma nth_rotated:
  assumes "s \<le> length ms" and "j < length ms"
  shows "(drop s ms @ take s ms) ! search_distance (length ms) s j = ms ! j"
    and "search_distance (length ms) s j < length (drop s ms @ take s ms)"
  using assms by (auto simp: search_distance_def nth_append)

lemma find_schedulable_progress:
  assumes "s \<le> length ms" and "j < length ms" and "ms ! j = (p, m # q)" and "idle p" and "length ms \<le> N"
  shows "\<exists>k < length ms. find_schedulable idle (drop s ms @ take s ms) = Some (fst (ms ! k)) \<and>
    (k = j \<or> search_distance N (k + 1) j < search_distance N s j)"
proof -
  let ?xs = "drop s ms @ take s ms" and ?P = "\<lambda>(p, q). q \<noteq> [] \<and> idle p"
  let ?d = "search_distance (length ms) s"
  have d: "?xs ! ?d j = ms ! j" "?d j < length ?xs" using nth_rotated [OF assms(1,2)] by simp_all
  have "find ?P ?xs \<noteq> None"
    using d assms(3,4) unfolding find_None_iff by (metis (mono_tags, lifting) case_prod_conv list.distinct(1) nth_mem)
  then obtain x where x: "find ?P ?xs = Some x" by blast
  then obtain i where i: "i < length ?xs" "x = ?xs ! i" "\<And>l. l < i \<Longrightarrow> \<not> ?P (?xs ! l)"
    by (auto simp: find_Some_iff)
  have "i \<le> ?d j" using i(3) [of "?d j"] d(1) assms(3,4) by (metis (mono_tags, lifting) case_prod_conv list.distinct(1) not_less)
  define k where "k = (if s + i < length ms then s + i else s + i - length ms)"
  have k: "k < length ms" using i(1) assms(1) by (auto simp: k_def)
  have di: "?d k = i" using i(1) assms(1) by (auto simp: k_def search_distance_def)
  then have "x = ms ! k" using nth_rotated(1) [OF assms(1) k] i(2) by simp
  moreover have "k = j \<or> search_distance N (k + 1) j < search_distance N s j"
    using \<open>i \<le> ?d j\<close> di k assms(1,2,5) by (auto simp: search_distance_def split: if_splits)
  ultimately show ?thesis using k x by (auto simp: find_schedulable_def)
qed

text \<open>The place where the search that follows a marker starts.\<close>

fun search_start :: "'p option \<Rightarrow> ('p \<times> 'q) list \<Rightarrow> nat" where
  "search_start None ms = 0"
| "search_start (Some p) ms = (case get_index_of p ms of Some i \<Rightarrow> i + 1 | None \<Rightarrow> 0)"

lemma next_peer_search:
  assumes "\<And>p. prev = Some p \<Longrightarrow> p \<in> fst ` set ms"
  shows "next_peer prev ms idle = Some (find_schedulable idle (drop (search_start prev ms) ms @ take (search_start prev ms) ms))"
    and "search_start prev ms \<le> length ms"
proof -
  have "(\<exists>i. get_index_of p ms = Some i \<and> i < length ms)" if "prev = Some p" for p
    using assms [OF that] get_index_of_None [of p ms] get_index_of_SomeD [of p ms] by fastforce
  then show "next_peer prev ms idle = Some (find_schedulable idle (drop (search_start prev ms) ms @ take (search_start prev ms) ms))"
    and "search_start prev ms \<le> length ms"
    by (cases prev; fastforce simp: next_peer_def)+
qed

lemma get_index_of_nth: "distinct (map fst ms) \<Longrightarrow> k < length ms \<Longrightarrow> get_index_of (fst (ms ! k)) ms = Some k"
proof (induction ms arbitrary: k)
  case (Cons x ms)
  then show ?case by (cases x; cases k) (auto simp: image_iff)
qed simp

lemma search_start_nth:
  "distinct (map fst ms) \<Longrightarrow> k < length ms \<Longrightarrow> search_start (Some (fst (ms ! k))) ms = k + 1"
  by (simp add: get_index_of_nth)

text \<open>New peers join at the end of the list of queues.\<close>

lemma prefix_keys_nth:
  assumes "prefix (map fst ms) (map fst ms')" and "k < length ms"
  shows "k < length ms'" and "fst (ms' ! k) = fst (ms ! k)"
proof -
  obtain zs where zs: "map fst ms' = map fst ms @ zs" using assms(1) by (rule prefixE)
  from arg_cong [OF zs, of length] show k: "k < length ms'" using assms(2) by simp
  from arg_cong [OF zs, of "\<lambda>l. l ! k"] show "fst (ms' ! k) = fst (ms ! k)"
    using assms(2) k by (simp add: nth_append)
qed

text \<open>
  One round either picks the peer or brings the search closer to it, also when other peers join
  behind it before the next round; \<open>N\<close> bounds the number of peers.
\<close>

lemma scheduler_round:
  assumes d: "distinct (map fst ms)" "distinct (map fst ms')" and pre: "prefix (map fst ms) (map fst ms')"
    and N: "length ms \<le> N" and mark: "prev = None \<or> prev \<in> Some ` fst ` set ms"
    and pick: "next_peer prev ms idle = Some next" and p: "map_of ms p = Some (m # q)" "idle p"
    and j: "j < length ms" "fst (ms ! j) = p"
  shows "\<exists>k < length ms. next = Some (fst (ms ! k)) \<and> next \<in> Some ` fst ` set ms' \<and> (k = j \<or>
    search_distance N (search_start next ms') j < search_distance N (search_start prev ms) j)"
proof -
  have prev: "r \<in> fst ` set ms" if "prev = Some r" for r using mark that by auto
  let ?s = "search_start prev ms"
  have "map_of ms (fst (ms ! j)) = Some (snd (ms ! j))" using j(1) d(1) by (intro map_of_is_SomeI) simp_all
  then have pq: "ms ! j = (p, m # q)" using p(1) j(2) by (metis option.inject prod.collapse)
  have found: "find_schedulable idle (drop ?s ms @ take ?s ms) = next" "?s \<le> length ms"
    using next_peer_search(1) [of prev ms idle] next_peer_search(2) [of prev ms] prev pick by simp_all
  obtain k where k: "k < length ms" "next = Some (fst (ms ! k))"
      "k = j \<or> search_distance N (k + 1) j < search_distance N ?s j"
    using find_schedulable_progress [of ?s ms j p m q idle N] found j(1) pq p(2) N by auto
  have k': "k < length ms'" "fst (ms' ! k) = fst (ms ! k)"
    using prefix_keys_nth [OF pre k(1)] by simp_all
  have "search_start next ms' = k + 1" using search_start_nth [OF d(2) k'(1)] k(2) k'(2) by simp
  moreover have "next \<in> Some ` fst ` set ms'" using k(2) k' by (metis imageI nth_mem)
  ultimately show ?thesis using k by auto
qed

text \<open>Something that comes closer in every step is reached.\<close>

lemma descent_reaches:
  fixes d :: "nat \<Rightarrow> nat"
  assumes "\<And>t. P (Suc t) \<or> d (Suc t) < d t" and "d t \<le> n"
  shows "\<exists>u \<le> n. P (Suc (t + u))"
  using assms(2)
proof (induction n arbitrary: t)
  case 0
  then show ?case using assms(1) [of t] by auto
next
  case (Suc n)
  show ?case
  proof (cases "P (Suc t)")
    case False
    with assms(1) [of t] Suc.prems have "d (Suc t) \<le> n" by linarith
    then obtain u where "u \<le> n" "P (Suc (Suc t + u))" using Suc.IH by blast
    then show ?thesis by (intro exI [of _ "Suc u"]) simp
  qed (intro exI [of _ 0], simp)
qed

text \<open>C28. As long as no peer disconnects and there are never more than \<open>N\<close> peers, a peer that keeps a queued message
  and a free stream is scheduled within \<open>N\<close> rounds, whatever the other peers do, also while new peers join.\<close>

theorem scheduler_fair:
  fixes ms :: "nat \<Rightarrow> ('p \<times> 'm list) list"
  assumes "\<And>t. prefix (map fst (ms t)) (map fst (ms (Suc t)))" and "\<And>t. distinct (map fst (ms t))"
    and "\<And>t. length (ms t) \<le> N" and "mark 0 = None \<or> mark 0 \<in> Some ` fst ` set (ms 0)"
    and "\<And>t. next_peer (mark t) (ms t) (idle t) = Some (mark (Suc t))"
    and "\<And>t. \<exists>m q. map_of (ms t) p = Some (m # q)" and "\<And>t. idle t p"
  shows "\<exists>t < N. mark (Suc t) = Some p"
proof -
  let ?d = "\<lambda>t. search_distance N (search_start (mark t) (ms t))"
  have "p \<in> fst ` set (ms 0)" using assms(6) [of 0] by (metis domI dom_map_of_conv_image_fst)
  then obtain j where j0: "j < length (ms 0)" "fst (ms 0 ! j) = p" by (auto simp: in_set_conv_nth)
  have j: "j < length (ms t) \<and> fst (ms t ! j) = p" for t
  proof (induction t)
    case (Suc t)
    then show ?case using prefix_keys_nth [OF assms(1), of j t] by simp
  qed (use j0 in simp)
  have round: "\<exists>k < length (ms t). mark (Suc t) = Some (fst (ms t ! k)) \<and> mark (Suc t) \<in> Some ` fst ` set (ms (Suc t)) \<and>
      (k = j \<or> ?d (Suc t) j < ?d t j)" if "mark t = None \<or> mark t \<in> Some ` fst ` set (ms t)" for t
  proof -
    obtain m q where mq: "map_of (ms t) p = Some (m # q)" using assms(6) [of t] by blast
    show ?thesis
      by (rule scheduler_round [OF assms(2,2,1,3) that assms(5) mq]) (use assms(7) j in simp_all)
  qed
  have valid: "mark t = None \<or> mark t \<in> Some ` fst ` set (ms t)" for t
  proof (induction t)
    case (Suc t)
    then show ?case using round [of t] by auto
  qed (rule assms(4))
  have "search_start (mark 0) (ms 0) \<le> length (ms 0)"
    by (rule next_peer_search(2)) (use assms(4) in auto)
  then have "?d 0 j \<le> N - 1" using j0(1) assms(3) [of 0] by (intro search_distance_le) simp_all
  moreover have "mark (Suc t) = Some p \<or> ?d (Suc t) j < ?d t j" for t
    using round [OF valid, of t] j [of t] by auto
  ultimately obtain u where "u \<le> N - 1" "mark (Suc (0 + u)) = Some p"
    using descent_reaches [of "\<lambda>t. mark t = Some p" "\<lambda>t. ?d t j" 0] by blast
  moreover have "0 < N" using j0(1) assms(3) [of 0] by simp
  ultimately show ?thesis by (intro exI [of _ u]) simp
qed

text \<open>Two peers with messages, and a third that joins after the first round.\<close>

theorem scheduler_fair_witness:
  "\<exists>(ms :: nat \<Rightarrow> (nat \<times> unit list) list) mark. (\<forall>t. next_peer (mark t) (ms t) (\<lambda>_. True) = Some (mark (Suc t))) \<and>
     length (ms 0) = 2 \<and> length (ms 1) = 3 \<and> mark 0 = Some (1 :: nat) \<and> (\<exists>t < 3. mark (Suc t) = Some (0 :: nat))"
proof -
  let ?ms = "\<lambda>t :: nat. [(0 :: nat, [()]), (1, [()])] @ (if t = 0 then [] else [(2, [()])])"
  let ?mark = "\<lambda>t :: nat. Some (if t = 0 then 1 else (t - 1) mod 3)"
  have step: "next_peer (?mark t) (?ms t) (\<lambda>_. True) = Some (?mark (Suc t))" for t
  proof (cases t)
    case (Suc n)
    have "n mod 3 = 0 \<and> Suc n mod 3 = 1 \<or> n mod 3 = 1 \<and> Suc n mod 3 = 2 \<or> n mod 3 = 2 \<and> Suc n mod 3 = 0"
      by presburger
    then show ?thesis unfolding Suc by (elim disjE conjE) (simp_all add: next_peer_def find_schedulable_def)
  qed (simp add: next_peer_def find_schedulable_def)
  have "\<exists>t < 3. ?mark (Suc t) = Some 0"
    by (rule scheduler_fair [where ms = ?ms and idle = "\<lambda>_ _. True"]) (simp, simp, simp, simp, rule step, simp, simp)
  then show ?thesis using step by (intro exI [of _ ?ms] exI [of _ ?mark]) simp
qed

section \<open>Where the scheduler loses track\<close>

text \<open>
  When a peer other than the marked one disconnects the marker is dropped, although the marked peer is still
  there: the next search starts at the first peer again.
\<close>

lemma marker_lost_on_disconnect:
  assumes "po_inv po" and "po_last_scheduled po = Some p" and "p \<noteq> r"
  shows "\<exists>po'. po_on_disconnected r po = Some po' \<and> p \<in> fst ` set (po_messages po') \<and> po_last_scheduled po' = None"
proof -
  obtain i where "get_index_of p (po_messages po) = Some i"
    using assms(1,2) get_index_of_None [of p "po_messages po"] by (auto simp: po_inv_def)
  moreover have "p \<in> fst ` set (AList.delete r (po_messages po))"
    using assms(1,2,3) by (auto simp: po_inv_def delete_conv' simp flip: dom_map_of_conv_image_fst)
  ultimately show ?thesis using assms(2,3) by (simp add: po_on_disconnected_def on_disconnected_def)
qed

fun task_peer :: "('p, 'm) outbound_task \<Rightarrow> 'p" where
  "task_peer (WriteTask p m) = p"
| "task_peer (OpenTask p m) = p"

definition stuck :: "'p \<Rightarrow> ('p, 'a, 's, 'c) replication_behaviour \<Rightarrow> bool" where
  "stuck p st \<longleftrightarrow> rb_streams st p = Some Busy \<and> p \<notin> task_peer ` set (rb_outbound_tasks st)"

lemma run_task_Ok: "snd (run_task t io) = Ok p \<Longrightarrow> p = task_peer t"
  by (cases t) (auto simp: try_write_message_def try_open_stream_def split: if_splits)

lemma set_remove_nth: "set (remove_nth i xs) \<subseteq> set xs"
  by (auto simp: remove_nth_def dest: in_set_takeD in_set_dropD)

lemma stuck_poll_outbound:
  assumes "stuck p st" and "poll_outbound_tasks out st = Some (st', err)"
  shows "stuck p st'"
proof (cases "\<exists>i io. out = Some (i, io) \<and> i < length (rb_outbound_tasks st)")
  case True
  then obtain i io where o: "out = Some (i, io)" "i < length (rb_outbound_tasks st)" by blast
  let ?t = "rb_outbound_tasks st ! i"
  obtain reads res where run: "run_task ?t io = (reads, res)" by fastforce
  have t: "task_peer ?t \<noteq> p" using assms(1) o(2) by (auto simp: stuck_def)
  have q: "q \<noteq> p" if "res = Ok q" for q using run_task_Ok [of ?t io q] run that t by simp
  have "p \<notin> task_peer ` set (remove_nth i (rb_outbound_tasks st))"
    using assms(1) set_remove_nth [of i "rb_outbound_tasks st"] by (auto simp: stuck_def)
  then show ?thesis using assms o run q
    by (auto simp: poll_outbound_tasks_def stuck_def Let_def split: outcome.splits sum.splits option.splits)
next
  case False
  then show ?thesis using assms by (auto simp: poll_outbound_tasks_def split: option.splits if_splits)
qed

lemma stuck_schedule:
  assumes "stuck p st" and "po_inv (rb_pending st)" and "schedule_next_outbound_message st = Some (st', err)"
  shows "stuck p st'"
proof -
  obtain r where r: "po_next_peer (stream_idle st) (rb_pending st) = Some (rb_pending st\<lparr>po_last_scheduled := r\<rparr>, r)"
      "\<And>q. r = Some q \<Longrightarrow> stream_idle st q"
    using po_next_peer_total [OF assms(2), of "stream_idle st"] by blast
  have "q \<noteq> p" if "r = Some q" for q using r(2) [OF that] assms(1) by (auto simp: stream_idle_def stuck_def)
  then show ?thesis using assms(1,3) r(1)
    by (auto simp: schedule_next_outbound_message_def stuck_def
        split: option.splits sum.splits write_half.splits)
qed

lemma stuck_cong:
  "rb_streams st' = rb_streams st \<Longrightarrow> rb_outbound_tasks st' = rb_outbound_tasks st \<Longrightarrow> stuck p st' = stuck p st"
  by (simp add: stuck_def)

lemma send_message_streams:
  assumes "send_message ops iter m st = Some st'"
  shows "rb_streams st' = rb_streams st" and "rb_outbound_tasks st' = rb_outbound_tasks st"
  using assms by (auto simp: send_message_def Let_def split: prod.splits if_splits)

lemma stuck_send: "send_message ops iter m st = Some st' \<Longrightarrow> stuck p st' = stuck p st"
  by (rule stuck_cong) (simp_all add: send_message_streams)

lemma stuck_poll_incoming: "poll_incoming_tasks ops iter inc st = Some (st', ev) \<Longrightarrow> stuck p st' = stuck p st"
  by (rule stuck_cong)
    (auto simp: poll_incoming_tasks_def Let_def simp: send_message_streams split: option.splits if_splits sum.splits)

text \<open>The operations that free the stream of a peer: a disconnection, or a stream the peer opens.\<close>

fun frees_stream :: "'p \<Rightarrow> ('p, 'a, 's) rb_op \<Rightarrow> bool" where
  "frees_stream p (Closed q) \<longleftrightarrow> q = p"
| "frees_stream p (PollAll inc out stream) \<longleftrightarrow> stream = Some p"
| "frees_stream p _ \<longleftrightarrow> False"

lemma stuck_poll:
  assumes "stuck p st" and "po_inv (rb_pending st)" and "rb_poll ops iter inc out stream st = Some (st', ev')" and "stream \<noteq> Some p"
  shows "stuck p st'"
proof -
  obtain st1 ev where 1: "poll_incoming_tasks ops iter inc st = Some (st1, ev)"
    using assms(3) by (auto simp: rb_poll_def split: bind_splits)
  have s1: "stuck p st1" "po_inv (rb_pending st1)"
    using stuck_poll_incoming [OF 1] assms(1) poll_incoming_tasks_pending [OF 1 assms(2)] by simp_all
  show ?thesis
  proof (cases "\<exists>e. ev = Some (ReplicationError e)")
    case True
    then show ?thesis using assms(3) 1 s1 by (auto simp: rb_poll_def)
  next
    case False
    then obtain st2 err where 2: "poll_outbound_tasks out st1 = Some (st2, err)"
      using assms(3) 1 by (auto simp: rb_poll_def split: option.splits replication_event.splits bind_splits)
    have s2: "stuck p st2" "po_inv (rb_pending st2)"
      using stuck_poll_outbound [OF s1(1) 2] poll_outbound_tasks_pending [OF 2 s1(2)] by simp_all
    obtain st3 where 3: "schedule_next_outbound_message st2 = Some (st3, None)" using schedule_total [OF s2(2)] by blast
    have "stuck p (poll_new_outbound_read_halves (poll_incoming_streams stream st3))"
      using stuck_schedule [OF s2 3] assms(4)
      by (auto simp: stuck_def poll_new_outbound_read_halves_def poll_incoming_streams_def split: option.splits list.splits)
    then show ?thesis using assms(3) 1 2 3 False s2(1)
      by (auto simp: rb_poll_def split: option.splits replication_event.splits)
  qed
qed

lemma stuck_step:
  assumes "stuck p st" and "po_inv (rb_pending st)" and "rb_do ops iter op st = Some st'" and "\<not> frees_stream p op"
  shows "stuck p st'"
proof (cases op)
  case (PollAll inc out stream)
  then show ?thesis using assms stuck_poll [OF assms(1,2)] by auto
next
  case (SendMessage m)
  then show ?thesis using assms(1,3) stuck_send [of ops iter m st st' p] by simp
next
  case (Closed q)
  then show ?thesis using assms by (auto simp: rb_connection_closed_def stuck_def)
qed (use assms in \<open>auto simp: stuck_def rb_established_inbound_def rb_established_outbound_def
    rb_update_membership_def split: if_splits\<close>)

fun rb_run ::
  "'c seen_cache_ops \<Rightarrow> ('p set \<Rightarrow> 'p list) \<Rightarrow> ('p, 'a, 's) rb_op list \<Rightarrow> ('p, 'a, 's, 'c) replication_behaviour \<Rightarrow>
     ('p, 'a, 's, 'c) replication_behaviour option" where
  "rb_run ops iter [] st = Some st"
| "rb_run ops iter (op # xs) st = Option.bind (rb_do ops iter op st) (rb_run ops iter xs)"

lemma stuck_run:
  "stuck p st \<Longrightarrow> po_inv (rb_pending st) \<Longrightarrow> rb_run ops iter xs st = Some st' \<Longrightarrow>
     list_all (\<lambda>op. \<not> frees_stream p op) xs \<Longrightarrow> stuck p st'"
  by (induction xs arbitrary: st) (auto simp: bind_eq_Some_conv intro: stuck_step rb_do_pending)

text \<open>When the write of a message to a peer fails, the error is reported but the peer's stream stays marked as
  busy. From then on no message is written to that peer, whatever is queued for it, until the peer
  disconnects or opens a stream of its own.\<close>

theorem failed_write_starves:
  assumes "rb_reachable ops iter st" and "rb_outbound_tasks st = [WriteTask p m]" and "rb_streams st p = Some Busy"
    and "pack_ok io" and "\<not> flush_ok io"
  shows "\<exists>st1. poll_outbound_tasks (Some (0, io)) st = Some (st1, Some (ReplicationIo p)) \<and>
    (\<forall>xs st'. list_all (\<lambda>op. \<not> frees_stream p op) xs \<longrightarrow> rb_run ops iter xs st1 = Some st' \<longrightarrow>
       rb_streams st' p = Some Busy \<and> p \<notin> task_peer ` set (rb_outbound_tasks st'))"
proof -
  let ?st1 = "st\<lparr>rb_outbound_tasks := []\<rparr>"
  have "poll_outbound_tasks (Some (0, io)) st = Some (?st1, Some (ReplicationIo p))"
    using assms(2,4,5) by (simp add: poll_outbound_tasks_def try_write_message_def remove_nth_def)
  moreover have "stuck p ?st1" "po_inv (rb_pending ?st1)"
    using assms(3) rb_reachable_inv [OF assms(1)] by (simp_all add: stuck_def)
  ultimately show ?thesis using stuck_run [of p ?st1 ops iter] unfolding stuck_def by blast
qed

text \<open>A run that brings the sample behaviour there: a peer connects, a message is queued for it, its stream is
  opened and a second message is written to it.\<close>

definition io_ok :: task_io where "io_ok = \<lparr>open_ok = True, pack_ok = True, flush_ok = True\<rparr>"

definition sample_run :: "(nat, nat, nat) rb_op list" where
  "sample_run = [EstablishedOutbound 2, SendMessage (sample_request 1), PollAll None None None,
     SendMessage (sample_request 0), PollAll None (Some (0, io_ok)) None]"

lemma rb_reachable_run:
  "rb_reachable ops iter st \<Longrightarrow> rb_run ops iter xs st = Some st' \<Longrightarrow> rb_reachable ops iter st'"
  by (induction xs arbitrary: st) (auto simp: bind_eq_Some_conv intro: rb_reachable.step)

lemma sample_request_ids:
  "replication_request_id (sample_request 0) \<noteq> replication_request_id (sample_request 1)"
  "rr_subnetwork_id (sample_request n) = n"
  by (simp_all add: replication_request_id_def sample_request_def replication_response_id_inject)

lemma sample_run_result:
  "\<exists>st. rb_run sample_cache sorted_list_of_set sample_run sample_replication = Some st \<and>
     rb_outbound_tasks st = [WriteTask 2 (sample_request 0)] \<and> rb_streams st 2 = Some Busy"
  by (simp add: sample_run_def sample_replication_def new_replication_def rb_established_outbound_def send_message_def
      no_loopback_member_peers_of_def sample_members_of sample_request_ids rb_poll_def poll_incoming_tasks_def
      poll_outbound_tasks_def schedule_next_outbound_message_def po_next_peer_def next_peer_def find_schedulable_def
      enqueue_message_def dequeue_message_def po_default_def stream_idle_def poll_incoming_streams_def
      poll_new_outbound_read_halves_def io_ok_def try_open_stream_def try_write_message_def remove_nth_def
      sample_cache_def)

theorem failed_write_starves_witness:
  "\<exists>st st1. rb_run sample_cache sorted_list_of_set sample_run sample_replication = Some st \<and>
     poll_outbound_tasks (Some (0, io_ok\<lparr>flush_ok := False\<rparr>)) st = Some (st1, Some (ReplicationIo 2))"
proof -
  obtain st where st: "rb_run sample_cache sorted_list_of_set sample_run sample_replication = Some st"
      "rb_outbound_tasks st = [WriteTask 2 (sample_request 0)]" "rb_streams st 2 = Some Busy"
    using sample_run_result by blast
  have "rb_reachable sample_cache sorted_list_of_set st"
    by (rule rb_reachable_run [OF _ st(1)]) (simp add: sample_replication_def rb_reachable.start)
  from failed_write_starves [OF this st(2,3), of "io_ok\<lparr>flush_ok := False\<rparr>"] show ?thesis
    using st(1) by (auto simp: io_ok_def)
qed

end
