(* ===== verification/Layered_Cipher.thy ===== *)
theory Layered_Cipher
  imports Prelude
begin

text \<open>
  The layered cipher of the blend network's Sphinx header,
  \<open>nomos-blend/message/src/sphinx/layered_cipher.rs\<close> and \<open>parse_bytes\<close> of \<open>sphinx/mod.rs\<close>. The pseudorandom generator, the keyed
  hash and its check (from the crates \<open>sphinx_packet\<close> and \<open>sha2\<close>) and the random bytes are parameters, as are the
  sizes those crates fix. Data is a list of bytes of the size \<open>ds\<close>. \<open>Abort\<close> is a failed assertion or a slice out of
  range.
\<close>

unbundle bit_operations_syntax

section \<open>Definitions\<close>

datatype cipher_error = InvalidCipherTextLength | InvalidEncryptionParam | IntegrityMacVerificationFailed

record ('sk, 'mk) cipher_crypto =
  prg :: "'sk \<Rightarrow> nat \<Rightarrow> bytes"
  hmac :: "'mk \<Rightarrow> bytes \<Rightarrow> bytes"
  mac_verify :: "bytes \<Rightarrow> 'mk \<Rightarrow> bytes \<Rightarrow> bool"
  mac_size :: nat

record ('sk, 'mk) cipher_key =
  stream_cipher_key :: 'sk
  integrity_mac_key :: 'mk

record ('sk, 'mk) encryption_param =
  ep_data :: bytes
  ep_key :: "('sk, 'mk) cipher_key"

definition single_layer_size :: "('sk, 'mk) cipher_crypto \<Rightarrow> nat \<Rightarrow> nat" where
  "single_layer_size c ds = ds + mac_size c"

definition total_size :: "('sk, 'mk) cipher_crypto \<Rightarrow> nat \<Rightarrow> nat \<Rightarrow> nat" where
  "total_size c ds max_layers = single_layer_size c ds * max_layers"

fun parse_bytes :: "bytes \<Rightarrow> nat list \<Rightarrow> bytes list option" where
  "parse_bytes data [] = Some []"
| "parse_bytes data (n # ns) =
     (if length data < n then None
      else map_option (\<lambda>rest. take n data # rest) (parse_bytes (drop n data) ns))"

datatype stream_cipher_option = FromFront | FromBack

definition xor_in_place :: "bytes \<Rightarrow> bytes \<Rightarrow> ('e, bytes) outcome" where
  "xor_in_place a b = (if length a = length b then Ok (map2 (\<lambda>x y. x XOR y) a b) else Abort)"

definition apply_streamcipher ::
  "('sk, 'mk) cipher_crypto \<Rightarrow> nat \<Rightarrow> nat \<Rightarrow> bytes \<Rightarrow> 'sk \<Rightarrow> stream_cipher_option \<Rightarrow> ('e, bytes) outcome" where
  "apply_streamcipher c ds max_layers data key opt =
     (let prb = prg c key (total_size c ds max_layers + single_layer_size c ds) in
      if length prb < length data then Abort
      else xor_in_place data
        (case opt of
           FromFront \<Rightarrow> take (length data) prb
         | FromBack \<Rightarrow> drop (length prb - length data) prb))"

definition compute_mac :: "('sk, 'mk) cipher_crypto \<Rightarrow> 'mk \<Rightarrow> bytes \<Rightarrow> ('e, bytes) outcome" where
  "compute_mac c key data =
     (let mac = hmac c key data in if length mac < mac_size c then Abort else Ok (take (mac_size c) mac))"

fun apply_fillers ::
  "('sk, 'mk) cipher_crypto \<Rightarrow> nat \<Rightarrow> nat \<Rightarrow> nat \<Rightarrow> 'sk list \<Rightarrow> bytes \<Rightarrow> ('e, bytes) outcome" where
  "apply_fillers c ds max_layers i [] fillers = Ok fillers"
| "apply_fillers c ds max_layers i (key # keys) fillers =
     (let n = (i + 1) * single_layer_size c ds in
      bind_outcome (apply_streamcipher c ds max_layers (take n fillers) key FromBack)
        (\<lambda>front. apply_fillers c ds max_layers (i + 1) keys (front @ drop n fillers)))"

definition build_fillers ::
  "('sk, 'mk) cipher_crypto \<Rightarrow> nat \<Rightarrow> nat \<Rightarrow> ('sk, 'mk) encryption_param list \<Rightarrow> ('e, bytes) outcome" where
  "build_fillers c ds max_layers params =
     apply_fillers c ds max_layers 0 (map (\<lambda>p. stream_cipher_key (ep_key p)) params)
       (replicate (single_layer_size c ds * length params) 0)"

definition build_last_layer ::
  "('sk, 'mk) cipher_crypto \<Rightarrow> (nat \<Rightarrow> bytes) \<Rightarrow> nat \<Rightarrow> nat \<Rightarrow> ('sk, 'mk) encryption_param list \<Rightarrow>
     (cipher_error, bytes \<times> bytes) outcome" where
  "build_last_layer c random_bytes ds max_layers params =
     (if params = [] then Err InvalidEncryptionParam
      else let last_param = last params in
        bind_outcome (build_fillers c ds max_layers (butlast params)) (\<lambda>fillers.
        bind_outcome (apply_streamcipher c ds max_layers
            (ep_data last_param @ random_bytes (total_size c ds max_layers - ds - length fillers))
            (stream_cipher_key (ep_key last_param)) FromFront) (\<lambda>front.
        let encrypted = front @ fillers in
        bind_outcome (compute_mac c (integrity_mac_key (ep_key last_param)) encrypted) (\<lambda>mac.
        if length encrypted = total_size c ds max_layers then Ok (encrypted, mac) else Abort))))"

definition build_intermediate_layer ::
  "('sk, 'mk) cipher_crypto \<Rightarrow> nat \<Rightarrow> nat \<Rightarrow> ('sk, 'mk) encryption_param \<Rightarrow> bytes \<Rightarrow> bytes \<Rightarrow>
     (cipher_error, bytes \<times> bytes) outcome" where
  "build_intermediate_layer c ds max_layers param next_mac next_encrypted =
     (if length next_encrypted < single_layer_size c ds then Abort
      else
        bind_outcome (apply_streamcipher c ds max_layers
            (ep_data param @ next_mac @ take (length next_encrypted - single_layer_size c ds) next_encrypted)
            (stream_cipher_key (ep_key param)) FromFront) (\<lambda>encrypted.
        bind_outcome (compute_mac c (integrity_mac_key (ep_key param)) encrypted) (\<lambda>mac.
        if length encrypted = total_size c ds max_layers then Ok (encrypted, mac) else Abort)))"

text \<open>The fold over the reversed parameters: the innermost layer is built first.\<close>

fun wrap_layers ::
  "('sk, 'mk) cipher_crypto \<Rightarrow> nat \<Rightarrow> nat \<Rightarrow> ('sk, 'mk) encryption_param list \<Rightarrow> bytes \<times> bytes \<Rightarrow>
     (cipher_error, bytes \<times> bytes) outcome" where
  "wrap_layers c ds max_layers [] inner = Ok inner"
| "wrap_layers c ds max_layers (param # params) inner =
     bind_outcome (wrap_layers c ds max_layers params inner)
       (\<lambda>(encrypted, mac). build_intermediate_layer c ds max_layers param mac encrypted)"

definition cipher_encrypt ::
  "('sk, 'mk) cipher_crypto \<Rightarrow> (nat \<Rightarrow> bytes) \<Rightarrow> nat \<Rightarrow> nat \<Rightarrow> ('sk, 'mk) encryption_param list \<Rightarrow>
     (cipher_error, bytes \<times> bytes) outcome" where
  "cipher_encrypt c random_bytes ds max_layers params =
     (if params = [] \<or> max_layers < length params then Err InvalidEncryptionParam
      else bind_outcome (build_last_layer c random_bytes ds max_layers params)
        (wrap_layers c ds max_layers (butlast params)))"

definition cipher_unpack ::
  "('sk, 'mk) cipher_crypto \<Rightarrow> nat \<Rightarrow> nat \<Rightarrow> bytes \<Rightarrow> bytes \<Rightarrow> ('sk, 'mk) cipher_key \<Rightarrow>
     (cipher_error, bytes \<times> bytes \<times> bytes) outcome" where
  "cipher_unpack c ds max_layers mac encrypted key =
     (if length encrypted \<noteq> total_size c ds max_layers then Err InvalidCipherTextLength
      else if \<not> mac_verify c mac (integrity_mac_key key) encrypted then Err IntegrityMacVerificationFailed
      else
        bind_outcome (apply_streamcipher c ds max_layers (encrypted @ replicate (single_layer_size c ds) 0)
            (stream_cipher_key key) FromFront) (\<lambda>decrypted.
        case parse_bytes decrypted [ds, mac_size c, total_size c ds max_layers] of
          Some [data, next_mac, next_encrypted] \<Rightarrow> Ok (data, next_mac, next_encrypted)
        | _ \<Rightarrow> Abort))"

section \<open>Laws of the primitives\<close>

text \<open>What is relied on: as many pseudorandom and random bytes as asked for, a keyed hash that is long enough, and a
  check that accepts the hash cut to its size.\<close>

definition cipher_laws :: "('sk, 'mk) cipher_crypto \<Rightarrow> (nat \<Rightarrow> bytes) \<Rightarrow> bool" where
  "cipher_laws c random_bytes \<longleftrightarrow>
     (\<forall>k n. length (prg c k n) = n) \<and> (\<forall>k d. mac_size c \<le> length (hmac c k d)) \<and>
     (\<forall>k d. mac_verify c (take (mac_size c) (hmac c k d)) k d) \<and> (\<forall>n. length (random_bytes n) = n)"

section \<open>Closed forms\<close>

definition xors :: "bytes \<Rightarrow> bytes \<Rightarrow> bytes" where
  "xors a b = map2 (\<lambda>x y. x XOR y) a b"

lemma length_xors [simp]: "length (xors a b) = min (length a) (length b)"
  by (simp add: xors_def)

lemma xors_append: "length a = length b \<Longrightarrow> xors (a @ a') (b @ b') = xors a b @ xors a' b'"
  by (simp add: xors_def)

lemma xors_cancel: "length a = length b \<Longrightarrow> xors (xors a b) b = a"
  by (induction a b rule: list_induct2) (simp_all add: xors_def xor.assoc)

lemma xors_zero: "length b = n \<Longrightarrow> xors (replicate n 0) b = b"
  by (induction b arbitrary: n) (auto simp: xors_def)

lemma take_xors: "take n (xors a b) = xors (take n a) (take n b)"
  by (simp add: xors_def take_map take_zip)

lemma drop_xors: "drop n (xors a b) = xors (drop n a) (drop n b)"
  by (simp add: xors_def drop_map drop_zip)

text \<open>The pseudorandom bytes of a key.\<close>

definition pad :: "('sk, 'mk) cipher_crypto \<Rightarrow> nat \<Rightarrow> nat \<Rightarrow> 'sk \<Rightarrow> bytes" where
  "pad c ds n k = prg c k (total_size c ds n + single_layer_size c ds)"

lemma length_pad [simp]: "cipher_laws c rnd \<Longrightarrow> length (pad c ds n k) = total_size c ds n + single_layer_size c ds"
  by (simp add: pad_def cipher_laws_def)

lemma apply_front:
  assumes "cipher_laws c rnd" and "length data \<le> total_size c ds n + single_layer_size c ds"
  shows "apply_streamcipher c ds n data k FromFront = Ok (xors data (take (length data) (pad c ds n k)))"
  using assms length_pad [OF assms(1), of ds n k]
  by (simp add: apply_streamcipher_def xor_in_place_def xors_def Let_def flip: pad_def)

lemma apply_back:
  assumes "cipher_laws c rnd" and "length data \<le> total_size c ds n + single_layer_size c ds"
  shows "apply_streamcipher c ds n data k FromBack =
    Ok (xors data (drop (total_size c ds n + single_layer_size c ds - length data) (pad c ds n k)))"
  using assms length_pad [OF assms(1), of ds n k]
  by (simp add: apply_streamcipher_def xor_in_place_def xors_def Let_def flip: pad_def)

lemma compute_mac_eq:
  assumes "cipher_laws c rnd"
  shows "compute_mac c k d = Ok (take (mac_size c) (hmac c k d))"
proof -
  have "mac_size c \<le> length (hmac c k d)" using assms by (simp add: cipher_laws_def)
  then show ?thesis by (simp add: compute_mac_def Let_def)
qed

text \<open>The filler: one more layer of zeros for every key, all of it masked with the end of the key's bytes.\<close>

definition filler_step :: "('sk, 'mk) cipher_crypto \<Rightarrow> nat \<Rightarrow> nat \<Rightarrow> bytes \<Rightarrow> 'sk \<Rightarrow> bytes" where
  "filler_step c ds n f k =
     xors (f @ replicate (single_layer_size c ds) 0)
       (drop (total_size c ds n - length f) (pad c ds n k))"

definition filler :: "('sk, 'mk) cipher_crypto \<Rightarrow> nat \<Rightarrow> nat \<Rightarrow> 'sk list \<Rightarrow> bytes" where
  "filler c ds n ks = foldl (filler_step c ds n) [] ks"

lemma filler_snoc: "filler c ds n (ks @ [k]) = filler_step c ds n (filler c ds n ks) k"
  by (simp add: filler_def)

lemma length_filler:
  assumes "cipher_laws c rnd" and "length ks \<le> n"
  shows "length (filler c ds n ks) = length ks * single_layer_size c ds"
  using assms(2)
proof (induction ks rule: rev_induct)
  case (snoc k ks)
  have "length ks * single_layer_size c ds \<le> total_size c ds n"
    using snoc.prems by (simp add: total_size_def mult.commute)
  then show ?case using snoc assms(1) by (simp add: filler_snoc filler_step_def algebra_simps)
qed (simp add: filler_def)

lemma apply_fillers_eq:
  assumes "cipher_laws c rnd" and "length f = i * single_layer_size c ds" and "i + length ks \<le> n"
  shows "apply_fillers c ds n i ks (f @ replicate (single_layer_size c ds * length ks) 0) =
    Ok (foldl (filler_step c ds n) f ks)"
  using assms(2,3)
proof (induction ks arbitrary: i f)
  case Nil
  then show ?case by simp
next
  case (Cons k ks)
  let ?S = "single_layer_size c ds" and ?L = "total_size c ds n"
  let ?front = "f @ replicate ?S 0"
  have split: "f @ replicate (?S * length (k # ks)) 0 = ?front @ replicate (?S * length ks) 0"
    by (simp add: replicate_add)
  have len: "length ?front = (i + 1) * ?S" using Cons.prems(1) by simp
  have "(i + 1) * ?S \<le> n * ?S" using Cons.prems(2) by (intro mult_le_mono1) simp
  then have le: "(i + 1) * ?S \<le> ?L" by (simp add: total_size_def mult.commute)
  have front: "apply_streamcipher c ds n ?front k FromBack = Ok (filler_step c ds n f k)"
    using apply_back [OF assms(1), of ?front ds n k] len le Cons.prems(1) by (simp add: filler_step_def)
  have "length (filler_step c ds n f k) = (i + 1) * ?S"
    using len le Cons.prems(1) assms(1) by (simp add: filler_step_def)
  note IH = Cons.IH [OF this]
  have td: "take ((i + 1) * ?S) (?front @ replicate (?S * length ks) 0) = ?front"
      "drop ((i + 1) * ?S) (?front @ replicate (?S * length ks) 0) = replicate (?S * length ks) 0"
    unfolding len [symmetric] by simp_all
  show ?case unfolding split apply_fillers.simps Let_def td front bind_outcome.simps foldl_Cons
    by (rule IH) (use Cons.prems(2) in simp)
qed

text \<open>What the layers from a position on encrypt to, given the keys of the layers before it.\<close>

definition layer_mac :: "('sk, 'mk) cipher_crypto \<Rightarrow> ('sk, 'mk) encryption_param \<Rightarrow> bytes \<Rightarrow> bytes" where
  "layer_mac c p e = take (mac_size c) (hmac c (integrity_mac_key (ep_key p)) e)"

abbreviation layer_key :: "('sk, 'mk) encryption_param \<Rightarrow> 'sk" where
  "layer_key p \<equiv> stream_cipher_key (ep_key p)"

fun layer ::
  "('sk, 'mk) cipher_crypto \<Rightarrow> (nat \<Rightarrow> bytes) \<Rightarrow> nat \<Rightarrow> nat \<Rightarrow> 'sk list \<Rightarrow> ('sk, 'mk) encryption_param list \<Rightarrow> bytes" where
  "layer c rnd ds n pre [] = []"
| "layer c rnd ds n pre [p] =
     xors (ep_data p @ rnd (total_size c ds n - ds - length (filler c ds n pre)))
       (take (total_size c ds n - length (filler c ds n pre)) (pad c ds n (layer_key p))) @ filler c ds n pre"
| "layer c rnd ds n pre (p # q # ps) =
     (let e = layer c rnd ds n (pre @ [layer_key p]) (q # ps) in
      xors (ep_data p @ layer_mac c q e @ take (total_size c ds n - single_layer_size c ds) e)
        (take (total_size c ds n) (pad c ds n (layer_key p))))"

definition layers_ok :: "('sk, 'mk) cipher_crypto \<Rightarrow> nat \<Rightarrow> nat \<Rightarrow> 'sk list \<Rightarrow> ('sk, 'mk) encryption_param list \<Rightarrow> bool" where
  "layers_ok c ds n pre params \<longleftrightarrow> params \<noteq> [] \<and> (\<forall>p \<in> set params. length (ep_data p) = ds) \<and>
     length pre + length params \<le> n"

lemma layers_ok_sizes:
  assumes "cipher_laws c rnd" and "layers_ok c ds n pre params"
  shows "length (filler c ds n pre) = length pre * single_layer_size c ds"
    and "length pre * single_layer_size c ds + single_layer_size c ds \<le> total_size c ds n"
    and "mac_size c \<le> single_layer_size c ds" and "ds \<le> single_layer_size c ds"
proof -
  have "length pre + 1 \<le> n" using assms(2) by (cases params) (auto simp: layers_ok_def)
  then have "(length pre + 1) * single_layer_size c ds \<le> n * single_layer_size c ds" by (intro mult_le_mono1)
  then show "length pre * single_layer_size c ds + single_layer_size c ds \<le> total_size c ds n"
    by (simp add: total_size_def mult.commute)
  show "length (filler c ds n pre) = length pre * single_layer_size c ds"
    using length_filler [OF assms(1)] \<open>length pre + 1 \<le> n\<close> by simp
qed (simp_all add: single_layer_size_def)

lemma length_layer_mac: "cipher_laws c rnd \<Longrightarrow> length (layer_mac c p e) = mac_size c"
  by (simp add: layer_mac_def cipher_laws_def min_absorb2)

lemma layers_ok_Cons: "layers_ok c ds n pre (p # q # ps) \<Longrightarrow> layers_ok c ds n (pre @ [k]) (q # ps)"
  by (simp add: layers_ok_def)

text \<open>The encrypted part of the last layer fills what the filler leaves.\<close>

lemma length_last_front:
  assumes "cipher_laws c rnd" and "layers_ok c ds n pre [p]"
  shows "length (xors (ep_data p @ rnd (total_size c ds n - ds - length (filler c ds n pre)))
      (take (total_size c ds n - length (filler c ds n pre)) (pad c ds n (layer_key p))))
    = total_size c ds n - length (filler c ds n pre)"
proof -
  let ?L = "total_size c ds n" and ?F = "length (filler c ds n pre)"
  have "length (ep_data p) = ds" "length (rnd (?L - ds - ?F)) = ?L - ds - ?F"
    using assms by (simp_all add: layers_ok_def cipher_laws_def)
  moreover have "ds + ?F \<le> ?L" using layers_ok_sizes [OF assms] by linarith
  ultimately show ?thesis using length_pad [OF assms(1), of ds n "layer_key p"] by simp
qed

lemma length_cipher_layer:
  assumes "cipher_laws c rnd"
  shows "layers_ok c ds n pre params \<Longrightarrow> length (layer c rnd ds n pre params) = total_size c ds n"
proof (induction params arbitrary: pre rule: induct_list012)
  case (2 p)
  have "length (filler c ds n pre) \<le> total_size c ds n" using layers_ok_sizes [OF assms 2] by linarith
  then show ?case unfolding layer.simps length_append length_last_front [OF assms 2] by simp
next
  case (3 p q ps)
  let ?e = "layer c rnd ds n (pre @ [layer_key p]) (q # ps)"
  have "length ?e = total_size c ds n" by (rule 3(2) [OF layers_ok_Cons [OF 3(3)]])
  moreover have "length (ep_data p) = ds" using 3(3) by (simp add: layers_ok_def)
  ultimately show ?case using layers_ok_sizes [OF assms 3(3)] assms length_layer_mac [OF assms, of q ?e]
    by (simp add: Let_def single_layer_size_def)
qed (simp add: layers_ok_def)

lemma drop_take_suffix:
  assumes "length e = l" and "k + s \<le> l" and "drop (l - (k + s)) e = f"
  shows "drop (l - k - s) (take (l - s) e) = take k f" and "drop (l - s) e = drop k f"
proof -
  have "take k f = drop (l - (k + s)) (take (l - s) e)"
    unfolding assms(3) [symmetric] using assms(2) by (simp add: take_drop add.commute)
  then show "drop (l - k - s) (take (l - s) e) = take k f" by (simp add: diff_diff_left)
  show "drop (l - s) e = drop k f" unfolding assms(3) [symmetric] using assms(2) by simp
qed

text \<open>The end of every layer is the filler of the keys before it: this is what makes the bytes that a hop cuts off
  come back when the hop decrypts.\<close>

lemma layer_suffix:
  assumes "cipher_laws c rnd"
  shows "layers_ok c ds n pre params \<Longrightarrow>
    drop (total_size c ds n - length pre * single_layer_size c ds) (layer c rnd ds n pre params) = filler c ds n pre"
proof (induction params arbitrary: pre rule: induct_list012)
  case (2 p)
  show ?case unfolding layer.simps layers_ok_sizes(1) [OF assms 2, symmetric]
    using length_last_front [OF assms 2] by simp
next
  case (3 p q ps)
  let ?L = "total_size c ds n" and ?S = "single_layer_size c ds" and ?P = "pad c ds n (layer_key p)"
  let ?e = "layer c rnd ds n (pre @ [layer_key p]) (q # ps)"
  let ?k = "length pre * ?S"
  have ok: "layers_ok c ds n (pre @ [layer_key p]) (q # ps)" by (rule layers_ok_Cons [OF 3(3)])
  have sz: "length (filler c ds n pre) = ?k" "?k + ?S \<le> ?L" "length ?e = ?L" "length (ep_data p) = ds"
    using layers_ok_sizes [OF assms 3(3)] length_cipher_layer [OF assms ok] 3(3) by (simp_all add: layers_ok_def)
  have "drop (?L - (?k + ?S)) ?e = filler_step c ds n (filler c ds n pre) (layer_key p)"
    using 3(2) [OF ok] by (simp add: filler_snoc add.commute)
  note suffix = drop_take_suffix(1) [OF sz(3,2) this]
  have cut: "drop (?L - ?k) (ep_data p @ layer_mac c q ?e @ take (?L - ?S) ?e) = drop (?L - ?k - ?S) (take (?L - ?S) ?e)"
  proof -
    have "length (ep_data p @ layer_mac c q ?e) = ?S"
      using sz(4) length_layer_mac [OF assms, of q ?e] by (simp add: single_layer_size_def)
    then show ?thesis using sz(2) drop_append [of "?L - ?k" "ep_data p @ layer_mac c q ?e" "take (?L - ?S) ?e"] by simp
  qed
  have mask: "take ?k (drop (?L - ?k) ?P) = drop (?L - ?k) (take ?L ?P)" using sz(2) by (simp add: take_drop)
  have "drop (?L - ?k) (layer c rnd ds n pre (p # q # ps))
      = xors (take ?k (filler_step c ds n (filler c ds n pre) (layer_key p))) (drop (?L - ?k) (take ?L ?P))"
    using suffix cut by (simp add: Let_def drop_xors)
  also have "\<dots> = xors (xors (filler c ds n pre) (drop (?L - ?k) (take ?L ?P))) (drop (?L - ?k) (take ?L ?P))"
    using sz(1) mask by (simp add: take_xors filler_step_def)
  also have "\<dots> = filler c ds n pre"
    using sz(1,2) length_pad [OF assms, of ds n "layer_key p"] by (intro xors_cancel) simp
  finally show ?case .
qed (simp add: layers_ok_def)

section \<open>Encryption and decryption\<close>

declare layer.simps [simp del]

lemma build_last_layer_eq:
  assumes "cipher_laws c rnd" and "layers_ok c ds n (map layer_key ps) [q]"
  shows "build_last_layer c rnd ds n (ps @ [q]) =
    Ok (layer c rnd ds n (map layer_key ps) [q], layer_mac c q (layer c rnd ds n (map layer_key ps) [q]))"
proof -
  let ?F = "filler c ds n (map layer_key ps)" and ?L = "total_size c ds n"
  have "length (map layer_key ps) \<le> n" using assms(2) by (simp add: layers_ok_def)
  then have fill: "build_fillers c ds n ps = Ok ?F"
    using apply_fillers_eq [OF assms(1), of "[]" 0 ds "map layer_key ps" n]
    by (simp add: build_fillers_def filler_def)
  let ?data = "ep_data q @ rnd (?L - ds - length ?F)"
  have len: "length ?data = ?L - length ?F"
  proof -
    have "length (ep_data q) = ds" "length (rnd (?L - ds - length ?F)) = ?L - ds - length ?F"
      using assms by (simp_all add: layers_ok_def cipher_laws_def)
    moreover have "ds + length ?F \<le> ?L" using layers_ok_sizes [OF assms] by linarith
    ultimately show ?thesis by simp
  qed
  then have "length ?data \<le> ?L + single_layer_size c ds" by linarith
  from apply_front [OF assms(1) this] have front: "apply_streamcipher c ds n ?data (layer_key q) FromFront =
      Ok (xors ?data (take (?L - length ?F) (pad c ds n (layer_key q))))"
    unfolding len .
  have e: "xors ?data (take (?L - length ?F) (pad c ds n (layer_key q))) @ ?F = layer c rnd ds n (map layer_key ps) [q]"
    unfolding layer.simps ..
  show ?thesis
    unfolding build_last_layer_def Let_def butlast_snoc last_snoc fill bind_outcome.simps front e
      compute_mac_eq [OF assms(1)] layer_mac_def
    using length_cipher_layer [OF assms] by simp
qed

lemma build_intermediate_layer_eq:
  assumes "cipher_laws c rnd" and "layers_ok c ds n pre (p # q # ps)"
  defines "e \<equiv> layer c rnd ds n (pre @ [layer_key p]) (q # ps)"
  shows "build_intermediate_layer c ds n p (layer_mac c q e) e =
    Ok (layer c rnd ds n pre (p # q # ps), layer_mac c p (layer c rnd ds n pre (p # q # ps)))"
proof -
  let ?L = "total_size c ds n" and ?S = "single_layer_size c ds"
  let ?data = "ep_data p @ layer_mac c q e @ take (?L - ?S) e"
  have e: "length e = ?L" unfolding e_def by (rule length_cipher_layer [OF assms(1) layers_ok_Cons [OF assms(2)]])
  have S: "?S \<le> ?L" using layers_ok_sizes(2) [OF assms(1,2)] by linarith
  have len: "length ?data = ?L"
    using S e length_layer_mac [OF assms(1), of q e] assms(2) by (simp add: layers_ok_def single_layer_size_def)
  have app: "apply_streamcipher c ds n ?data (layer_key p) FromFront = Ok (layer c rnd ds n pre (p # q # ps))"
    using apply_front [OF assms(1), of ?data ds n "layer_key p"] len
    unfolding layer.simps Let_def e_def [symmetric] by simp
  show ?thesis
    unfolding build_intermediate_layer_def e app bind_outcome.simps compute_mac_eq [OF assms(1)]
    using S length_cipher_layer [OF assms(1,2)] by (simp add: layer_mac_def)
qed

lemma wrap_layers_eq:
  assumes "cipher_laws c rnd"
  shows "layers_ok c ds n pre (ps @ [q]) \<Longrightarrow>
    wrap_layers c ds n ps (layer c rnd ds n (pre @ map layer_key ps) [q],
      layer_mac c q (layer c rnd ds n (pre @ map layer_key ps) [q])) =
    Ok (layer c rnd ds n pre (ps @ [q]), layer_mac c (hd (ps @ [q])) (layer c rnd ds n pre (ps @ [q])))"
proof (induction ps arbitrary: pre)
  case Nil
  then show ?case by simp
next
  case (Cons p ps)
  obtain r rs where rs: "ps @ [q] = r # rs" by (cases ps) auto
  have ok: "layers_ok c ds n pre (p # r # rs)" using Cons.prems rs by simp
  have "wrap_layers c ds n ps (layer c rnd ds n (pre @ map layer_key (p # ps)) [q],
      layer_mac c q (layer c rnd ds n (pre @ map layer_key (p # ps)) [q])) =
    Ok (layer c rnd ds n (pre @ [layer_key p]) (r # rs), layer_mac c r (layer c rnd ds n (pre @ [layer_key p]) (r # rs)))"
    using Cons.IH [of "pre @ [layer_key p]"] layers_ok_Cons [OF ok] rs by simp
  then show ?case using build_intermediate_layer_eq [OF assms ok] rs by simp
qed

lemma cipher_encrypt_eq:
  assumes "cipher_laws c rnd" and "layers_ok c ds n [] params"
  shows "cipher_encrypt c rnd ds n params = Ok (layer c rnd ds n [] params, layer_mac c (hd params) (layer c rnd ds n [] params))"
proof -
  obtain ps q where ps: "params = ps @ [q]" using assms(2) by (cases params rule: rev_cases) (auto simp: layers_ok_def)
  have "layers_ok c ds n (map layer_key ps) [q]" using assms(2) ps by (simp add: layers_ok_def)
  then show ?thesis
    using build_last_layer_eq [OF assms(1), of ds n ps q] wrap_layers_eq [OF assms(1), of ds n "[]" ps q] assms(2) ps
    by (simp add: cipher_encrypt_def layers_ok_def)
qed

lemma decrypt_bytes:
  assumes "cipher_laws c rnd" and "length x = total_size c ds n"
  shows "apply_streamcipher c ds n (xors x (take (total_size c ds n) (pad c ds n k)) @ replicate (single_layer_size c ds) 0) k FromFront
    = Ok (x @ drop (total_size c ds n) (pad c ds n k))"
proof -
  let ?L = "total_size c ds n" and ?S = "single_layer_size c ds" and ?P = "pad c ds n k"
  let ?e = "xors x (take ?L ?P)"
  have P: "length ?P = ?L + ?S" by (rule length_pad [OF assms(1)])
  have e: "length (?e @ replicate ?S 0) = ?L + ?S" using assms(2) P by simp
  have "xors (?e @ replicate ?S 0) ?P = xors (?e @ replicate ?S 0) (take ?L ?P @ drop ?L ?P)" by simp
  also have "\<dots> = xors ?e (take ?L ?P) @ xors (replicate ?S 0) (drop ?L ?P)"
    using assms(2) P by (intro xors_append) simp
  also have "\<dots> = x @ drop ?L ?P" using xors_cancel [of x "take ?L ?P"] xors_zero [of "drop ?L ?P" ?S] assms(2) P by simp
  finally show ?thesis using apply_front [OF assms(1), of "?e @ replicate ?S 0" ds n k] e P by simp
qed

text \<open>A hop that is not the last gets its data, and the layer and the hash for the next hop unchanged.\<close>

lemma cipher_unpack_next:
  assumes "cipher_laws c rnd" and "layers_ok c ds n pre (p # q # ps)"
  defines "e' \<equiv> layer c rnd ds n (pre @ [layer_key p]) (q # ps)" and "e \<equiv> layer c rnd ds n pre (p # q # ps)"
  shows "cipher_unpack c ds n (layer_mac c p e) e (ep_key p) = Ok (ep_data p, layer_mac c q e', e')"
proof -
  let ?L = "total_size c ds n" and ?S = "single_layer_size c ds" and ?P = "pad c ds n (layer_key p)"
  let ?x = "ep_data p @ layer_mac c q e' @ take (?L - ?S) e'"
  note ok = layers_ok_Cons [OF assms(2), of "layer_key p"]
  have sz: "length pre * ?S + ?S \<le> ?L" "length e' = ?L" "length (ep_data p) = ds" "length (layer_mac c q e') = mac_size c"
      "length (filler c ds n pre) = length pre * ?S"
    using layers_ok_sizes [OF assms(1,2)] length_cipher_layer [OF assms(1) ok] assms(2) length_layer_mac [OF assms(1)]
    by (simp_all add: layers_ok_def e'_def)
  have x: "length ?x = ?L" using sz by (simp add: single_layer_size_def)
  have dec: "apply_streamcipher c ds n (e @ replicate ?S 0) (layer_key p) FromFront = Ok (?x @ drop ?L ?P)"
    using decrypt_bytes [OF assms(1) x] unfolding e_def layer.simps Let_def e'_def .
  have "drop (?L - (length pre * ?S + ?S)) e' = filler_step c ds n (filler c ds n pre) (layer_key p)"
    using layer_suffix [OF assms(1) ok] by (simp add: e'_def filler_snoc add.commute)
  from drop_take_suffix(2) [OF sz(2,1) this] have "drop (?L - ?S) e' = drop ?L ?P"
    using sz length_pad [OF assms(1), of ds n "layer_key p"]
    by (simp add: filler_step_def drop_xors xors_zero add.commute)
  then have "take (?L - ?S) e' @ drop ?L ?P = e'" by (metis append_take_drop_id)
  then have parts: "?x @ drop ?L ?P = ep_data p @ layer_mac c q e' @ e'" by simp
  have "mac_verify c (layer_mac c p e) (integrity_mac_key (ep_key p)) e"
    using assms(1) by (simp add: layer_mac_def cipher_laws_def)
  then show ?thesis
    unfolding cipher_unpack_def dec bind_outcome.simps parts using length_cipher_layer [OF assms(1,2)] sz(2-4)
    by (simp add: e_def)
qed

lemma cipher_unpack_last:
  assumes "cipher_laws c rnd" and "layers_ok c ds n pre [p]"
  defines "e \<equiv> layer c rnd ds n pre [p]"
  shows "\<exists>m e'. cipher_unpack c ds n (layer_mac c p e) e (ep_key p) = Ok (ep_data p, m, e')"
proof -
  let ?L = "total_size c ds n" and ?S = "single_layer_size c ds" and ?P = "pad c ds n (layer_key p)"
  let ?F = "length (filler c ds n pre)"
  let ?d = "e @ replicate ?S 0"
  have e: "length e = ?L" unfolding e_def by (rule length_cipher_layer [OF assms(1,2)])
  have P: "length ?P = ?L + ?S" by (rule length_pad [OF assms(1)])
  have dec: "apply_streamcipher c ds n ?d (layer_key p) FromFront = Ok (xors ?d ?P)"
    using apply_front [OF assms(1), of ?d ds n "layer_key p"] e P by simp
  have ds: "length (ep_data p) = ds" "ds + ?F \<le> ?L" using assms(2) layers_ok_sizes [OF assms(1,2)] by (simp_all add: layers_ok_def)
  have "take ds (xors ?d ?P) = xors (take ds e) (take ds ?P)" using e ds(2) by (simp add: take_xors)
  also have "take ds e = xors (ep_data p) (take ds ?P)"
  proof -
    have "take ds e = take ds (xors (ep_data p @ rnd (?L - ds - ?F)) (take (?L - ?F) ?P))"
      unfolding e_def layer.simps take_append length_last_front [OF assms(1,2)] using ds(2) by simp
    moreover have "min ds (?L - ?F) = ds" using ds(2) by linarith
    ultimately show ?thesis unfolding take_xors using ds(1) by (simp add: min.commute)
  qed
  finally have data: "take ds (xors ?d ?P) = ep_data p" using ds P by (simp add: xors_cancel)
  obtain m e' where parse: "parse_bytes (xors ?d ?P) [ds, mac_size c, ?L] = Some [take ds (xors ?d ?P), m, e']"
    using e P by (simp add: single_layer_size_def)
  have "mac_verify c (layer_mac c p e) (integrity_mac_key (ep_key p)) e"
    using assms(1) by (simp add: layer_mac_def cipher_laws_def)
  then show ?thesis unfolding cipher_unpack_def dec bind_outcome.simps parse using e data by simp
qed

fun unpack_all ::
  "('sk, 'mk) cipher_crypto \<Rightarrow> nat \<Rightarrow> nat \<Rightarrow> bytes \<Rightarrow> bytes \<Rightarrow> ('sk, 'mk) cipher_key list \<Rightarrow> (cipher_error, bytes list) outcome" where
  "unpack_all c ds n mac e [] = Ok []"
| "unpack_all c ds n mac e (k # ks) =
     bind_outcome (cipher_unpack c ds n mac e k) (\<lambda>(data, mac', e').
     bind_outcome (unpack_all c ds n mac' e' ks) (\<lambda>rest. Ok (data # rest)))"

lemma unpack_all_layers:
  assumes "cipher_laws c rnd"
  shows "layers_ok c ds n pre params \<Longrightarrow>
    unpack_all c ds n (layer_mac c (hd params) (layer c rnd ds n pre params)) (layer c rnd ds n pre params)
      (map ep_key params) = Ok (map ep_data params)"
proof (induction params arbitrary: pre rule: induct_list012)
  case (2 p)
  then show ?case using cipher_unpack_last [OF assms 2] by auto
next
  case (3 p q ps)
  have "unpack_all c ds n (layer_mac c q (layer c rnd ds n (pre @ [layer_key p]) (q # ps)))
      (layer c rnd ds n (pre @ [layer_key p]) (q # ps)) (map ep_key (q # ps)) = Ok (map ep_data (q # ps))"
    using 3(2) [OF layers_ok_Cons [OF 3(3)]] by simp
  then show ?case using cipher_unpack_next [OF assms 3(3)] by simp
qed (simp add: layers_ok_def)

text \<open>The layered cipher returns to every hop its own data: for at most \<open>max_layers\<close> layers of data of the fixed
  size, encryption succeeds with an output whose length depends only on \<open>max_layers\<close>, and the holders of the
  keys, unpacking in turn, each pass the integrity check and read their data. The bytes a hop cuts off to keep the
  length are restored by the next decryption.\<close>

theorem layered_cipher_roundtrip:
  assumes "cipher_laws c rnd" and "params \<noteq> []" and "length params \<le> n"
    and "\<And>p. p \<in> set params \<Longrightarrow> length (ep_data p) = ds"
  shows "\<exists>e mac. cipher_encrypt c rnd ds n params = Ok (e, mac) \<and> length e = total_size c ds n \<and>
    unpack_all c ds n mac e (map ep_key params) = Ok (map ep_data params)"
proof -
  have ok: "layers_ok c ds n [] params" using assms(2-4) by (simp add: layers_ok_def)
  show ?thesis
    using cipher_encrypt_eq [OF assms(1) ok] length_cipher_layer [OF assms(1) ok] unpack_all_layers [OF assms(1) ok] by simp
qed

definition sample_cipher :: "(u8, u8) cipher_crypto" where
  "sample_cipher = \<lparr>prg = (\<lambda>k n. replicate n k), hmac = (\<lambda>k d. replicate 16 (k XOR fold (\<lambda>x y. x XOR y) d 0)),
     mac_verify = (\<lambda>m k d. m = replicate 16 (k XOR fold (\<lambda>x y. x XOR y) d 0)), mac_size = 16\<rparr>"

lemma sample_cipher_laws: "cipher_laws sample_cipher (\<lambda>n. replicate n 7)"
  by (simp add: cipher_laws_def sample_cipher_def)

definition sample_param :: "u8 \<Rightarrow> u8 \<Rightarrow> (u8, u8) encryption_param" where
  "sample_param d k = \<lparr>ep_data = [d], ep_key = \<lparr>stream_cipher_key = k, integrity_mac_key = k + 1\<rparr>\<rparr>"

theorem layered_cipher_roundtrip_witness:
  "\<exists>e mac. cipher_encrypt sample_cipher (\<lambda>n. replicate n 7) 1 5 [sample_param 1 10, sample_param 2 20] = Ok (e, mac) \<and>
     unpack_all sample_cipher 1 5 mac e (map ep_key [sample_param 1 10, sample_param 2 20]) = Ok [[1], [2]]"
proof -
  have "\<exists>e mac. cipher_encrypt sample_cipher (\<lambda>n. replicate n 7) 1 5 [sample_param 1 10, sample_param 2 20] = Ok (e, mac) \<and>
      length e = total_size sample_cipher 1 5 \<and>
      unpack_all sample_cipher 1 5 mac e (map ep_key [sample_param 1 10, sample_param 2 20])
        = Ok (map ep_data [sample_param 1 10, sample_param 2 20])"
    by (rule layered_cipher_roundtrip [OF sample_cipher_laws]) (auto simp: sample_param_def)
  then show ?thesis by (auto simp: sample_param_def)
qed

end
