(* ===== verification/Blend_Message.thy ===== *)
theory Blend_Message
  imports Prelude
begin

text \<open>
  The interface of the messages of the blend network, the trait \<open>BlendMessage\<close> of \<open>nomos-blend/message/src/lib.rs\<close>, and
  its unencrypted implementation \<open>nomos-blend/message/src/mock/mod.rs\<close>, in which a message is the list of the node
  identifiers still to visit in front of the padded payload.
\<close>

section \<open>The interface\<close>

text \<open>A message that travels along the recipients: what each hands on, and what the last one reads.\<close>

fun unwrap_along ::
  "(bytes \<Rightarrow> 'priv \<Rightarrow> ('e, bytes \<times> bool) outcome) \<Rightarrow> bytes \<Rightarrow> 'priv list \<Rightarrow> (bytes list \<times> bytes) option" where
  "unwrap_along unwrap message [] = None"
| "unwrap_along unwrap message [s] =
     (case unwrap message s of Ok (payload, True) \<Rightarrow> Some ([], payload) | _ \<Rightarrow> None)"
| "unwrap_along unwrap message (s # s' # ss) =
     (case unwrap message s of
        Ok (message', False) \<Rightarrow> map_option (\<lambda>(fwd, payload). (message' # fwd, payload)) (unwrap_along unwrap message' (s' # ss))
      | _ \<Rightarrow> None)"

text \<open>
  What the trait promises its users: a message that can be built for recipients travels along them, each but the last
  unwraps it to a message for the rest, the last one reads the payload, and every message on the way is as long as
  the one that is dropped.
\<close>

locale blend_message =
  fixes build :: "bytes \<Rightarrow> 'pub list \<Rightarrow> ('e, bytes) outcome"
    and unwrap :: "bytes \<Rightarrow> 'priv \<Rightarrow> ('e, bytes \<times> bool) outcome"
    and public :: "'priv \<Rightarrow> 'pub"
    and drop_message :: bytes
    and buildable :: "bytes \<Rightarrow> 'priv list \<Rightarrow> bool"
    and travels :: "'priv list \<Rightarrow> bytes \<Rightarrow> bytes \<Rightarrow> bool"
  assumes build_travels: "buildable p ss \<Longrightarrow> \<exists>m. build p (map public ss) = Ok m \<and> travels ss p m"
    and travels_last: "travels [s] p m \<Longrightarrow> unwrap m s = Ok (p, True)"
    and travels_next: "travels (s # s' # ss) p m \<Longrightarrow> \<exists>m'. unwrap m s = Ok (m', False) \<and> travels (s' # ss) p m'"
    and travels_some: "\<not> travels [] p m"
    and travels_length: "travels ss p m \<Longrightarrow> length m = length drop_message"
begin

lemma travels_unwrap_along:
  "travels ss p m \<Longrightarrow> \<exists>fwd. unwrap_along unwrap m ss = Some (fwd, p) \<and> length fwd = length ss - 1 \<and>
     (\<forall>x \<in> set (m # fwd). length x = length drop_message)"
proof (induction ss arbitrary: m rule: induct_list012)
  case 1
  then show ?case using travels_some by simp
next
  case (2 s)
  then show ?case using travels_last travels_length by auto
next
  case (3 s s' ss)
  obtain m' where m': "unwrap m s = Ok (m', False)" "travels (s' # ss) p m'" using travels_next [OF 3(3)] by blast
  show ?case using 3(2) [OF m'(2)] m'(1) travels_length [OF 3(3)] by auto
qed

lemma build_unwraps:
  assumes "buildable p ss"
  shows "\<exists>m fwd. build p (map public ss) = Ok m \<and> unwrap_along unwrap m ss = Some (fwd, p) \<and>
    length fwd = length ss - 1 \<and> (\<forall>x \<in> set (m # fwd). length x = length drop_message)"
  using build_travels [OF assms] travels_unwrap_along by metis

end

section \<open>The mock messages\<close>

datatype mock_error =
    InvalidBlendMessage
  | PayloadTooLarge
  | InvalidNumberOfLayers
  | InvalidPublicKey
  | MsgUnwrapNotAllowed

abbreviation NODE_ID_SIZE :: nat where "NODE_ID_SIZE \<equiv> 32"
abbreviation MAX_PAYLOAD_SIZE :: nat where "MAX_PAYLOAD_SIZE \<equiv> 2048"
abbreviation PAYLOAD_PADDING_SEPARATOR :: u8 where "PAYLOAD_PADDING_SEPARATOR \<equiv> 1"
abbreviation MAX_LAYERS :: nat where "MAX_LAYERS \<equiv> 5"

definition MESSAGE_SIZE :: nat where
  "MESSAGE_SIZE = NODE_ID_SIZE * MAX_LAYERS + MAX_PAYLOAD_SIZE + 1"

definition DUMMY_NODE_ID :: bytes where
  "DUMMY_NODE_ID = replicate NODE_ID_SIZE (- 1)"

definition mock_drop_message :: bytes where
  "mock_drop_message = replicate MESSAGE_SIZE 0"

definition mock_build_message :: "bytes \<Rightarrow> bytes list \<Rightarrow> (mock_error, bytes) outcome" where
  "mock_build_message payload node_ids =
     (if node_ids = [] \<or> MAX_LAYERS < length node_ids then Err InvalidNumberOfLayers
      else if MAX_PAYLOAD_SIZE < length payload then Err PayloadTooLarge
      else if DUMMY_NODE_ID \<in> set node_ids then Err InvalidPublicKey
      else Ok (concat node_ids @ concat (replicate (MAX_LAYERS - length node_ids) DUMMY_NODE_ID) @
        payload @ PAYLOAD_PADDING_SEPARATOR # replicate (MAX_PAYLOAD_SIZE - length payload) 0))"

text \<open>\<open>rposition\<close> of an iterator: the position of the last element that matches.\<close>

fun rposition :: "('a \<Rightarrow> bool) \<Rightarrow> 'a list \<Rightarrow> nat option" where
  "rposition P [] = None"
| "rposition P (x # xs) =
     (case rposition P xs of Some i \<Rightarrow> Some (Suc i) | None \<Rightarrow> if P x then Some 0 else None)"

definition mock_payload :: "bytes \<Rightarrow> (mock_error, bytes) outcome" where
  "mock_payload message =
     (if length message < NODE_ID_SIZE * MAX_LAYERS then Abort
      else let padded = drop (NODE_ID_SIZE * MAX_LAYERS) message in
        case rposition (\<lambda>x. x = PAYLOAD_PADDING_SEPARATOR) padded of
          None \<Rightarrow> Err InvalidBlendMessage
        | Some pos \<Rightarrow> Ok (take pos padded))"

definition mock_unwrap_message :: "bytes \<Rightarrow> bytes \<Rightarrow> (mock_error, bytes \<times> bool) outcome" where
  "mock_unwrap_message message node_id =
     (if length message \<noteq> MESSAGE_SIZE then Err InvalidBlendMessage
      else if take NODE_ID_SIZE message \<noteq> node_id then Err MsgUnwrapNotAllowed
      else if take NODE_ID_SIZE (drop NODE_ID_SIZE message) = DUMMY_NODE_ID then
        bind_outcome (mock_payload message) (\<lambda>payload. Ok (payload, True))
      else Ok (take (NODE_ID_SIZE * MAX_LAYERS - NODE_ID_SIZE) (drop NODE_ID_SIZE message) @ DUMMY_NODE_ID @
        drop (NODE_ID_SIZE * MAX_LAYERS) message, False))"

subsection \<open>The mock messages keep the contract\<close>

definition mock_buildable :: "bytes \<Rightarrow> bytes list \<Rightarrow> bool" where
  "mock_buildable p ids \<longleftrightarrow> ids \<noteq> [] \<and> length ids \<le> MAX_LAYERS \<and> length p \<le> MAX_PAYLOAD_SIZE \<and>
     DUMMY_NODE_ID \<notin> set ids \<and> (\<forall>i \<in> set ids. length i = NODE_ID_SIZE)"

definition mock_layers :: "bytes list \<Rightarrow> bytes \<Rightarrow> bytes" where
  "mock_layers ids p = concat ids @ concat (replicate (MAX_LAYERS - length ids) DUMMY_NODE_ID) @
     p @ PAYLOAD_PADDING_SEPARATOR # replicate (MAX_PAYLOAD_SIZE - length p) 0"

definition mock_travels :: "bytes list \<Rightarrow> bytes \<Rightarrow> bytes \<Rightarrow> bool" where
  "mock_travels ids p m \<longleftrightarrow> mock_buildable p ids \<and> m = mock_layers ids p"

lemma length_DUMMY [simp]: "length DUMMY_NODE_ID = 32"
  by (simp add: DUMMY_NODE_ID_def)

lemma length_concat_ids:
  "(\<forall>i \<in> set ids. length i = n) \<Longrightarrow> length (concat ids) = n * length ids"
  by (induction ids) auto

lemma length_concat_dummies [simp]: "length (concat (replicate n DUMMY_NODE_ID)) = 32 * n"
  by (induction n) auto

lemma length_ids:
  assumes "\<forall>i \<in> set ids. length i = 32" and "length ids \<le> n"
  shows "length (concat ids @ concat (replicate (n - length ids) DUMMY_NODE_ID)) = 32 * n"
proof -
  have "32 * length ids + 32 * (n - length ids) = 32 * n" using assms(2) by (simp flip: distrib_left)
  then show ?thesis using length_concat_ids [OF assms(1)] by simp
qed

lemma rposition_append:
  "rposition P (xs @ ys) = (case rposition P ys of Some i \<Rightarrow> Some (length xs + i) | None \<Rightarrow> rposition P xs)"
  by (induction xs) (auto split: option.splits)

lemma rposition_none: "\<forall>x \<in> set xs. \<not> P x \<Longrightarrow> rposition P xs = None"
  by (induction xs) auto

lemma rposition_padding: "rposition (\<lambda>x. x = (1 :: u8)) (p @ 1 # replicate n 0) = Some (length p)"
  by (simp add: rposition_append rposition_none)

lemma mock_layers_length:
  assumes "mock_buildable p ids"
  shows "length (mock_layers ids p) = MESSAGE_SIZE"
proof -
  have "length (concat ids @ concat (replicate (5 - length ids) DUMMY_NODE_ID)) = 160"
    using length_ids [of ids 5] assms by (simp add: mock_buildable_def)
  then show ?thesis using assms by (simp add: mock_layers_def mock_buildable_def MESSAGE_SIZE_def)
qed

lemma mock_payload_layers:
  assumes "mock_buildable p ids"
  shows "mock_payload (mock_layers ids p) = Ok p"
proof -
  let ?front = "concat ids @ concat (replicate (5 - length ids) DUMMY_NODE_ID)"
  have front: "length ?front = 160" using length_ids [of ids 5] assms by (simp add: mock_buildable_def)
  have "drop 160 (mock_layers ids p) = p @ 1 # replicate (2048 - length p) 0"
    using front unfolding mock_layers_def by (metis append.assoc append_eq_conv_conj)
  moreover have "\<not> length (mock_layers ids p) < 160"
    using mock_layers_length [OF assms] by (simp add: MESSAGE_SIZE_def)
  ultimately show ?thesis by (simp add: mock_payload_def rposition_padding)
qed

lemma mock_unwrap_last:
  assumes "mock_travels [s] p m"
  shows "mock_unwrap_message m s = Ok (p, True)"
proof -
  have b: "mock_buildable p [s]" and m: "m = mock_layers [s] p" and s: "length s = 32"
    using assms by (simp_all add: mock_travels_def mock_buildable_def)
  have "m = s @ DUMMY_NODE_ID @ concat (replicate 3 DUMMY_NODE_ID) @ p @ 1 # replicate (2048 - length p) 0"
    using m by (simp add: mock_layers_def eval_nat_numeral)
  then have "take 32 m = s" "take 32 (drop 32 m) = DUMMY_NODE_ID" using s by simp_all
  then show ?thesis
    using mock_layers_length [OF b] mock_payload_layers [OF b] m by (simp add: mock_unwrap_message_def)
qed

lemma mock_unwrap_next:
  assumes "mock_travels (s # s' # ss) p m"
  shows "\<exists>m'. mock_unwrap_message m s = Ok (m', False) \<and> mock_travels (s' # ss) p m'"
proof -
  have b: "mock_buildable p (s # s' # ss)" and m: "m = mock_layers (s # s' # ss) p"
    using assms by (simp_all add: mock_travels_def)
  have s: "length s = 32" "length s' = 32" "s' \<noteq> DUMMY_NODE_ID" and b': "mock_buildable p (s' # ss)"
    using b by (auto simp: mock_buildable_def)
  let ?ids = "concat (s' # ss) @ concat (replicate (3 - length ss) DUMMY_NODE_ID)"
    and ?body = "p @ 1 # replicate (2048 - length p) 0"
  have ids: "length ?ids = 128" using length_ids [of "s' # ss" 4] b by (simp add: mock_buildable_def)
  have split: "m = s @ ?ids @ ?body" using m by (simp add: mock_layers_def)
  have parts: "take 32 m = s" "drop 32 m = ?ids @ ?body" "drop 160 m = ?body"
    using s(1) ids split by (simp_all)
  then have second: "take 32 (drop 32 m) = s'" "take 128 (drop 32 m) = ?ids" using s(2) ids by simp_all
  have "length ss \<le> 3" using b by (simp add: mock_buildable_def)
  then have "Suc (3 - length ss) = 4 - length ss" by arith
  then have "concat (replicate (4 - length ss) DUMMY_NODE_ID) = concat (replicate (3 - length ss) DUMMY_NODE_ID) @ DUMMY_NODE_ID"
    by (metis concat.simps concat_append append_Nil2 replicate_Suc replicate_append_same)
  then have "?ids @ DUMMY_NODE_ID @ ?body = mock_layers (s' # ss) p" by (simp add: mock_layers_def)
  then show ?thesis
    using mock_layers_length [OF b] m parts second s(3) b' by (simp add: mock_unwrap_message_def mock_travels_def)
qed

interpretation mock: blend_message mock_build_message mock_unwrap_message "\<lambda>i. i" mock_drop_message mock_buildable mock_travels
proof unfold_locales
  fix p and ids :: "bytes list"
  assume "mock_buildable p ids"
  then show "\<exists>m. mock_build_message p (map (\<lambda>i. i) ids) = Ok m \<and> mock_travels ids p m"
    by (auto simp: mock_build_message_def mock_travels_def mock_buildable_def mock_layers_def)
next
  fix p m and ids :: "bytes list"
  assume "mock_travels ids p m"
  then show "length m = length mock_drop_message"
    by (simp add: mock_travels_def mock_layers_length mock_drop_message_def)
qed (use mock_unwrap_last mock_unwrap_next in \<open>simp_all add: mock_travels_def mock_buildable_def\<close>)

text \<open>C35. Mock messages have one size: a message built from 32 byte identifiers has exactly \<open>MESSAGE_SIZE\<close> bytes, as does
  the one that is dropped, a message of any other size is refused, and what a node that is not the last hands on has
  that size again.\<close>

theorem mock_message_size:
  "(mock_build_message payload ids = Ok m \<and> (\<forall>i \<in> set ids. length i = 32) \<longrightarrow> length m = MESSAGE_SIZE) \<and>
   (mock_unwrap_message x k = Ok (x', final) \<longrightarrow> length x = MESSAGE_SIZE \<and>
     (if final then length x' \<le> MAX_PAYLOAD_SIZE else length x' = MESSAGE_SIZE)) \<and>
   length mock_drop_message = MESSAGE_SIZE"
proof -
  have "length m = MESSAGE_SIZE" if "mock_build_message payload ids = Ok m" "\<forall>i \<in> set ids. length i = 32"
  proof -
    have "mock_buildable payload ids" "m = mock_layers ids payload"
      using that by (auto simp: mock_build_message_def mock_buildable_def mock_layers_def split: if_splits)
    then show ?thesis by (simp add: mock_layers_length)
  qed
  moreover have "length x' \<le> 2048" if x': "mock_payload x = Ok x'" and x: "length x = MESSAGE_SIZE"
  proof -
    obtain pos where "rposition (\<lambda>b. b = 1) (drop 160 x) = Some pos" "x' = take pos (drop 160 x)"
      using x' by (auto simp: mock_payload_def Let_def split: if_splits option.splits)
    moreover have "i < length xs" if "rposition P xs = Some i" for P i and xs :: bytes
      using that by (induction xs arbitrary: i) (auto split: option.splits if_splits)
    ultimately show ?thesis using x by (fastforce simp: MESSAGE_SIZE_def)
  qed
  ultimately show ?thesis
    by (auto simp: mock_unwrap_message_def mock_drop_message_def MESSAGE_SIZE_def split: if_splits)
qed

theorem mock_message_size_witness:
  "\<exists>m x'. mock_build_message [7] [replicate 32 1, replicate 32 2] = Ok m \<and>
     mock_unwrap_message m (replicate 32 1) = Ok (x', False) \<and> length m = MESSAGE_SIZE \<and> length x' = MESSAGE_SIZE"
proof -
  have ok: "mock_buildable [7] [replicate 32 1, replicate 32 2]"
    by (simp add: mock_buildable_def DUMMY_NODE_ID_def)
  obtain m where m: "mock_build_message [7] [replicate 32 1, replicate 32 2] = Ok m"
      "mock_travels [replicate 32 1, replicate 32 2] [7] m"
    using mock.build_travels [OF ok] by auto
  obtain x' where "mock_unwrap_message m (replicate 32 1) = Ok (x', False)" using mock_unwrap_next [OF m(2)] by blast
  then show ?thesis using m(1) mock_message_size [of "[7]" "[replicate 32 1, replicate 32 2]" m m "replicate 32 1" x' False] by auto
qed

end
