(* ===== verification/Sphinx.thy ===== *)
theory Sphinx
  imports Layered_Cipher Blend_Message
begin

text \<open>
  The Sphinx messages of the blend network, \<open>nomos-blend/message/src/sphinx/routing.rs\<close>, \<open>packet.rs\<close> and \<open>mod.rs\<close>: a
  packet has the sender's ephemeral public key, the encrypted routing flags of the hops and the payload. The
  derivation of the keys, the blinding of the ephemeral key and the encryption of the payload are the crate
  \<open>sphinx_packet\<close>'s and parameters; a payload is its bytes. The random ephemeral key is an argument.
\<close>

section \<open>Routing information\<close>

record ('sk, 'mk, 'pk, 'bf) routing_keys =
  rk_stream_cipher_key :: 'sk
  rk_header_integrity_hmac_key :: 'mk
  rk_payload_key :: 'pk
  rk_blinding_factor :: 'bf

record ('sk, 'mk, 'pk, 'bf, 'priv, 'e) sphinx_crypto =
  sx_cipher :: "('sk, 'mk) cipher_crypto"
  derive_keys :: "bytes list \<Rightarrow> 'priv \<Rightarrow> ('sk, 'mk, 'pk, 'bf) routing_keys list"
  compute_routing_keys :: "bytes \<Rightarrow> 'priv \<Rightarrow> ('sk, 'mk, 'pk, 'bf) routing_keys"
  public_key_of :: "'priv \<Rightarrow> bytes"
  diffie_hellman :: "'bf \<Rightarrow> bytes \<Rightarrow> bytes"
  encapsulate_message :: "bytes \<Rightarrow> 'pk list \<Rightarrow> nat \<Rightarrow> 'e + bytes"
  payload_from_bytes :: "bytes \<Rightarrow> 'e + bytes"
  payload_unwrap :: "bytes \<Rightarrow> 'pk \<Rightarrow> 'e + bytes"
  recover_plaintext :: "bytes \<Rightarrow> 'e + bytes"
  payload_overhead_size :: nat
  forward_hop :: u8
  final_hop :: u8

datatype 'e sphinx_error =
    SphinxPacketError 'e
  | InvalidPacketBytes
  | InvalidRoutingFlag u8
  | InvalidEncryptedRoutingInfoLength nat
  | LayeredEncryptionError cipher_error

definition from_sum :: "'e + 'a \<Rightarrow> ('e sphinx_error, 'a) outcome" where
  "from_sum r = (case r of Inl e \<Rightarrow> Err (SphinxPacketError e) | Inr a \<Rightarrow> Ok a)"

definition ROUTING_INFO_SIZE :: nat where "ROUTING_INFO_SIZE = 1"

definition routing_info_to_bytes :: "u8 \<Rightarrow> bytes" where "routing_info_to_bytes flag = [flag]"

definition routing_info_from_bytes :: "bytes \<Rightarrow> ('e sphinx_error, u8) outcome" where
  "routing_info_from_bytes data =
     (if length data \<noteq> ROUTING_INFO_SIZE then Err (InvalidEncryptedRoutingInfoLength (length data)) else Ok (data ! 0))"

record encrypted_routing_info =
  eri_mac :: bytes
  eri_info :: bytes

definition layered_cipher_key :: "('sk, 'mk, 'pk, 'bf) routing_keys \<Rightarrow> ('sk, 'mk) cipher_key" where
  "layered_cipher_key k = \<lparr>stream_cipher_key = rk_stream_cipher_key k, integrity_mac_key = rk_header_integrity_hmac_key k\<rparr>"

definition routing_params ::
  "('sk, 'mk, 'pk, 'bf, 'priv, 'e) sphinx_crypto \<Rightarrow> ('sk, 'mk, 'pk, 'bf) routing_keys list \<Rightarrow> ('sk, 'mk) encryption_param list" where
  "routing_params c keys =
     map (\<lambda>(i, k). \<lparr>ep_data = routing_info_to_bytes (if i = length keys - 1 then final_hop c else forward_hop c),
                     ep_key = layered_cipher_key k\<rparr>) (enumerate 0 keys)"

definition eri_new ::
  "('sk, 'mk, 'pk, 'bf, 'priv, 'e) sphinx_crypto \<Rightarrow> (nat \<Rightarrow> bytes) \<Rightarrow> ('sk, 'mk, 'pk, 'bf) routing_keys list \<Rightarrow> nat \<Rightarrow>
     ('e sphinx_error, encrypted_routing_info) outcome" where
  "eri_new c random_bytes keys max_layers =
     bind_outcome (map_err LayeredEncryptionError
         (cipher_encrypt (sx_cipher c) random_bytes ROUTING_INFO_SIZE max_layers (routing_params c keys)))
       (\<lambda>(encrypted, mac). Ok \<lparr>eri_mac = mac, eri_info = encrypted\<rparr>)"

definition eri_unpack ::
  "('sk, 'mk, 'pk, 'bf, 'priv, 'e) sphinx_crypto \<Rightarrow> encrypted_routing_info \<Rightarrow> ('sk, 'mk, 'pk, 'bf) routing_keys \<Rightarrow> nat \<Rightarrow>
     ('e sphinx_error, u8 \<times> encrypted_routing_info) outcome" where
  "eri_unpack c r key max_layers =
     bind_outcome (map_err LayeredEncryptionError
         (cipher_unpack (sx_cipher c) ROUTING_INFO_SIZE max_layers (eri_mac r) (eri_info r) (layered_cipher_key key)))
       (\<lambda>(data, mac, encrypted).
         bind_outcome (routing_info_from_bytes data) (\<lambda>flag. Ok (flag, \<lparr>eri_mac = mac, eri_info = encrypted\<rparr>)))"

definition eri_to_bytes :: "encrypted_routing_info \<Rightarrow> bytes" where
  "eri_to_bytes r = eri_mac r @ eri_info r"

definition eri_from_bytes ::
  "('sk, 'mk, 'pk, 'bf, 'priv, 'e) sphinx_crypto \<Rightarrow> bytes \<Rightarrow> nat \<Rightarrow> ('e sphinx_error, encrypted_routing_info) outcome" where
  "eri_from_bytes c data max_layers =
     (case parse_bytes data [mac_size (sx_cipher c), total_size (sx_cipher c) ROUTING_INFO_SIZE max_layers] of
        Some [mac, info] \<Rightarrow> Ok \<lparr>eri_mac = mac, eri_info = info\<rparr>
      | _ \<Rightarrow> Err (InvalidEncryptedRoutingInfoLength (length data)))"

definition eri_size :: "('sk, 'mk, 'pk, 'bf, 'priv, 'e) sphinx_crypto \<Rightarrow> nat \<Rightarrow> nat" where
  "eri_size c max_layers = mac_size (sx_cipher c) + total_size (sx_cipher c) ROUTING_INFO_SIZE max_layers"

section \<open>Packets\<close>

definition ASYM_KEY_SIZE :: nat where "ASYM_KEY_SIZE = 32"

record packet =
  pkt_ephemeral_public_key :: bytes
  pkt_routing_info :: encrypted_routing_info
  pkt_payload :: bytes

datatype unpacked_packet = ToForward packet | FullyUnpacked bytes

definition derive_key_material ::
  "('sk, 'mk, 'pk, 'bf, 'priv, 'e) sphinx_crypto \<Rightarrow> bytes list \<Rightarrow> 'priv \<Rightarrow> ('sk, 'mk, 'pk, 'bf) routing_keys list" where
  "derive_key_material c recipients eph = derive_keys c recipients eph"

definition packet_build ::
  "('sk, 'mk, 'pk, 'bf, 'priv, 'e) sphinx_crypto \<Rightarrow> (nat \<Rightarrow> bytes) \<Rightarrow> 'priv \<Rightarrow> bytes list \<Rightarrow> nat \<Rightarrow> bytes \<Rightarrow> nat \<Rightarrow>
     ('e sphinx_error, packet) outcome" where
  "packet_build c random_bytes eph recipients max_layers payload max_payload_size =
     (let keys = derive_key_material c recipients eph in
      bind_outcome (eri_new c random_bytes keys max_layers) (\<lambda>routing.
      bind_outcome (from_sum (encapsulate_message c payload (map rk_payload_key keys)
          (max_payload_size + payload_overhead_size c))) (\<lambda>body.
      Ok \<lparr>pkt_ephemeral_public_key = public_key_of c eph, pkt_routing_info = routing, pkt_payload = body\<rparr>)))"

definition derive_next_ephemeral_public_key ::
  "('sk, 'mk, 'pk, 'bf, 'priv, 'e) sphinx_crypto \<Rightarrow> bytes \<Rightarrow> 'bf \<Rightarrow> bytes" where
  "derive_next_ephemeral_public_key c epk blinding = diffie_hellman c blinding epk"

definition build_next_packet ::
  "('sk, 'mk, 'pk, 'bf, 'priv, 'e) sphinx_crypto \<Rightarrow> packet \<Rightarrow> ('sk, 'mk, 'pk, 'bf) routing_keys \<Rightarrow> encrypted_routing_info \<Rightarrow> bytes \<Rightarrow> packet" where
  "build_next_packet c p keys next_routing body =
     \<lparr>pkt_ephemeral_public_key = derive_next_ephemeral_public_key c (pkt_ephemeral_public_key p) (rk_blinding_factor keys),
      pkt_routing_info = next_routing, pkt_payload = body\<rparr>"

definition packet_unpack ::
  "('sk, 'mk, 'pk, 'bf, 'priv, 'e) sphinx_crypto \<Rightarrow> packet \<Rightarrow> 'priv \<Rightarrow> nat \<Rightarrow> ('e sphinx_error, unpacked_packet) outcome" where
  "packet_unpack c p private_key max_layers =
     (let keys = compute_routing_keys c (pkt_ephemeral_public_key p) private_key in
      bind_outcome (from_sum (payload_from_bytes c (pkt_payload p))) (\<lambda>body.
      bind_outcome (from_sum (payload_unwrap c body (rk_payload_key keys))) (\<lambda>body.
      bind_outcome (eri_unpack c (pkt_routing_info p) keys max_layers) (\<lambda>(flag, next_routing).
      if flag = forward_hop c then Ok (ToForward (build_next_packet c p keys next_routing body))
      else if flag = final_hop c then
        bind_outcome (from_sum (recover_plaintext c body)) (\<lambda>plain. Ok (FullyUnpacked plain))
      else Err (InvalidRoutingFlag flag)))))"

definition packet_to_bytes :: "packet \<Rightarrow> bytes" where
  "packet_to_bytes p = pkt_ephemeral_public_key p @ eri_to_bytes (pkt_routing_info p) @ pkt_payload p"

text \<open>The subtraction of the sizes may wrap, but then one of the first two parts is missing and the parse fails first.\<close>

definition packet_from_bytes ::
  "('sk, 'mk, 'pk, 'bf, 'priv, 'e) sphinx_crypto \<Rightarrow> bytes \<Rightarrow> nat \<Rightarrow> ('e sphinx_error, packet) outcome" where
  "packet_from_bytes c data max_layers =
     (case parse_bytes data [ASYM_KEY_SIZE, eri_size c max_layers, length data - ASYM_KEY_SIZE - eri_size c max_layers] of
        Some [epk, info, body] \<Rightarrow>
          bind_outcome (eri_from_bytes c info max_layers) (\<lambda>routing.
          Ok \<lparr>pkt_ephemeral_public_key = epk, pkt_routing_info = routing, pkt_payload = body\<rparr>)
      | _ \<Rightarrow> Err InvalidPacketBytes)"

definition packet_size :: "('sk, 'mk, 'pk, 'bf, 'priv, 'e) sphinx_crypto \<Rightarrow> nat \<Rightarrow> nat \<Rightarrow> nat" where
  "packet_size c max_layers max_payload_size =
     ASYM_KEY_SIZE + eri_size c max_layers + max_payload_size + payload_overhead_size c"

section \<open>Messages\<close>

definition SPHINX_MAX_PAYLOAD_SIZE :: nat where "SPHINX_MAX_PAYLOAD_SIZE = 2048"

definition SPHINX_MAX_LAYERS :: nat where "SPHINX_MAX_LAYERS = 5"

definition sphinx_drop_message :: "('sk, 'mk, 'pk, 'bf, 'priv, 'e) sphinx_crypto \<Rightarrow> bytes" where
  "sphinx_drop_message c = replicate (packet_size c SPHINX_MAX_LAYERS SPHINX_MAX_PAYLOAD_SIZE) 0"

definition sphinx_build_message ::
  "('sk, 'mk, 'pk, 'bf, 'priv, 'e) sphinx_crypto \<Rightarrow> (nat \<Rightarrow> bytes) \<Rightarrow> 'priv \<Rightarrow> bytes \<Rightarrow> bytes list \<Rightarrow> ('e sphinx_error, bytes) outcome" where
  "sphinx_build_message c random_bytes eph payload public_keys =
     bind_outcome (packet_build c random_bytes eph public_keys SPHINX_MAX_LAYERS payload SPHINX_MAX_PAYLOAD_SIZE)
       (\<lambda>p. Ok (packet_to_bytes p))"

definition sphinx_unwrap_message ::
  "('sk, 'mk, 'pk, 'bf, 'priv, 'e) sphinx_crypto \<Rightarrow> bytes \<Rightarrow> 'priv \<Rightarrow> ('e sphinx_error, bytes \<times> bool) outcome" where
  "sphinx_unwrap_message c message private_key =
     bind_outcome (packet_from_bytes c message SPHINX_MAX_LAYERS) (\<lambda>p.
     bind_outcome (packet_unpack c p private_key SPHINX_MAX_LAYERS) (\<lambda>u.
     case u of ToForward p' \<Rightarrow> Ok (packet_to_bytes p', False) | FullyUnpacked payload \<Rightarrow> Ok (payload, True)))"

section \<open>Delivery along the path\<close>

text \<open>The keys a sender derives are those the recipients compute, each from the ephemeral key its predecessor hands
  on.\<close>

fun key_chain ::
  "('sk, 'mk, 'pk, 'bf, 'priv, 'e) sphinx_crypto \<Rightarrow> bytes \<Rightarrow> 'priv list \<Rightarrow> ('sk, 'mk, 'pk, 'bf) routing_keys list \<Rightarrow> bool" where
  "key_chain c epk [] [] \<longleftrightarrow> True"
| "key_chain c epk (s # ss) (k # ks) \<longleftrightarrow>
     compute_routing_keys c epk s = k \<and> key_chain c (diffie_hellman c (rk_blinding_factor k) epk) ss ks"
| "key_chain c epk _ _ \<longleftrightarrow> False"

text \<open>A payload that unwraps with the keys in turn, keeping its length, to the plain text.\<close>

fun payload_opens ::
  "('sk, 'mk, 'pk, 'bf, 'priv, 'e) sphinx_crypto \<Rightarrow> bytes \<Rightarrow> 'pk list \<Rightarrow> bytes \<Rightarrow> bool" where
  "payload_opens c b [] m \<longleftrightarrow> recover_plaintext c b = Inr m"
| "payload_opens c b (k # ks) m \<longleftrightarrow> payload_from_bytes c b = Inr b \<and>
     (case payload_unwrap c b k of Inl e \<Rightarrow> False | Inr b' \<Rightarrow> length b' = length b \<and> payload_opens c b' ks m)"

definition sphinx_laws :: "('sk, 'mk, 'pk, 'bf, 'priv, 'e) sphinx_crypto \<Rightarrow> (nat \<Rightarrow> bytes) \<Rightarrow> bool" where
  "sphinx_laws c rnd \<longleftrightarrow> cipher_laws (sx_cipher c) rnd \<and>
     (\<forall>privs eph. key_chain c (public_key_of c eph) privs (derive_keys c (map (public_key_of c) privs) eph)) \<and>
     (\<forall>m keys n b. encapsulate_message c m keys n = Inr b \<longrightarrow> length b = n \<and> payload_opens c b keys m) \<and>
     (\<forall>s. length (public_key_of c s) = 32) \<and> (\<forall>f p. length (diffie_hellman c f p) = 32) \<and>
     forward_hop c \<noteq> final_hop c"

lemma routing_params_single:
  "routing_params c [k] = [\<lparr>ep_data = [final_hop c], ep_key = layered_cipher_key k\<rparr>]"
  by (simp add: routing_params_def routing_info_to_bytes_def)

lemma routing_params_Cons:
  "routing_params c (k # k' # ks) =
     \<lparr>ep_data = [forward_hop c], ep_key = layered_cipher_key k\<rparr> # routing_params c (k' # ks)"
proof (rule nth_equalityI)
  fix i assume "i < length (routing_params c (k # k' # ks))"
  then show "routing_params c (k # k' # ks) ! i =
      (\<lparr>ep_data = [forward_hop c], ep_key = layered_cipher_key k\<rparr> # routing_params c (k' # ks)) ! i"
    by (cases i) (auto simp: routing_params_def routing_info_to_bytes_def nth_enumerate_eq simp del: enumerate_simps)
qed (simp add: routing_params_def)

lemma length_routing_params [simp]: "length (routing_params c keys) = length keys"
  by (simp add: routing_params_def)

lemma routing_params_ok:
  assumes "keys \<noteq> []" and "length pre + length keys \<le> n"
  shows "layers_ok c' ROUTING_INFO_SIZE n pre (routing_params c keys)"
proof -
  have "length (ep_data p) = ROUTING_INFO_SIZE" if "p \<in> set (routing_params c keys)" for p
    using that by (auto simp: routing_params_def routing_info_to_bytes_def ROUTING_INFO_SIZE_def)
  then show ?thesis using assms length_routing_params [of c keys] unfolding layers_ok_def by fastforce
qed

definition layer_packet ::
  "('sk, 'mk, 'pk, 'bf, 'priv, 'e) sphinx_crypto \<Rightarrow> (nat \<Rightarrow> bytes) \<Rightarrow> bytes \<Rightarrow> 'sk list \<Rightarrow>
     ('sk, 'mk, 'pk, 'bf) routing_keys list \<Rightarrow> bytes \<Rightarrow> packet" where
  "layer_packet c rnd epk pre keys b =
     (let e = layer (sx_cipher c) rnd ROUTING_INFO_SIZE SPHINX_MAX_LAYERS pre (routing_params c keys) in
      \<lparr>pkt_ephemeral_public_key = epk,
       pkt_routing_info = \<lparr>eri_mac = layer_mac (sx_cipher c) (hd (routing_params c keys)) e, eri_info = e\<rparr>,
       pkt_payload = b\<rparr>)"

text \<open>Bytes that were made of a packet of the right sizes are read back as that packet.\<close>

lemma packet_from_to_bytes:
  assumes "length (pkt_ephemeral_public_key p) = ASYM_KEY_SIZE"
    and "length (eri_mac (pkt_routing_info p)) = mac_size (sx_cipher c)"
    and "length (eri_info (pkt_routing_info p)) = total_size (sx_cipher c) ROUTING_INFO_SIZE n"
  shows "packet_from_bytes c (packet_to_bytes p) n = Ok p"
proof -
  have "eri_from_bytes c (eri_to_bytes (pkt_routing_info p)) n = Ok (pkt_routing_info p)"
    using assms(2,3) by (simp add: eri_from_bytes_def eri_to_bytes_def)
  moreover have "length (eri_to_bytes (pkt_routing_info p)) = eri_size c n"
    using assms(2,3) by (simp add: eri_to_bytes_def eri_size_def)
  ultimately show ?thesis using assms(1) by (simp add: packet_from_bytes_def packet_to_bytes_def)
qed

lemma layer_packet_bytes:
  assumes "sphinx_laws c rnd" and "keys \<noteq> []" and "length pre + length keys \<le> SPHINX_MAX_LAYERS" and "length epk = 32"
  shows "packet_from_bytes c (packet_to_bytes (layer_packet c rnd epk pre keys b)) SPHINX_MAX_LAYERS = Ok (layer_packet c rnd epk pre keys b)"
    and "length (packet_to_bytes (layer_packet c rnd epk pre keys b)) = 32 + eri_size c SPHINX_MAX_LAYERS + length b"
proof -
  have laws: "cipher_laws (sx_cipher c) rnd" using assms(1) by (simp add: sphinx_laws_def)
  have ok: "layers_ok (sx_cipher c) ROUTING_INFO_SIZE SPHINX_MAX_LAYERS pre (routing_params c keys)"
    by (rule routing_params_ok [OF assms(2,3)])
  let ?p = "layer_packet c rnd epk pre keys b"
  have sz: "length (pkt_ephemeral_public_key ?p) = ASYM_KEY_SIZE"
      "length (eri_mac (pkt_routing_info ?p)) = mac_size (sx_cipher c)"
      "length (eri_info (pkt_routing_info ?p)) = total_size (sx_cipher c) ROUTING_INFO_SIZE SPHINX_MAX_LAYERS"
      "pkt_payload ?p = b"
    using assms(4) length_cipher_layer [OF laws ok] length_layer_mac [OF laws]
    by (simp_all add: layer_packet_def Let_def ASYM_KEY_SIZE_def)
  show "packet_from_bytes c (packet_to_bytes ?p) SPHINX_MAX_LAYERS = Ok ?p" by (rule packet_from_to_bytes [OF sz(1-3)])
  show "length (packet_to_bytes ?p) = 32 + eri_size c SPHINX_MAX_LAYERS + length b"
    using sz by (simp add: packet_to_bytes_def eri_to_bytes_def eri_size_def ASYM_KEY_SIZE_def)
qed

lemma routing_info_from_single [simp]: "routing_info_from_bytes [flag] = Ok flag"
  by (simp add: routing_info_from_bytes_def ROUTING_INFO_SIZE_def)

lemma eri_unpack_forward:
  assumes "cipher_laws (sx_cipher c) rnd" and "length pre + length (k # k' # ks) \<le> SPHINX_MAX_LAYERS"
  shows "eri_unpack c (pkt_routing_info (layer_packet c rnd epk pre (k # k' # ks) b)) k SPHINX_MAX_LAYERS =
    Ok (forward_hop c, pkt_routing_info (layer_packet c rnd epk' (pre @ [rk_stream_cipher_key k]) (k' # ks) b'))"
proof -
  obtain q qs where q: "routing_params c (k' # ks) = q # qs" using length_routing_params [of c "k' # ks"] by (cases "routing_params c (k' # ks)") auto
  have ok: "layers_ok (sx_cipher c) ROUTING_INFO_SIZE SPHINX_MAX_LAYERS pre
      (\<lparr>ep_data = [forward_hop c], ep_key = layered_cipher_key k\<rparr> # q # qs)"
    using routing_params_ok [of "k # k' # ks" pre SPHINX_MAX_LAYERS "sx_cipher c" c] assms(2) q by (simp add: routing_params_Cons)
  show ?thesis
    using cipher_unpack_next [OF assms(1) ok]
    by (simp add: eri_unpack_def layer_packet_def routing_params_Cons q Let_def layered_cipher_key_def)
qed

lemma eri_unpack_final:
  assumes "cipher_laws (sx_cipher c) rnd" and "length pre + 1 \<le> SPHINX_MAX_LAYERS"
  shows "\<exists>r. eri_unpack c (pkt_routing_info (layer_packet c rnd epk pre [k] b)) k SPHINX_MAX_LAYERS = Ok (final_hop c, r)"
proof -
  have ok: "layers_ok (sx_cipher c) ROUTING_INFO_SIZE SPHINX_MAX_LAYERS pre
      [\<lparr>ep_data = [final_hop c], ep_key = layered_cipher_key k\<rparr>]"
    using routing_params_ok [of "[k]" pre SPHINX_MAX_LAYERS] assms(2) by (simp add: routing_params_single)
  show ?thesis
    using cipher_unpack_last [OF assms(1) ok]
    by (auto simp: eri_unpack_def layer_packet_def routing_params_single Let_def)
qed

lemma unwrap_forward:
  assumes "sphinx_laws c rnd" and "length pre + length (k # k' # ks) \<le> SPHINX_MAX_LAYERS" and "length epk = 32"
    and "compute_routing_keys c epk s = k" and "payload_from_bytes c b = Inr b" and "payload_unwrap c b (rk_payload_key k) = Inr b'"
  shows "sphinx_unwrap_message c (packet_to_bytes (layer_packet c rnd epk pre (k # k' # ks) b)) s =
    Ok (packet_to_bytes (layer_packet c rnd (diffie_hellman c (rk_blinding_factor k) epk)
      (pre @ [rk_stream_cipher_key k]) (k' # ks) b'), False)"
proof -
  let ?p = "layer_packet c rnd epk pre (k # k' # ks) b"
  let ?p' = "layer_packet c rnd (diffie_hellman c (rk_blinding_factor k) epk) (pre @ [rk_stream_cipher_key k]) (k' # ks) b'"
  have "cipher_laws (sx_cipher c) rnd" using assms(1) by (simp add: sphinx_laws_def)
  note eri = eri_unpack_forward [OF this assms(2), of epk b "diffie_hellman c (rk_blinding_factor k) epk" b']
  have fields: "pkt_ephemeral_public_key ?p = epk" "pkt_payload ?p = b" by (simp_all add: layer_packet_def Let_def)
  have next_eq: "build_next_packet c ?p k (pkt_routing_info ?p') b' = ?p'"
    by (simp add: build_next_packet_def derive_next_ephemeral_public_key_def layer_packet_def Let_def)
  have "packet_unpack c ?p s SPHINX_MAX_LAYERS = Ok (ToForward ?p')"
    unfolding packet_unpack_def Let_def fields assms(4-6) from_sum_def sum.case bind_outcome.simps eri prod.case next_eq by simp
  then show ?thesis
    unfolding sphinx_unwrap_message_def layer_packet_bytes(1) [OF assms(1) _ assms(2,3), simplified] bind_outcome.simps
    by simp
qed

lemma unwrap_final:
  assumes "sphinx_laws c rnd" and "length pre + 1 \<le> SPHINX_MAX_LAYERS" and "length epk = 32"
    and "compute_routing_keys c epk s = k" and "payload_from_bytes c b = Inr b" and "payload_unwrap c b (rk_payload_key k) = Inr b'"
    and "recover_plaintext c b' = Inr m"
  shows "sphinx_unwrap_message c (packet_to_bytes (layer_packet c rnd epk pre [k] b)) s = Ok (m, True)"
proof -
  let ?p = "layer_packet c rnd epk pre [k] b"
  have laws: "cipher_laws (sx_cipher c) rnd" "forward_hop c \<noteq> final_hop c" using assms(1) by (simp_all add: sphinx_laws_def)
  obtain r where eri: "eri_unpack c (pkt_routing_info ?p) k SPHINX_MAX_LAYERS = Ok (final_hop c, r)"
    using eri_unpack_final [OF laws(1) assms(2)] by blast
  have fields: "pkt_ephemeral_public_key ?p = epk" "pkt_payload ?p = b" by (simp_all add: layer_packet_def Let_def)
  have "packet_unpack c ?p s SPHINX_MAX_LAYERS = Ok (FullyUnpacked m)"
    unfolding packet_unpack_def Let_def fields assms(4-7) from_sum_def sum.case bind_outcome.simps eri prod.case
    using laws(2) by simp
  then show ?thesis
    using layer_packet_bytes(1) [OF assms(1), of "[k]" pre epk b] assms(2,3) unfolding sphinx_unwrap_message_def by simp
qed

lemma unwrap_along_layers:
  assumes "sphinx_laws c rnd"
  shows "privs \<noteq> [] \<Longrightarrow> key_chain c epk privs keys \<Longrightarrow> payload_opens c b (map rk_payload_key keys) m \<Longrightarrow>
    length pre + length keys \<le> SPHINX_MAX_LAYERS \<Longrightarrow> length epk = 32 \<Longrightarrow>
    \<exists>fwd. unwrap_along (sphinx_unwrap_message c) (packet_to_bytes (layer_packet c rnd epk pre keys b)) privs = Some (fwd, m) \<and>
      length fwd = length privs - 1 \<and> (\<forall>x \<in> set fwd. length x = 32 + eri_size c SPHINX_MAX_LAYERS + length b)"
proof (induction privs arbitrary: epk keys b pre rule: induct_list012)
  case (2 s)
  obtain k where k: "keys = [k]" "compute_routing_keys c epk s = k"
    using 2(2) by (cases keys; cases "tl keys") auto
  obtain b' where b': "payload_from_bytes c b = Inr b" "payload_unwrap c b (rk_payload_key k) = Inr b'"
      "recover_plaintext c b' = Inr m"
    using 2(3) k(1) by (auto split: sum.splits)
  have "length pre + 1 \<le> SPHINX_MAX_LAYERS" using 2(4) k(1) by simp
  from unwrap_final [OF assms this 2(5) k(2) b'] show ?case using k(1) by simp
next
  case (3 s s' ss)
  obtain k k' ks where k: "keys = k # k' # ks" "compute_routing_keys c epk s = k"
      "key_chain c (diffie_hellman c (rk_blinding_factor k) epk) (s' # ss) (k' # ks)"
    using 3(4) by (cases keys; cases "tl keys") auto
  obtain b' where b': "payload_from_bytes c b = Inr b" "payload_unwrap c b (rk_payload_key k) = Inr b'" "length b' = length b"
      "payload_opens c b' (map rk_payload_key (k' # ks)) m"
    using 3(5) k(1) by (auto split: sum.splits)
  let ?epk = "diffie_hellman c (rk_blinding_factor k) epk" and ?pre = "pre @ [rk_stream_cipher_key k]"
  have len: "length pre + length (k # k' # ks) \<le> SPHINX_MAX_LAYERS" using 3(6) k(1) by simp
  have epk: "length ?epk = 32" using assms by (simp add: sphinx_laws_def)
  obtain fwd where fwd: "unwrap_along (sphinx_unwrap_message c) (packet_to_bytes (layer_packet c rnd ?epk ?pre (k' # ks) b')) (s' # ss) = Some (fwd, m)"
      "length fwd = length (s' # ss) - 1" "\<forall>x \<in> set fwd. length x = 32 + eri_size c SPHINX_MAX_LAYERS + length b'"
    using 3(2) [OF _ k(3) b'(4), of ?pre] len epk by auto
  have "length (packet_to_bytes (layer_packet c rnd ?epk ?pre (k' # ks) b')) = 32 + eri_size c SPHINX_MAX_LAYERS + length b'"
    using layer_packet_bytes(2) [OF assms, of "k' # ks" ?pre ?epk b'] len epk by simp
  then show ?case using unwrap_forward [OF assms len 3(7) k(2) b'(1,2)] fwd b'(3) k(1) by simp
qed simp

text \<open>A message built for at most five recipients reaches the last of them: each recipient but the last unwraps it to
  a message for the next, the last one reads the payload, and all the messages on the way have the same
  length, that of the message that is dropped.\<close>

lemma sphinx_delivers:
  assumes "sphinx_laws c rnd" and "privs \<noteq> []" and "length privs \<le> 5"
    and "encapsulate_message c payload
      (map rk_payload_key (derive_keys c (map (public_key_of c) privs) eph)) (2048 + payload_overhead_size c) = Inr body"
  shows "\<exists>message fwd. sphinx_build_message c rnd eph payload (map (public_key_of c) privs) = Ok message \<and>
    unwrap_along (sphinx_unwrap_message c) message privs = Some (fwd, payload) \<and> length fwd = length privs - 1 \<and>
    (\<forall>x \<in> set (message # fwd). length x = length (sphinx_drop_message c))"
proof -
  let ?keys = "derive_keys c (map (public_key_of c) privs) eph"
  have laws: "cipher_laws (sx_cipher c) rnd" "key_chain c (public_key_of c eph) privs ?keys"
      "length body = 2048 + payload_overhead_size c" "payload_opens c body (map rk_payload_key ?keys) payload"
      "length (public_key_of c eph) = 32"
    using assms(1,4) by (simp_all add: sphinx_laws_def)
  have "length ss = length ks" if "key_chain c epk ss ks" for epk ss ks
    using that by (induction c epk ss ks rule: key_chain.induct) auto
  then have keys: "length ?keys = length privs" using laws(2) by metis
  then have ne: "?keys \<noteq> []" "length ([] :: 'a list) + length ?keys \<le> SPHINX_MAX_LAYERS"
    using assms(2,3) by (auto simp: SPHINX_MAX_LAYERS_def)
  let ?p = "layer_packet c rnd (public_key_of c eph) [] ?keys body"
  have "cipher_encrypt (sx_cipher c) rnd ROUTING_INFO_SIZE SPHINX_MAX_LAYERS (routing_params c ?keys) =
      Ok (eri_info (pkt_routing_info ?p), eri_mac (pkt_routing_info ?p))"
    using cipher_encrypt_eq [OF laws(1) routing_params_ok [OF ne]] by (simp add: layer_packet_def Let_def)
  then have "packet_build c rnd eph (map (public_key_of c) privs) SPHINX_MAX_LAYERS payload SPHINX_MAX_PAYLOAD_SIZE = Ok ?p"
    using assms(4) by (simp add: packet_build_def derive_key_material_def eri_new_def from_sum_def SPHINX_MAX_PAYLOAD_SIZE_def
        layer_packet_def Let_def)
  then have build: "sphinx_build_message c rnd eph payload (map (public_key_of c) privs) = Ok (packet_to_bytes ?p)"
    by (simp add: sphinx_build_message_def)
  have drop: "length (sphinx_drop_message c) = 32 + eri_size c SPHINX_MAX_LAYERS + length body"
    using laws(3) by (simp add: sphinx_drop_message_def packet_size_def ASYM_KEY_SIZE_def SPHINX_MAX_PAYLOAD_SIZE_def)
  show ?thesis
    using unwrap_along_layers [OF assms(1,2) laws(2,4) ne(2) laws(5)] layer_packet_bytes(2) [OF assms(1) ne laws(5)] build drop
    by auto
qed

section \<open>The Sphinx messages keep the contract\<close>

definition sphinx_buildable ::
  "('sk, 'mk, 'pk, 'bf, 'priv, 'e) sphinx_crypto \<Rightarrow> (nat \<Rightarrow> bytes) \<Rightarrow> 'priv \<Rightarrow> bytes \<Rightarrow> 'priv list \<Rightarrow> bool" where
  "sphinx_buildable c rnd eph payload privs \<longleftrightarrow> sphinx_laws c rnd \<and> privs \<noteq> [] \<and> length privs \<le> 5 \<and>
     (\<exists>body. encapsulate_message c payload
       (map rk_payload_key (derive_keys c (map (public_key_of c) privs) eph)) (2048 + payload_overhead_size c) = Inr body)"

definition sphinx_travels ::
  "('sk, 'mk, 'pk, 'bf, 'priv, 'e) sphinx_crypto \<Rightarrow> 'priv list \<Rightarrow> bytes \<Rightarrow> bytes \<Rightarrow> bool" where
  "sphinx_travels c privs payload message \<longleftrightarrow>
     (\<exists>fwd. unwrap_along (sphinx_unwrap_message c) message privs = Some (fwd, payload) \<and>
       (\<forall>x \<in> set (message # fwd). length x = length (sphinx_drop_message c)))"

interpretation sphinx: blend_message "sphinx_build_message c rnd eph" "sphinx_unwrap_message c" "public_key_of c"
  "sphinx_drop_message c" "sphinx_buildable c rnd eph" "sphinx_travels c"
  for c :: "('sk, 'mk, 'pk, 'bf, 'priv, 'e) sphinx_crypto" and rnd eph
proof unfold_locales
  fix p ss
  assume "sphinx_buildable c rnd eph p ss"
  then obtain body where "sphinx_laws c rnd" "ss \<noteq> []" "length ss \<le> 5" "encapsulate_message c p
      (map rk_payload_key (derive_keys c (map (public_key_of c) ss) eph)) (2048 + payload_overhead_size c) = Inr body"
    by (auto simp: sphinx_buildable_def)
  from sphinx_delivers [OF this]
  show "\<exists>m. sphinx_build_message c rnd eph p (map (public_key_of c) ss) = Ok m \<and> sphinx_travels c ss p m"
    by (auto simp: sphinx_travels_def)
qed (auto simp: sphinx_travels_def split: outcome.splits bool.splits)

definition sample_keys :: "u8 \<Rightarrow> (u8, u8, u8, u8) routing_keys" where
  "sample_keys s = \<lparr>rk_stream_cipher_key = s, rk_header_integrity_hmac_key = s, rk_payload_key = s, rk_blinding_factor = s\<rparr>"

definition sample_sphinx :: "(u8, u8, u8, u8, u8, unit) sphinx_crypto" where
  "sample_sphinx = \<lparr>sx_cipher = sample_cipher, derive_keys = (\<lambda>pubs eph. map (\<lambda>p. sample_keys (hd p)) pubs),
     compute_routing_keys = (\<lambda>epk s. sample_keys s), public_key_of = (\<lambda>s. replicate 32 s),
     diffie_hellman = (\<lambda>f p. replicate 32 f),
     encapsulate_message = (\<lambda>m keys n. if length m = n then Inr m else Inl ()), payload_from_bytes = Inr,
     payload_unwrap = (\<lambda>b k. Inr b), recover_plaintext = Inr, payload_overhead_size = 0, forward_hop = 1, final_hop = 2\<rparr>"

lemma sample_sphinx_laws: "sphinx_laws sample_sphinx (\<lambda>n. replicate n 7)"
proof -
  have "key_chain sample_sphinx epk privs (map (\<lambda>p. sample_keys (hd p)) (map (\<lambda>s. replicate 32 s) privs))" for epk privs
  proof (induction privs arbitrary: epk)
    case (Cons s privs)
    then show ?case by (simp add: sample_sphinx_def)
  qed simp
  moreover have "payload_opens sample_sphinx b keys b" for b keys
    by (induction keys) (simp_all add: sample_sphinx_def)
  ultimately show ?thesis using sample_cipher_laws by (auto simp: sphinx_laws_def sample_sphinx_def)
qed

lemma sample_sphinx_buildable:
  "sphinx_buildable sample_sphinx (\<lambda>n. replicate n 7) eph (replicate 2048 b) [4, 5]"
  using sample_sphinx_laws by (simp add: sphinx_buildable_def sample_sphinx_def)

end
