(* ===== verification/Blend_Core.thy ===== *)
theory Blend_Core
  imports Sphinx
begin

text \<open>
  The blend protocol of \<open>nomos-blend/core/src\<close>: the membership (\<open>membership.rs\<close>), wrapping and unwrapping of messages
  (\<open>message_blend/crypto.rs\<close>, \<open>message_blend/mod.rs\<close>), the random delay of messages (\<open>message_blend/temporal.rs\<close>), the
  emission at a steady rate (\<open>persistent_transmission.rs\<close>) and the cover traffic (\<open>cover_traffic.rs\<close>), and how
  \<open>nomos-services/blend/src/lib.rs\<close> puts them together. The two operations of a blend message are arguments. Random
  choices, the clock and the floating point quotient are arguments too; a poll of a stream says what is ready.
\<close>

section \<open>Membership\<close>

record ('id, 'a, 'pub) blend_node =
  bn_id :: 'id
  bn_address :: 'a
  bn_public_key :: 'pub

record ('id, 'a, 'pub) blend_membership =
  remote_nodes :: "('id, 'a, 'pub) blend_node list"
  local_node :: "('id, 'a, 'pub) blend_node"

definition membership_new ::
  "('id, 'a, 'pub) blend_node list \<Rightarrow> 'pub \<Rightarrow> ('id, 'a, 'pub) blend_membership option" where
  "membership_new nodes local_public_key =
     (case filter (\<lambda>n. bn_public_key n = local_public_key) nodes of
        [] \<Rightarrow> None
      | n # ns \<Rightarrow> Some \<lparr>remote_nodes = filter (\<lambda>n. bn_public_key n \<noteq> local_public_key) nodes, local_node = last (n # ns)\<rparr>)"

definition choose_remote_nodes ::
  "(('id, 'a, 'pub) blend_node list \<Rightarrow> nat \<Rightarrow> ('id, 'a, 'pub) blend_node list) \<Rightarrow> ('id, 'a, 'pub) blend_membership \<Rightarrow>
     nat \<Rightarrow> ('id, 'a, 'pub) blend_node list" where
  "choose_remote_nodes pick m amount = pick (remote_nodes m) amount"

definition filter_and_choose_remote_nodes ::
  "(('id, 'a, 'pub) blend_node list \<Rightarrow> nat \<Rightarrow> ('id, 'a, 'pub) blend_node list) \<Rightarrow> ('id, 'a, 'pub) blend_membership \<Rightarrow>
     nat \<Rightarrow> 'id set \<Rightarrow> ('id, 'a, 'pub) blend_node list" where
  "filter_and_choose_remote_nodes pick m amount exclude_peers =
     pick (filter (\<lambda>n. bn_id n \<notin> exclude_peers) (remote_nodes m)) amount"

definition membership_size :: "('id, 'a, 'pub) blend_membership \<Rightarrow> nat" where
  "membership_size m = length (remote_nodes m) + 1"

section \<open>Wrapping and unwrapping\<close>

record ('id, 'a, 'pub, 'priv) cryptographic_processor =
  cp_private_key :: 'priv
  cp_num_blend_layers :: nat
  cp_membership :: "('id, 'a, 'pub) blend_membership"

definition wrap_message ::
  "(bytes \<Rightarrow> 'pub list \<Rightarrow> ('e, bytes) outcome) \<Rightarrow>
     (('id, 'a, 'pub) blend_node list \<Rightarrow> nat \<Rightarrow> ('id, 'a, 'pub) blend_node list) \<Rightarrow>
     ('id, 'a, 'pub, 'priv) cryptographic_processor \<Rightarrow> bytes \<Rightarrow> ('e, bytes) outcome" where
  "wrap_message build pick cp message =
     build message (map bn_public_key (choose_remote_nodes pick (cp_membership cp) (cp_num_blend_layers cp)))"

definition unwrap_message ::
  "(bytes \<Rightarrow> 'priv \<Rightarrow> ('e, bytes \<times> bool) outcome) \<Rightarrow> ('id, 'a, 'pub, 'priv) cryptographic_processor \<Rightarrow> bytes \<Rightarrow>
     ('e, bytes \<times> bool) outcome" where
  "unwrap_message unwrap cp message = unwrap message (cp_private_key cp)"

datatype blend_outgoing_message = FullyUnwrapped bytes | Outbound bytes

text \<open>The channel to the temporal processor after an incoming message; \<open>None\<close> when unwrapping panics.\<close>

definition process_incoming_message ::
  "(bytes \<Rightarrow> 'priv \<Rightarrow> ('e, bytes \<times> bool) outcome) \<Rightarrow> ('id, 'a, 'pub, 'priv) cryptographic_processor \<Rightarrow> bytes \<Rightarrow>
     blend_outgoing_message list \<Rightarrow> blend_outgoing_message list option" where
  "process_incoming_message unwrap cp message channel =
     (case unwrap_message unwrap cp message of
        Ok (unwrapped, fully) \<Rightarrow> Some (channel @ [if fully then FullyUnwrapped unwrapped else Outbound unwrapped])
      | Err e \<Rightarrow> Some channel
      | Abort \<Rightarrow> None)"

section \<open>Delays\<close>

definition lottery_interval_seconds :: "u64 \<Rightarrow> u64" where
  "lottery_interval_seconds max_delay_seconds = max_delay_seconds div 2"

record temporal_scheduler =
  ts_max_delay :: u64
  ts_release_timer :: "nat option"

text \<open>A tokio interval refuses a period of zero, a random number is not drawn from an empty range: both panic.\<close>

definition scheduler_new :: "u64 \<Rightarrow> temporal_scheduler option" where
  "scheduler_new max_delay =
     (if lottery_interval_seconds max_delay = 0 then None
      else Some \<lparr>ts_max_delay = max_delay, ts_release_timer = None\<rparr>)"

definition run_lottery :: "(u64 \<Rightarrow> u64) \<Rightarrow> temporal_scheduler \<Rightarrow> u64 option" where
  "run_lottery gen_range ts =
     (let interval = lottery_interval_seconds (ts_max_delay ts) in
      if interval = 0 then None else Some (gen_range interval))"

definition scheduler_poll :: "(u64 \<Rightarrow> u64) \<Rightarrow> bool \<Rightarrow> nat \<Rightarrow> temporal_scheduler \<Rightarrow> (temporal_scheduler \<times> bool) option" where
  "scheduler_poll gen_range tick now ts =
     Option.bind
       (if tick then map_option (\<lambda>delay. ts\<lparr>ts_release_timer := Some (now + unat delay)\<rparr>) (run_lottery gen_range ts)
        else Some ts)
       (\<lambda>ts. case ts_release_timer ts of
          Some t \<Rightarrow> if t \<le> now then Some (ts\<lparr>ts_release_timer := None\<rparr>, True) else Some (ts, False)
        | None \<Rightarrow> Some (ts, False))"

definition temporal_processor_poll :: "bool \<Rightarrow> 'm list \<Rightarrow> 'm list \<times> 'm option" where
  "temporal_processor_poll ready queue =
     (if ready then case queue of x # xs \<Rightarrow> (xs, Some x) | [] \<Rightarrow> ([], None) else (queue, None))"

definition temporal_stream_poll :: "bool \<Rightarrow> 'm list \<Rightarrow> 'm list \<Rightarrow> 'm list \<times> 'm list \<times> 'm option" where
  "temporal_stream_poll ready wrapped queue =
     (let queue = (case wrapped of x # xs \<Rightarrow> queue @ [x] | [] \<Rightarrow> queue);
          (queue, out) = temporal_processor_poll ready queue
      in (tl wrapped, queue, out))"

record ('id, 'a, 'pub, 'priv) message_blend_stream =
  mbs_processor :: "('id, 'a, 'pub, 'priv) cryptographic_processor"
  mbs_channel :: "blend_outgoing_message list"
  mbs_queue :: "blend_outgoing_message list"

definition message_blend_poll ::
  "(bytes \<Rightarrow> 'priv \<Rightarrow> ('e, bytes \<times> bool) outcome) \<Rightarrow> bytes option \<Rightarrow> bool \<Rightarrow> ('id, 'a, 'pub, 'priv) message_blend_stream \<Rightarrow>
     (('id, 'a, 'pub, 'priv) message_blend_stream \<times> blend_outgoing_message option) option" where
  "message_blend_poll unwrap input ready st =
     map_option
       (\<lambda>channel. let (channel, queue, out) = temporal_stream_poll ready channel (mbs_queue st)
          in (st\<lparr>mbs_channel := channel, mbs_queue := queue\<rparr>, out))
       (case input of
          Some message \<Rightarrow> process_incoming_message unwrap (mbs_processor st) message (mbs_channel st)
        | None \<Rightarrow> Some (mbs_channel st))"

section \<open>Emission at a steady rate\<close>

definition persistent_poll :: "'m \<Rightarrow> bool \<Rightarrow> bool \<Rightarrow> 'm list \<Rightarrow> 'm list \<times> 'm option" where
  "persistent_poll drop_message scheduled coin stream =
     (if \<not> scheduled then (stream, None)
      else case stream of
          item # rest \<Rightarrow> (rest, Some item)
        | [] \<Rightarrow> ([], if coin then Some drop_message else None))"

section \<open>Cover traffic\<close>

record cover_traffic_settings =
  ct_node_id :: bytes
  ct_number_of_hops :: nat
  ct_slots_per_epoch :: u64
  ct_network_size :: nat

record cover_traffic =
  ct_settings :: cover_traffic_settings
  selected_slots :: "u32 set"

definition cover_traffic_new :: "cover_traffic_settings \<Rightarrow> cover_traffic" where
  "cover_traffic_new settings = \<lparr>ct_settings = settings, selected_slots = {}\<rparr>"

definition generate_ticket :: "(bytes \<Rightarrow> u32) \<Rightarrow> bytes \<Rightarrow> u64 \<Rightarrow> u64 \<Rightarrow> u32" where
  "generate_ticket blake node_id r slot = blake (node_id @ be_bytes 8 r @ be_bytes 8 slot)"

text \<open>The loop of \<open>select_slot\<close>. No value means that it runs for ever, \<open>Some None\<close> that the remainder by zero panics.\<close>

partial_function (option) select_loop ::
  "(u64 \<Rightarrow> u32) \<Rightarrow> u32 \<Rightarrow> nat \<Rightarrow> u32 set \<Rightarrow> u64 \<Rightarrow> u32 set option option" where
  "select_loop ticket slots wanted w i =
     (if card w = wanted then Some (Some w)
      else if slots = 0 then Some None
      else select_loop ticket slots wanted (insert (ticket i mod slots) w) (i + 1))"

text \<open>\<open>slot_count slots network hops\<close> stands for the ceiling of \<open>slots / network * (1 / hops)\<close> in \<open>f64\<close>, cast to an integer.\<close>

definition select_slot ::
  "(bytes \<Rightarrow> u32) \<Rightarrow> (u64 \<Rightarrow> nat \<Rightarrow> nat \<Rightarrow> nat) \<Rightarrow> cover_traffic_settings \<Rightarrow> u64 \<Rightarrow> u32 set option option" where
  "select_slot blake slot_count s r =
     select_loop (generate_ticket blake (ct_node_id s) r) (ucast (ct_slots_per_epoch s))
       (slot_count (ct_slots_per_epoch s) (ct_network_size s) (ct_number_of_hops s)) {} 0"

definition cover_traffic_poll ::
  "(bytes \<Rightarrow> u32) \<Rightarrow> (u64 \<Rightarrow> nat \<Rightarrow> nat \<Rightarrow> nat) \<Rightarrow> u64 option \<Rightarrow> u64 option \<Rightarrow> cover_traffic \<Rightarrow>
     (cover_traffic \<times> bytes option) option option" where
  "cover_traffic_poll blake slot_count epoch slot st =
     map_option (map_option (\<lambda>selected.
         (st\<lparr>selected_slots := selected\<rparr>,
          case slot of Some n \<Rightarrow> if ucast n \<in> selected then Some [] else None | None \<Rightarrow> None)))
       (case epoch of Some r \<Rightarrow> select_slot blake slot_count (ct_settings st) r | None \<Rightarrow> Some (Some (selected_slots st)))"

section \<open>The blend service\<close>

text \<open>The loop of \<open>BlendService::run\<close>, one ready branch at a time: the stream of messages to transmit, the blended messages,
  the cover traffic and the messages of the other services. A panic is \<open>None\<close>.\<close>

record ('id, 'a, 'pub, 'priv) blend_service =
  bs_processor :: "('id, 'a, 'pub, 'priv) cryptographic_processor"
  bs_persistent :: "bytes list"
  bs_blend :: "('id, 'a, 'pub, 'priv) message_blend_stream"

datatype 'n service_event =
    PersistentPoll bool bool
  | BlendPoll "bytes option" bool
  | CoverMessage bytes
  | LocalMessage 'n

datatype 'n service_output = Publish bytes | Broadcast 'n

definition wrap_and_send ::
  "(bytes \<Rightarrow> 'pub list \<Rightarrow> ('e, bytes) outcome) \<Rightarrow>
     (('id, 'a, 'pub) blend_node list \<Rightarrow> nat \<Rightarrow> ('id, 'a, 'pub) blend_node list) \<Rightarrow> bytes \<Rightarrow>
     ('id, 'a, 'pub, 'priv) blend_service \<Rightarrow> ('id, 'a, 'pub, 'priv) blend_service option" where
  "wrap_and_send build pick message st =
     (case wrap_message build pick (bs_processor st) message of
        Ok wrapped \<Rightarrow> Some (st\<lparr>bs_persistent := bs_persistent st @ [wrapped]\<rparr>)
      | Err e \<Rightarrow> Some st
      | Abort \<Rightarrow> None)"

definition service_step ::
  "(bytes \<Rightarrow> 'pub list \<Rightarrow> ('e, bytes) outcome) \<Rightarrow>
     (('id, 'a, 'pub) blend_node list \<Rightarrow> nat \<Rightarrow> ('id, 'a, 'pub) blend_node list) \<Rightarrow>
     (bytes \<Rightarrow> 'priv \<Rightarrow> ('e, bytes \<times> bool) outcome) \<Rightarrow> bytes \<Rightarrow> ('n \<Rightarrow> bytes option) \<Rightarrow> (bytes \<Rightarrow> 'n option) \<Rightarrow>
     'n service_event \<Rightarrow> ('id, 'a, 'pub, 'priv) blend_service \<Rightarrow>
     (('id, 'a, 'pub, 'priv) blend_service \<times> 'n service_output list) option" where
  "service_step build pick unwrap drop_message serialize deserialize ev st =
     (case ev of
        PersistentPoll scheduled coin \<Rightarrow>
          (let (rest, out) = persistent_poll drop_message scheduled coin (bs_persistent st)
           in Some (st\<lparr>bs_persistent := rest\<rparr>, case out of Some m \<Rightarrow> [Publish m] | None \<Rightarrow> []))
      | BlendPoll input ready \<Rightarrow>
          map_option (\<lambda>(blend, out).
              case out of
                None \<Rightarrow> (st\<lparr>bs_blend := blend\<rparr>, [])
              | Some (Outbound m) \<Rightarrow> (st\<lparr>bs_blend := blend, bs_persistent := bs_persistent st @ [m]\<rparr>, [])
              | Some (FullyUnwrapped m) \<Rightarrow>
                  (st\<lparr>bs_blend := blend\<rparr>, case deserialize m of Some n \<Rightarrow> [Broadcast n] | None \<Rightarrow> []))
            (message_blend_poll unwrap input ready (bs_blend st))
      | CoverMessage m \<Rightarrow> map_option (\<lambda>st'. (st', [])) (wrap_and_send build pick m st)
      | LocalMessage n \<Rightarrow>
          Option.bind (serialize n) (\<lambda>m. map_option (\<lambda>st'. (st', [])) (wrap_and_send build pick m st)))"

section \<open>The choice of slots\<close>

lemma select_loop_result:
  assumes "select_loop ticket slots wanted w i = Some r"
  shows "(r = None \<longrightarrow> slots = 0) \<and> (\<forall>w'. r = Some w' \<longrightarrow> card w' = wanted \<and> w' \<subseteq> w \<union> range (\<lambda>i. ticket i mod slots))"
proof (rule select_loop.raw_induct [where P = "\<lambda>ticket slots wanted w i r. (r = None \<longrightarrow> slots = 0) \<and>
    (\<forall>w'. r = Some w' \<longrightarrow> card w' = wanted \<and> w' \<subseteq> w \<union> range (\<lambda>i. ticket i mod slots))", OF _ assms])
  fix loop and ticket :: "u64 \<Rightarrow> u32" and slots wanted w i r
  let ?P = "\<lambda>w r. (r = None \<longrightarrow> slots = 0) \<and>
    (\<forall>w'. r = Some w' \<longrightarrow> card w' = wanted \<and> w' \<subseteq> w \<union> range (\<lambda>i. ticket i mod slots))"
  assume IH: "\<And>ticket slots wanted w i r. loop ticket slots wanted w i = Some r \<Longrightarrow> (r = None \<longrightarrow> slots = 0) \<and>
      (\<forall>w'. r = Some w' \<longrightarrow> card w' = wanted \<and> w' \<subseteq> w \<union> range (\<lambda>i. ticket i mod slots))"
    and r: "(if card w = wanted then Some (Some w) else if slots = 0 then Some None
      else loop ticket slots wanted (insert (ticket i mod slots) w) (i + 1)) = Some r"
  show "?P w r"
  proof (cases "card w = wanted \<or> slots = 0")
    case True
    then show ?thesis using r by (auto split: if_splits)
  next
    case False
    then have "loop ticket slots wanted (insert (ticket i mod slots) w) (i + 1) = Some r" using r by simp
    from IH [OF this] show ?thesis by auto
  qed
qed

definition tickets :: "(u64 \<Rightarrow> u32) \<Rightarrow> u32 \<Rightarrow> nat \<Rightarrow> u32 set" where
  "tickets ticket slots n = (\<lambda>k. ticket (of_nat k) mod slots) ` {..<n}"

lemma tickets_Suc: "tickets ticket slots (Suc n) = insert (ticket (of_nat n) mod slots) (tickets ticket slots n)"
  by (auto simp: tickets_def less_Suc_eq)

lemma finite_tickets: "finite (tickets ticket slots n)"
  by (simp add: tickets_def)

lemma tickets_all:
  assumes "N = (2 :: nat) ^ 64"
  shows "tickets ticket slots N = range (\<lambda>i. ticket i mod slots)"
proof
  show "tickets ticket slots N \<subseteq> range (\<lambda>i. ticket i mod slots)" by (auto simp: tickets_def)
  have "ticket i mod slots \<in> tickets ticket slots N" for i
  proof -
    have "unat i < N" using unsigned_less [of i, where ?'a = nat] assms by simp
    then show ?thesis unfolding tickets_def by (intro image_eqI [of _ _ "unat i"]) simp_all
  qed
  then show "range (\<lambda>i. ticket i mod slots) \<subseteq> tickets ticket slots N" by blast
qed

lemma tickets_reach:
  assumes "wanted \<le> card (tickets ticket slots m)"
  shows "\<exists>n. card (tickets ticket slots n) = wanted \<and> (\<forall>k < n. card (tickets ticket slots k) \<noteq> wanted)"
proof -
  have "\<exists>n. card (tickets ticket slots n) = wanted"
    using assms
  proof (induction m)
    case 0
    then show ?case by (intro exI [of _ 0]) (simp add: tickets_def)
  next
    case (Suc m)
    then show ?case
    proof (cases "wanted \<le> card (tickets ticket slots m)")
      case False
      moreover have "card (tickets ticket slots (Suc m)) \<le> Suc (card (tickets ticket slots m))"
        unfolding tickets_Suc by (simp add: card_insert_if finite_tickets)
      ultimately show ?thesis using Suc.prems by (intro exI [of _ "Suc m"]) simp
    qed (use Suc.IH in blast)
  qed
  then show ?thesis by (rule exists_least_iff [THEN iffD1])
qed

lemma select_loop_returns:
  assumes "slots \<noteq> 0" and "card (tickets ticket slots n) = wanted" and "\<forall>k < n. card (tickets ticket slots k) \<noteq> wanted"
  shows "k \<le> n \<Longrightarrow> select_loop ticket slots wanted (tickets ticket slots k) (of_nat k) = Some (Some (tickets ticket slots n))"
proof (induction "n - k" arbitrary: k)
  case 0
  then show ?case using assms(2) by (simp add: select_loop.simps [of ticket slots wanted])
next
  case (Suc d)
  then have k: "k < n" "Suc k \<le> n" "d = n - Suc k" by simp_all
  have "select_loop ticket slots wanted (tickets ticket slots k) (of_nat k) =
      select_loop ticket slots wanted (tickets ticket slots (Suc k)) (of_nat (Suc k))"
    using assms(1,3) k(1) by (subst select_loop.simps) (simp add: tickets_Suc add.commute)
  then show ?case using Suc.hyps(1) [OF k(3,2)] by simp
qed

lemma card_remainders:
  assumes "slots \<noteq> (0 :: u32)"
  shows "card (range (\<lambda>i. f i mod slots)) \<le> unat slots"
proof -
  have "unat ` range (\<lambda>i. f i mod slots) \<subseteq> {..<unat slots}"
    using assms by (auto simp: unat_mod unat_gt_0)
  then have "card (unat ` range (\<lambda>i. f i mod slots)) \<le> unat slots"
    using card_mono [of "{..<unat slots}"] by simp
  moreover have "card (unat ` range (\<lambda>i. f i mod slots)) = card (range (\<lambda>i. f i mod slots))"
    by (intro card_image inj_onI) (simp add: word_unat_eq_iff)
  ultimately show ?thesis by simp
qed

text \<open>C33. The choice of the slots for cover traffic ends exactly when enough different tickets exist: then it returns as
  many of the remainders as asked for; otherwise, in particular when more slots are asked for than an epoch has, the
  loop never ends.\<close>

theorem select_slot_terminates:
  assumes "(ucast (ct_slots_per_epoch s) :: u32) \<noteq> 0"
  shows "let wanted = slot_count (ct_slots_per_epoch s) (ct_network_size s) (ct_number_of_hops s);
             R = range (\<lambda>i. generate_ticket blake (ct_node_id s) r i mod ucast (ct_slots_per_epoch s))
    in (if wanted \<le> card R
        then \<exists>w. select_slot blake slot_count s r = Some (Some w) \<and> card w = wanted \<and> w \<subseteq> R
        else select_slot blake slot_count s r = None) \<and>
      card R \<le> unat (ct_slots_per_epoch s)"
proof -
  define slots where "slots = (ucast (ct_slots_per_epoch s) :: u32)"
  define wanted where "wanted = slot_count (ct_slots_per_epoch s) (ct_network_size s) (ct_number_of_hops s)"
  define R where "R = range (\<lambda>i. generate_ticket blake (ct_node_id s) r i mod slots)"
  have ne: "slots \<noteq> 0" using assms unfolding slots_def .
  let ?t = "generate_ticket blake (ct_node_id s) r"
  obtain N where N: "N = (2 :: nat) ^ 64" by blast
  have R: "R = tickets ?t slots N" unfolding R_def tickets_all [OF N] ..
  have sel: "select_slot blake slot_count s r = select_loop ?t slots wanted (tickets ?t slots 0) (of_nat 0)"
    by (simp add: select_slot_def slots_def wanted_def tickets_def)
  have result: "card w = wanted \<and> w \<subseteq> R" if "select_slot blake slot_count s r = Some (Some w)" for w
    using select_loop_result [OF that [unfolded sel]] unfolding R_def by (auto simp: tickets_def)
  have "select_slot blake slot_count s r \<noteq> Some None"
    using select_loop_result [of ?t slots wanted "tickets ?t slots 0" "of_nat 0" None] ne unfolding sel by blast
  then have none: "select_slot blake slot_count s r = None" if "\<not> wanted \<le> card R"
    using that result card_mono [OF finite_tickets, of _ ?t slots N] unfolding R [symmetric] by (metis option.exhaust)
  have "\<exists>w. select_slot blake slot_count s r = Some (Some w)" if "wanted \<le> card R"
  proof -
    obtain n where "card (tickets ?t slots n) = wanted" "\<forall>k < n. card (tickets ?t slots k) \<noteq> wanted"
      using tickets_reach \<open>wanted \<le> card R\<close> unfolding R by metis
    from select_loop_returns [OF ne this, of 0] show ?thesis unfolding sel by blast
  qed
  moreover have "card R \<le> unat (ct_slots_per_epoch s)"
  proof -
    have "card R \<le> unat slots" using card_remainders [OF ne] unfolding R_def .
    also have "\<dots> \<le> unat (ct_slots_per_epoch s)" unfolding slots_def by (simp add: unsigned_ucast_eq take_bit_nat_less_eq_self)
    finally show ?thesis .
  qed
  ultimately have "(if wanted \<le> card R
      then \<exists>w. select_slot blake slot_count s r = Some (Some w) \<and> card w = wanted \<and> w \<subseteq> R
      else select_slot blake slot_count s r = None) \<and> card R \<le> unat (ct_slots_per_epoch s)"
    using result none by auto
  then show ?thesis unfolding Let_def wanted_def R_def slots_def .
qed

definition sample_cover :: cover_traffic_settings where
  "sample_cover = \<lparr>ct_node_id = [], ct_number_of_hops = 1, ct_slots_per_epoch = 2, ct_network_size = 1\<rparr>"

theorem select_slot_terminates_witness:
  "(\<exists>w. select_slot (\<lambda>bs. ucast (last bs)) (\<lambda>_ _ _. 2) sample_cover 0 = Some (Some w) \<and> card w = 2) \<and>
   select_slot (\<lambda>bs. ucast (last bs)) (\<lambda>_ _ _. 3) sample_cover 0 = None"
proof -
  let ?b = "\<lambda>bs. ucast (last bs) :: u32"
  let ?f = "\<lambda>i. generate_ticket ?b (ct_node_id sample_cover) 0 i mod ucast (ct_slots_per_epoch sample_cover)"
  have ne: "(ucast (ct_slots_per_epoch sample_cover) :: u32) \<noteq> 0" by (simp add: sample_cover_def)
  have "?f 0 = 0" "?f 1 = 1"
    by (simp_all add: generate_ticket_def be_bytes_def le_bytes_def sample_cover_def upt_rec)
  then have "{0, 1} \<subseteq> range ?f" by (metis empty_subsetI insert_subset rangeI)
  then have "card {0, 1 :: u32} \<le> card (range ?f)" by (rule card_mono [rotated]) simp
  then have two: "2 \<le> card (range ?f)" by simp
  have "card (range ?f) \<le> 2"
    using select_slot_terminates [OF ne, of "\<lambda>_ _ _. 2" ?b 0] unfolding Let_def by (simp add: sample_cover_def)
  then show ?thesis
    using two select_slot_terminates [OF ne, of "\<lambda>_ _ _. 2" ?b 0] select_slot_terminates [OF ne, of "\<lambda>_ _ _. 3" ?b 0]
    unfolding Let_def by auto
qed

section \<open>The delays\<close>

text \<open>The scheduler polled once a second from second zero on, its interval ticking every \<open>lottery_interval_seconds\<close>
  seconds: the state and what each poll said.\<close>

fun scheduler_run ::
  "(nat \<Rightarrow> u64 \<Rightarrow> u64) \<Rightarrow> nat \<Rightarrow> temporal_scheduler \<Rightarrow> (temporal_scheduler \<times> bool list) option" where
  "scheduler_run g 0 ts = Some (ts, [])"
| "scheduler_run g (Suc n) ts =
     Option.bind (scheduler_run g n ts) (\<lambda>(ts', released).
       map_option (\<lambda>(ts'', r). (ts'', released @ [r]))
         (scheduler_poll (g n) (n mod unat (lottery_interval_seconds (ts_max_delay ts)) = 0) n ts'))"

definition timer_after :: "(nat \<Rightarrow> u64 \<Rightarrow> u64) \<Rightarrow> u64 \<Rightarrow> nat \<Rightarrow> nat option" where
  "timer_after g interval n =
     (let base = n - n mod unat interval; delay = unat (g base interval) in
      if n mod unat interval \<noteq> 0 \<and> n mod unat interval \<le> delay then Some (base + delay) else None)"

lemma timer_step:
  assumes "interval \<noteq> 0" and "\<And>t. g t interval < interval"
  shows "timer_after g interval (Suc n) =
    (let base = n - n mod unat interval; delay = unat (g base interval) in
     if n mod unat interval < delay then Some (base + delay) else None)"
proof -
  let ?L = "unat interval"
  have L: "0 < ?L" "unat (g t interval) < ?L" for t
    using assms by (simp_all add: unat_gt_0 word_less_nat_alt)
  show ?thesis
  proof (cases "Suc (n mod ?L) = ?L")
    case True
    then have "Suc n mod ?L = 0" by (simp add: mod_Suc)
    moreover have "\<not> n mod ?L < unat (g (n - n mod ?L) interval)"
      using L(2) [of "n - n mod ?L"] True by linarith
    ultimately show ?thesis by (simp add: timer_after_def Let_def)
  next
    case False
    then have "Suc n mod ?L = Suc (n mod ?L)" by (simp add: mod_Suc)
    then show ?thesis by (simp add: timer_after_def Let_def Suc_le_eq)
  qed
qed

lemma scheduler_run_eq:
  assumes "interval = lottery_interval_seconds (ts_max_delay ts)" and "interval \<noteq> 0" and "\<And>t. g t interval < interval"
    and "ts_release_timer ts = None"
  shows "scheduler_run g n ts = Some (ts\<lparr>ts_release_timer := timer_after g interval n\<rparr>,
    map (\<lambda>t. t mod unat interval = unat (g (t - t mod unat interval) interval)) [0..<n])"
proof (induction n)
  case 0
  then show ?case using assms(4) by (simp add: timer_after_def)
next
  case (Suc n)
  let ?L = "unat interval"
  let ?d = "unat (g (n - n mod ?L) interval)"
  note step = timer_step [of interval g n, OF assms(2,3)]
  have poll: "scheduler_poll (g n) (n mod ?L = 0) n (ts\<lparr>ts_release_timer := timer_after g interval n\<rparr>) =
      Some (ts\<lparr>ts_release_timer := timer_after g interval (Suc n)\<rparr>, n mod ?L = ?d)"
  proof (cases "n mod ?L = 0")
    case True
    then show ?thesis
      using assms(2) by (auto simp: scheduler_poll_def run_lottery_def Let_def step simp flip: assms(1))
  next
    case False
    have n: "n - n mod ?L + ?d \<le> n \<longleftrightarrow> ?d \<le> n mod ?L" using mod_less_eq_dividend [of n ?L] by linarith
    show ?thesis
      using False n by (auto simp: scheduler_poll_def timer_after_def [of g interval n] Let_def step)
  qed
  show ?case using Suc.IH poll by (simp flip: assms(1))
qed

text \<open>One release in every period, at an offset smaller than the period, leaves no gap of two periods.\<close>

lemma one_per_period:
  fixes D :: "nat \<Rightarrow> nat"
  assumes L: "0 < L" and D: "\<And>k. D k < L"
    and r: "\<And>t k. t < n \<Longrightarrow> k * L \<le> t \<Longrightarrow> t < (k + 1) * L \<Longrightarrow> r t \<longleftrightarrow> t = k * L + D k"
  shows "(k + 1) * L \<le> n \<Longrightarrow> \<exists>!t. k * L \<le> t \<and> t < (k + 1) * L \<and> r t"
    and "2 * L \<le> m \<Longrightarrow> s + m \<le> n \<Longrightarrow> \<exists>t. s \<le> t \<and> t < s + m \<and> r t"
proof -
  assume n: "(k + 1) * L \<le> n"
  show "\<exists>!t. k * L \<le> t \<and> t < (k + 1) * L \<and> r t"
  proof (rule ex1I [of _ "k * L + D k"])
    have "k * L + D k < n" using n D [of k] by simp
    then show "k * L \<le> k * L + D k \<and> k * L + D k < (k + 1) * L \<and> r (k * L + D k)"
      using r [of "k * L + D k" k] D [of k] by simp
  next
    fix t assume t: "k * L \<le> t \<and> t < (k + 1) * L \<and> r t"
    then have "t < n" using n by linarith
    then show "t = k * L + D k" using r [of t k] t by blast
  qed
next
  assume m: "2 * L \<le> m" "s + m \<le> n"
  obtain q where q: "q * L \<le> s" "s < q * L + L"
    using L dividend_less_div_times [of L s] by (intro that [of "s div L"]) (simp_all add: add.commute)
  define k where "k = (if s \<le> q * L + D q then q else Suc q)"
  have "s \<le> k * L + D k" "k * L + D k < s + 2 * L"
    using q D [of k] D [of q] by (auto simp: k_def)
  then show "\<exists>t. s \<le> t \<and> t < s + m \<and> r t"
    using m r [of "k * L + D k" k] D [of k] by (intro exI [of _ "k * L + D k"]) simp
qed

text \<open>C34. Polled every second, the scheduler of a maximal delay of at least two seconds releases exactly once in every
  interval of the lottery, and between any second and \<open>max_delay\<close> seconds later there is a release.\<close>

theorem temporal_release_bounded:
  assumes "scheduler_new max_delay = Some ts" and "\<forall>t k. k \<noteq> 0 \<longrightarrow> g t k < k"
  shows "\<exists>ts' released. scheduler_run g n ts = Some (ts', released) \<and> length released = n \<and>
    (\<forall>k. (k + 1) * (unat max_delay div 2) \<le> n \<longrightarrow>
      (\<exists>!t. k * (unat max_delay div 2) \<le> t \<and> t < (k + 1) * (unat max_delay div 2) \<and> released ! t)) \<and>
    (\<forall>s. s + unat max_delay \<le> n \<longrightarrow> (\<exists>t. s \<le> t \<and> t < s + unat max_delay \<and> released ! t))"
proof -
  define interval where "interval = lottery_interval_seconds max_delay"
  define L where "L = unat interval"
  define D where "D k = unat (g (k * L) interval)" for k
  have ts: "interval \<noteq> 0" "ts_max_delay ts = max_delay" "ts_release_timer ts = None"
    using assms(1) by (auto simp: scheduler_new_def interval_def split: if_splits)
  have g: "g t interval < interval" for t using assms(2) ts(1) by blast
  have L: "L = unat max_delay div 2" "0 < L"
    using ts(1) unat_gt_0 [of interval] by (simp_all add: L_def interval_def lottery_interval_seconds_def unat_div)
  have D: "D k < L" for k using g by (simp add: D_def L_def word_less_nat_alt)
  let ?r = "map (\<lambda>t. t mod L = unat (g (t - t mod L) interval)) [0..<n]"
  have run: "\<exists>ts'. scheduler_run g n ts = Some (ts', ?r)"
    using scheduler_run_eq [of interval ts g n] ts g by (simp add: interval_def L_def)
  have iff: "?r ! t \<longleftrightarrow> t = k * L + D k" if n: "t < n" and k: "k * L \<le> t" "t < (k + 1) * L" for t k
  proof -
    obtain j where j: "t = k * L + j" "j < L" using k by (auto simp: nat_le_iff_add)
    then have "t mod L = j" "t - t mod L = k * L" by simp_all
    then show ?thesis using n j(1) by (simp add: D_def)
  qed
  note period = one_per_period [of L D n "(!) ?r", OF L(2) D iff]
  have "2 * L \<le> unat max_delay" using L(1) by simp
  with run period show ?thesis unfolding L(1) [symmetric] by (auto intro!: exI [of _ ?r])
qed

theorem temporal_release_bounded_witness:
  "\<exists>ts' released. scheduler_run (\<lambda>t k. k - 1) 8 \<lparr>ts_max_delay = 4, ts_release_timer = None\<rparr> = Some (ts', released) \<and>
     (\<exists>t. 2 \<le> t \<and> t < 6 \<and> released ! t)"
proof -
  have "scheduler_new 4 = Some \<lparr>ts_max_delay = 4, ts_release_timer = None\<rparr>"
    by (simp add: scheduler_new_def lottery_interval_seconds_def)
  moreover have "k - 1 < k" if "k \<noteq> 0" for k :: u64 using that by (simp add: word_less_1 measure_unat word_less_nat_alt)
  ultimately show ?thesis
    using temporal_release_bounded [of 4 "\<lparr>ts_max_delay = 4, ts_release_timer = None\<rparr>" "\<lambda>t k. k - 1" 8]
    by (fastforce dest: spec [of _ 2])
qed

section \<open>The way of a message\<close>

text \<open>A poll of the blended messages keeps their order: what waits and what is emitted are what waited before, followed
  by what the incoming message unwraps to.\<close>

lemma message_blend_poll_fifo:
  assumes "message_blend_poll unwrap input ready st = Some (st', out)"
  shows "\<exists>new. (case input of
        Some m \<Rightarrow> process_incoming_message unwrap (mbs_processor st) m [] = Some new | None \<Rightarrow> new = []) \<and>
      (case out of Some x \<Rightarrow> [x] | None \<Rightarrow> []) @ mbs_queue st' @ mbs_channel st' = mbs_queue st @ mbs_channel st @ new"
proof -
  obtain channel new where new: "channel = mbs_channel st @ new" "case input of
        Some m \<Rightarrow> process_incoming_message unwrap (mbs_processor st) m [] = Some new | None \<Rightarrow> new = []"
      "(st', out) = (let (channel, queue, out) = temporal_stream_poll ready channel (mbs_queue st)
         in (st\<lparr>mbs_channel := channel, mbs_queue := queue\<rparr>, out))"
    using assms by (force simp: message_blend_poll_def process_incoming_message_def split: option.splits outcome.splits)
  have "(case out of Some x \<Rightarrow> [x] | None \<Rightarrow> []) @ mbs_queue st' @ mbs_channel st' = mbs_queue st @ channel"
    using new(3) by (auto simp: temporal_stream_poll_def temporal_processor_poll_def Let_def split: list.splits if_splits prod.splits)
  then show ?thesis using new(1,2) by auto
qed

text \<open>A message that is handed from node to node, each of them with its processor; the result is what the last one
  passes to its temporal processor.\<close>

fun relay ::
  "(bytes \<Rightarrow> 'priv \<Rightarrow> ('e, bytes \<times> bool) outcome) \<Rightarrow> ('id, 'a, 'pub, 'priv) cryptographic_processor list \<Rightarrow> bytes \<Rightarrow>
     blend_outgoing_message list option" where
  "relay unwrap [] message = None"
| "relay unwrap [cp] message = process_incoming_message unwrap cp message []"
| "relay unwrap (cp # cp' # cps) message =
     (case process_incoming_message unwrap cp message [] of
        Some [Outbound message'] \<Rightarrow> relay unwrap (cp' # cps) message'
      | _ \<Rightarrow> None)"

context blend_message
begin

lemma travels_relay:
  "travels (map cp_private_key cps) p m \<Longrightarrow> relay unwrap cps m = Some [FullyUnwrapped p]"
proof (induction cps arbitrary: m rule: induct_list012)
  case 1
  then show ?case using travels_some by simp
next
  case (2 cp)
  then show ?case using travels_last by (simp add: process_incoming_message_def unwrap_message_def)
next
  case (3 cp cp' cps)
  obtain m' where m': "unwrap m (cp_private_key cp) = Ok (m', False)" "travels (map cp_private_key (cp' # cps)) p m'"
    using travels_next [of "cp_private_key cp" "cp_private_key cp'" "map cp_private_key cps"] 3(3) by fastforce
  then show ?case using 3(2) [OF m'(2)] by (simp add: process_incoming_message_def unwrap_message_def)
qed

lemma wrapped_relayed:
  assumes "picks pick" and "distinct (remote_nodes (cp_membership cp))"
    and "\<forall>n \<in> set (remote_nodes (cp_membership cp)). bn_public_key n = public (cp_private_key (hop n))"
    and "buildable p (map (\<lambda>n. cp_private_key (hop n)) (pick (remote_nodes (cp_membership cp)) (cp_num_blend_layers cp)))"
  shows "\<exists>m route. wrap_message build pick cp p = Ok m \<and> distinct route \<and>
    set route \<subseteq> set (remote_nodes (cp_membership cp)) \<and>
    length route = min (cp_num_blend_layers cp) (length (remote_nodes (cp_membership cp))) \<and>
    relay unwrap (map hop route) m = Some [FullyUnwrapped p]"
proof -
  define route where "route = pick (remote_nodes (cp_membership cp)) (cp_num_blend_layers cp)"
  have route: "set route \<subseteq> set (remote_nodes (cp_membership cp))" "distinct route"
      "length route = min (cp_num_blend_layers cp) (length (remote_nodes (cp_membership cp)))"
    using assms(1,2) by (simp_all add: route_def picks_def)
  have keys: "map bn_public_key route = map public (map (\<lambda>n. cp_private_key (hop n)) route)"
    using route(1) assms(3) by auto
  obtain m where m: "build p (map public (map (\<lambda>n. cp_private_key (hop n)) route)) = Ok m"
      "travels (map (\<lambda>n. cp_private_key (hop n)) route) p m"
    using build_travels [OF assms(4)] unfolding route_def by blast
  have "wrap_message build pick cp p = Ok m"
    using m(1) unfolding keys [symmetric] by (simp add: wrap_message_def choose_remote_nodes_def route_def)
  moreover have "travels (map cp_private_key (map hop route)) p m" using m(2) by (simp add: comp_def)
  ultimately have "wrap_message build pick cp p = Ok m" "travels (map cp_private_key (map hop route)) p m" .
  then show ?thesis using travels_relay route by blast
qed

end

text \<open>C32. A payload a node wraps reaches its end: the message passes through as many different remote nodes as there are
  layers, or all of them, each but the last hands on a message for the next, and the last one passes the payload on
  as fully unwrapped.\<close>

theorem blend_delivers:
  assumes "sphinx_laws c rnd" and "picks pick" and "distinct (remote_nodes (cp_membership cp))"
    and "remote_nodes (cp_membership cp) \<noteq> []" and "0 < cp_num_blend_layers cp" and "cp_num_blend_layers cp \<le> 5"
    and "\<forall>n \<in> set (remote_nodes (cp_membership cp)). bn_public_key n = public_key_of c (cp_private_key (hop n))"
    and "\<forall>keys. \<exists>body. encapsulate_message c payload keys (2048 + payload_overhead_size c) = Inr body"
  shows "\<exists>m route. wrap_message (sphinx_build_message c rnd eph) pick cp payload = Ok m \<and> distinct route \<and>
    set route \<subseteq> set (remote_nodes (cp_membership cp)) \<and>
    length route = min (cp_num_blend_layers cp) (length (remote_nodes (cp_membership cp))) \<and>
    relay (sphinx_unwrap_message c) (map hop route) m = Some [FullyUnwrapped payload]"
proof -
  have "length (pick (remote_nodes (cp_membership cp)) (cp_num_blend_layers cp)) =
      min (cp_num_blend_layers cp) (length (remote_nodes (cp_membership cp)))"
    using assms(2,3) by (simp add: picks_def)
  then have "sphinx_buildable c rnd eph payload
      (map (\<lambda>n. cp_private_key (hop n)) (pick (remote_nodes (cp_membership cp)) (cp_num_blend_layers cp)))"
    using assms(1,4,5,6,8) by (auto simp: sphinx_buildable_def simp flip: length_greater_0_conv)
  from sphinx.wrapped_relayed [OF assms(2,3,7) this] show ?thesis .
qed

definition sample_node :: "u8 \<Rightarrow> (u8, nat, bytes) blend_node" where
  "sample_node s = \<lparr>bn_id = s, bn_address = 0, bn_public_key = replicate 32 s\<rparr>"

definition sample_processor :: "u8 \<Rightarrow> (u8, nat, bytes, u8) cryptographic_processor" where
  "sample_processor s = \<lparr>cp_private_key = s, cp_num_blend_layers = 2,
     cp_membership = \<lparr>remote_nodes = map sample_node [4, 5, 6], local_node = sample_node 3\<rparr>\<rparr>"

theorem blend_delivers_witness:
  "\<exists>m (route :: (u8, nat, bytes) blend_node list). wrap_message (sphinx_build_message sample_sphinx (\<lambda>n. replicate n 7) 3) (\<lambda>xs n. take n xs)
       (sample_processor 3) (replicate 2048 9) = Ok m \<and> length route = 2 \<and>
     relay (sphinx_unwrap_message sample_sphinx) (map (\<lambda>n. sample_processor (bn_id n)) route) m =
       Some [FullyUnwrapped (replicate 2048 9)]"
proof -
  let ?cp = "sample_processor 3"
  have picks: "picks (\<lambda>(xs :: (u8, nat, bytes) blend_node list) n. take n xs)"
    by (auto simp: picks_def dest: in_set_takeD)
  have body: "\<forall>keys. \<exists>body. encapsulate_message sample_sphinx (replicate 2048 9) keys
      (2048 + payload_overhead_size sample_sphinx) = Inr body"
    unfolding sample_sphinx_def by simp
  have nodes: "distinct (remote_nodes (cp_membership ?cp))" "remote_nodes (cp_membership ?cp) \<noteq> []"
      "0 < cp_num_blend_layers ?cp" "cp_num_blend_layers ?cp \<le> 5"
      "\<forall>n \<in> set (remote_nodes (cp_membership ?cp)).
         bn_public_key n = public_key_of sample_sphinx (cp_private_key (sample_processor (bn_id n)))"
    by (simp_all add: sample_processor_def sample_node_def sample_sphinx_def)
  have "min (cp_num_blend_layers ?cp) (length (remote_nodes (cp_membership ?cp))) = 2"
    by (simp add: sample_processor_def)
  with blend_delivers [OF sample_sphinx_laws picks nodes body, of 3] show ?thesis by auto
qed

end
