(* ===== verification/Blend_Network.thy ===== *)
theory Blend_Network
  imports Blend_Core Da_Messages "HOL-Library.Sublist"
begin

text \<open>
  The network of the blend protocol: the monitor of a connection (\<open>nomos-blend/core/src/conn_maintenance.rs\<close>), the handler of a
  connection and the behaviour of the node (\<open>nomos-blend/network/src/handler.rs\<close>, \<open>behaviour.rs\<close>), and the peers the swarm of
  \<open>nomos-services/blend/src/backends/libp2p.rs\<close> dials. Streams are opaque; how the futures that read and write them
  end is an argument of a poll. Wakers only schedule polls and are left out. The cache of seen messages and the
  hash of a message are parameters.
\<close>

section \<open>The monitor of a connection\<close>

record blend_monitor_settings =
  monitor_interval :: nat
  expected_effective_messages :: u57f7
  effective_message_malicious_tolerance :: u57f7
  effective_message_unhealthy_tolerance :: u57f7
  expected_drop_messages :: u57f7
  drop_message_malicious_tolerance :: u57f7
  drop_message_unhealthy_tolerance :: u57f7

record blend_monitor =
  bmon_settings :: blend_monitor_settings
  effective_messages :: u57f7
  drop_messages :: u57f7

datatype monitor_output = OutputMalicious | OutputUnhealthy | OutputHealthy

definition blend_monitor_new :: "blend_monitor_settings \<Rightarrow> blend_monitor" where
  "blend_monitor_new s = \<lparr>bmon_settings = s, effective_messages = 0, drop_messages = 0\<rparr>"

definition record_message :: "u57f7 \<Rightarrow> u57f7" where
  "record_message v = (case checked_add v fixed_one of Some w \<Rightarrow> w | None \<Rightarrow> v)"

definition blend_is_malicious :: "blend_monitor \<Rightarrow> bool" where
  "blend_is_malicious m =
     (let s = bmon_settings m;
          effective_threshold = fixed_mul (expected_effective_messages s) (fixed_one + effective_message_malicious_tolerance s);
          drop_threshold = fixed_mul (expected_drop_messages s) (fixed_one + drop_message_malicious_tolerance s)
      in effective_threshold < effective_messages m \<or> drop_threshold < drop_messages m)"

definition blend_is_unhealthy :: "blend_monitor \<Rightarrow> bool" where
  "blend_is_unhealthy m =
     (let s = bmon_settings m;
          effective_threshold = fixed_mul (expected_effective_messages s) (fixed_one - effective_message_unhealthy_tolerance s);
          drop_threshold = fixed_mul (expected_drop_messages s) (fixed_one - drop_message_unhealthy_tolerance s)
      in effective_messages m < effective_threshold \<or> drop_messages m < drop_threshold)"

definition blend_monitor_poll :: "bool \<Rightarrow> blend_monitor \<Rightarrow> blend_monitor \<times> monitor_output option" where
  "blend_monitor_poll elapsed m =
     (if elapsed then
        (m\<lparr>effective_messages := 0, drop_messages := 0\<rparr>,
         Some (if blend_is_malicious m then OutputMalicious
               else if blend_is_unhealthy m then OutputUnhealthy else OutputHealthy))
      else (m, None))"

section \<open>The handler of a connection\<close>

datatype 's inbound_substream = PendingRecv 's | InboundDropped

datatype 's outbound_substream = PendingOpenSubstream | IdleStream 's | PendingSend 's bytes | OutboundDropped

datatype to_behaviour =
    FullyNegotiatedInbound
  | FullyNegotiatedOutbound
  | DialUpgradeError
  | ReceivedMessage bytes
  | MaliciousPeer
  | UnhealthyPeer
  | IOError

datatype handler_event = NotifyBehaviour to_behaviour | OutboundSubstreamRequest

record 's blend_handler =
  inbound_substream :: "'s inbound_substream option"
  outbound_substream :: "'s outbound_substream option"
  outbound_msgs :: "bytes list"
  pending_events :: "to_behaviour list"
  handler_monitor :: "blend_monitor option"

definition handler_new :: "blend_monitor option \<Rightarrow> 's blend_handler" where
  "handler_new monitor =
     \<lparr>inbound_substream = None, outbound_substream = None, outbound_msgs = [], pending_events = [], handler_monitor = monitor\<rparr>"

definition close_substreams :: "'s blend_handler \<Rightarrow> 's blend_handler" where
  "close_substreams h = h\<lparr>inbound_substream := Some InboundDropped, outbound_substream := Some OutboundDropped,
     outbound_msgs := [], pending_events := []\<rparr>"

definition poll_monitor :: "bool \<Rightarrow> 's blend_handler \<Rightarrow> 's blend_handler" where
  "poll_monitor elapsed h =
     (case handler_monitor h of
        None \<Rightarrow> h
      | Some m \<Rightarrow>
          let (m', out) = blend_monitor_poll elapsed m; h' = h\<lparr>handler_monitor := Some m'\<rparr> in
          case out of
            Some OutputMalicious \<Rightarrow> let h'' = close_substreams h' in h''\<lparr>pending_events := pending_events h'' @ [MaliciousPeer]\<rparr>
          | Some OutputUnhealthy \<Rightarrow> h'\<lparr>pending_events := pending_events h' @ [UnhealthyPeer]\<rparr>
          | _ \<Rightarrow> h')"

text \<open>\<open>recv\<close> is how the future that reads the inbound stream ends, when it does: with an error or with the stream and a
  message.\<close>

definition poll_inbound ::
  "(bytes \<Rightarrow> bool) \<Rightarrow> (unit + 's \<times> bytes) option \<Rightarrow> 's blend_handler \<Rightarrow> 's blend_handler \<times> handler_event option" where
  "poll_inbound is_drop recv h =
     (case (inbound_substream h, recv) of
        (Some (PendingRecv _), Some (Inr (stream, msg))) \<Rightarrow>
          (h\<lparr>inbound_substream := Some (PendingRecv stream),
             handler_monitor := map_option (\<lambda>m.
               if is_drop msg then m\<lparr>drop_messages := record_message (drop_messages m)\<rparr>
               else m\<lparr>effective_messages := record_message (effective_messages m)\<rparr>) (handler_monitor h)\<rparr>,
           Some (NotifyBehaviour (ReceivedMessage msg)))
      | (Some (PendingRecv _), Some (Inl _)) \<Rightarrow> (close_substreams h, Some (NotifyBehaviour IOError))
      | _ \<Rightarrow> (h, None))"

text \<open>The loop over the outbound stream. \<open>sends\<close> lists how the futures that write messages end, as long as they end in this
  poll; the messages written are returned.\<close>

function poll_outbound ::
  "(unit + 's) list \<Rightarrow> 's blend_handler \<Rightarrow> 's blend_handler \<times> handler_event option \<times> bytes list" where
  "poll_outbound sends h =
     (case outbound_substream h of
        Some PendingOpenSubstream \<Rightarrow> (h, None, [])
      | Some (IdleStream stream) \<Rightarrow>
          (case outbound_msgs h of
             msg # rest \<Rightarrow>
               poll_outbound sends (h\<lparr>outbound_substream := Some (PendingSend stream msg), outbound_msgs := rest\<rparr>)
           | [] \<Rightarrow> (h, None, []))
      | Some (PendingSend stream msg) \<Rightarrow>
          (case sends of
             Inr stream' # rest \<Rightarrow>
               (let (h', ev, written) = poll_outbound rest (h\<lparr>outbound_substream := Some (IdleStream stream')\<rparr>)
                in (h', ev, msg # written))
           | Inl _ # rest \<Rightarrow> (close_substreams h, Some (NotifyBehaviour IOError), [])
           | [] \<Rightarrow> (h, None, []))
      | Some OutboundDropped \<Rightarrow> (h, None, [])
      | None \<Rightarrow> (h\<lparr>outbound_substream := Some PendingOpenSubstream\<rparr>, Some OutboundSubstreamRequest, []))"
  by pat_completeness auto

termination
  by (relation "measure (\<lambda>(sends, h). length sends + length (outbound_msgs h))") auto

declare poll_outbound.simps [simp del]

definition handler_poll ::
  "(bytes \<Rightarrow> bool) \<Rightarrow> bool \<Rightarrow> (unit + 's \<times> bytes) option \<Rightarrow> (unit + 's) list \<Rightarrow> 's blend_handler \<Rightarrow>
     's blend_handler \<times> handler_event option \<times> bytes list" where
  "handler_poll is_drop elapsed recv sends h =
     (let h1 = poll_monitor elapsed h in
      case pending_events h1 of
        e # rest \<Rightarrow> (h1\<lparr>pending_events := rest\<rparr>, Some (NotifyBehaviour e), [])
      | [] \<Rightarrow>
          (case poll_inbound is_drop recv h1 of
             (h2, Some ev) \<Rightarrow> (h2, Some ev, [])
           | (h2, None) \<Rightarrow> poll_outbound sends h2))"

datatype from_behaviour = SendBlendMessage bytes | CloseSubstreams

definition on_behaviour_event :: "from_behaviour \<Rightarrow> 's blend_handler \<Rightarrow> 's blend_handler" where
  "on_behaviour_event ev h =
     (case ev of
        SendBlendMessage msg \<Rightarrow> h\<lparr>outbound_msgs := outbound_msgs h @ [msg]\<rparr>
      | CloseSubstreams \<Rightarrow> close_substreams h)"

datatype 's blend_connection_event =
    NegotiatedInbound 's
  | NegotiatedOutbound 's
  | UpgradeFailed
  | OtherConnectionEvent

definition on_connection_event :: "'s blend_connection_event \<Rightarrow> 's blend_handler \<Rightarrow> 's blend_handler" where
  "on_connection_event ev h =
     (case ev of
        NegotiatedInbound stream \<Rightarrow>
          h\<lparr>inbound_substream := Some (PendingRecv stream), pending_events := pending_events h @ [FullyNegotiatedInbound]\<rparr>
      | NegotiatedOutbound stream \<Rightarrow>
          h\<lparr>outbound_substream := Some (IdleStream stream), pending_events := pending_events h @ [FullyNegotiatedOutbound]\<rparr>
      | UpgradeFailed \<Rightarrow> close_substreams (h\<lparr>pending_events := pending_events h @ [DialUpgradeError]\<rparr>)
      | OtherConnectionEvent \<Rightarrow> h)"

text \<open>Messages on the wire: two bytes of length, then the bytes.\<close>

definition send_msg :: "('w \<Rightarrow> bytes \<Rightarrow> 'e io_error + 'w) \<Rightarrow> bytes \<Rightarrow> 'w \<Rightarrow> 'e io_error + 'w" where
  "send_msg write_all msg w =
     (if 65535 < length msg then Inl (MessageTooLarge (length msg))
      else case write_all w (be_bytes 2 (of_nat (length msg) :: u16)) of
          Inl e \<Rightarrow> Inl e
        | Inr w' \<Rightarrow> write_all w' msg)"

definition recv_msg :: "bytes \<Rightarrow> 'e io_error + bytes \<times> bytes" where
  "recv_msg r =
     (case read_exact 2 r of
        Inl e \<Rightarrow> Inl e
      | Inr (len, r') \<Rightarrow> read_exact (unat (from_be_bytes len)) r')"

section \<open>The behaviour\<close>

datatype negotiated_peer_state = HealthyPeer | UnhealthyNegotiated

datatype 'p blend_event =
    BlendMessageEvent bytes
  | MaliciousPeerEvent 'p
  | UnhealthyPeerEvent 'p
  | PeerIOError 'p

datatype 'p blend_to_swarm = NotifyHandler 'p bytes | GenerateEvent "'p blend_event"

text \<open>\<open>cache_get\<close> and \<open>cache_set\<close> of a timed cache: whether the key is there, and the cache afterwards.\<close>

record 'c duplicate_cache_ops =
  dc_get :: "'c \<Rightarrow> bytes \<Rightarrow> bool \<times> 'c"
  dc_set :: "'c \<Rightarrow> bytes \<Rightarrow> bool \<times> 'c"

record ('p, 'c) blend_behaviour =
  bb_monitor_settings :: "blend_monitor_settings option"
  negotiated_peers :: "'p \<rightharpoonup> negotiated_peer_state"
  bb_events :: "'p blend_to_swarm list"
  duplicate_cache :: 'c

definition blend_behaviour_new :: "'c \<Rightarrow> blend_monitor_settings option \<Rightarrow> ('p, 'c) blend_behaviour" where
  "blend_behaviour_new cache settings =
     \<lparr>bb_monitor_settings = settings, negotiated_peers = Map.empty, bb_events = [], duplicate_cache = cache\<rparr>"

definition forward_message ::
  "('p set \<Rightarrow> 'p list) \<Rightarrow> bytes \<Rightarrow> 'p option \<Rightarrow> ('p, 'c) blend_behaviour \<Rightarrow> ('p, 'c) blend_behaviour \<times> bool" where
  "forward_message iter message excluded st =
     (let peers = filter (\<lambda>p. excluded \<noteq> Some p) (iter (dom (negotiated_peers st)))
      in (st\<lparr>bb_events := bb_events st @ map (\<lambda>p. NotifyHandler p message) peers\<rparr>, peers \<noteq> []))"

text \<open>The result is whether publishing succeeded; it fails for want of peers only.\<close>

definition blend_publish ::
  "'c duplicate_cache_ops \<Rightarrow> (bytes \<Rightarrow> bool) \<Rightarrow> (bytes \<Rightarrow> bytes) \<Rightarrow> ('p set \<Rightarrow> 'p list) \<Rightarrow> bytes \<Rightarrow> ('p, 'c) blend_behaviour \<Rightarrow>
     ('p, 'c) blend_behaviour \<times> bool" where
  "blend_publish ops is_drop message_id iter message st =
     (if is_drop message then forward_message iter message None st
      else let (seen, cache) = dc_get ops (duplicate_cache st) (message_id message);
               st1 = st\<lparr>duplicate_cache := cache\<rparr> in
        if seen then (st1, True)
        else let (st2, ok) = forward_message iter message None st1 in
          if ok then (st2\<lparr>duplicate_cache := snd (dc_set ops (duplicate_cache st2) (message_id message))\<rparr>, True)
          else (st2, False))"

definition num_healthy_peers :: "('p, 'c) blend_behaviour \<Rightarrow> nat" where
  "num_healthy_peers st = card {p. negotiated_peers st p = Some HealthyPeer}"

definition create_connection_handler :: "('p, 'c) blend_behaviour \<Rightarrow> 's blend_handler" where
  "create_connection_handler st = handler_new (map_option blend_monitor_new (bb_monitor_settings st))"

definition blend_connection_closed :: "'p \<Rightarrow> nat \<Rightarrow> ('p, 'c) blend_behaviour \<Rightarrow> ('p, 'c) blend_behaviour" where
  "blend_connection_closed p remaining_established st =
     (if remaining_established = 0 then st\<lparr>negotiated_peers := (negotiated_peers st)(p := None)\<rparr> else st)"

definition on_connection_handler_event ::
  "'c duplicate_cache_ops \<Rightarrow> (bytes \<Rightarrow> bool) \<Rightarrow> (bytes \<Rightarrow> bytes) \<Rightarrow> ('p set \<Rightarrow> 'p list) \<Rightarrow> 'p \<Rightarrow> to_behaviour \<Rightarrow>
     ('p, 'c) blend_behaviour \<Rightarrow> ('p, 'c) blend_behaviour" where
  "on_connection_handler_event ops is_drop message_id iter p ev st =
     (case ev of
        ReceivedMessage message \<Rightarrow>
          (if is_drop message then st
           else let (seen, cache) = dc_set ops (duplicate_cache st) (message_id message);
                    st1 = st\<lparr>duplicate_cache := cache\<rparr> in
             if seen then st1
             else let st2 = fst (forward_message iter message (Some p) st1) in
               st2\<lparr>bb_events := bb_events st2 @ [GenerateEvent (BlendMessageEvent message)]\<rparr>)
      | FullyNegotiatedInbound \<Rightarrow> st\<lparr>negotiated_peers := (negotiated_peers st)(p \<mapsto> HealthyPeer)\<rparr>
      | FullyNegotiatedOutbound \<Rightarrow> st\<lparr>negotiated_peers := (negotiated_peers st)(p \<mapsto> HealthyPeer)\<rparr>
      | DialUpgradeError \<Rightarrow> st\<lparr>negotiated_peers := (negotiated_peers st)(p := None)\<rparr>
      | MaliciousPeer \<Rightarrow>
          st\<lparr>negotiated_peers := (negotiated_peers st)(p := None),
             bb_events := bb_events st @ [GenerateEvent (MaliciousPeerEvent p)]\<rparr>
      | UnhealthyPeer \<Rightarrow>
          st\<lparr>negotiated_peers := (negotiated_peers st)(p \<mapsto> UnhealthyNegotiated),
             bb_events := bb_events st @ [GenerateEvent (UnhealthyPeerEvent p)]\<rparr>
      | IOError \<Rightarrow>
          st\<lparr>negotiated_peers := (negotiated_peers st)(p := None),
             bb_events := bb_events st @ [GenerateEvent (PeerIOError p)]\<rparr>)"

definition blend_behaviour_poll ::
  "('p, 'c) blend_behaviour \<Rightarrow> ('p, 'c) blend_behaviour \<times> 'p blend_to_swarm option" where
  "blend_behaviour_poll st =
     (case bb_events st of e # rest \<Rightarrow> (st\<lparr>bb_events := rest\<rparr>, Some e) | [] \<Rightarrow> (st, None))"

section \<open>The peers to dial\<close>

text \<open>The swarm with what its behaviours say of connected and blocked peers; the addresses to dial are returned.\<close>

record ('p, 'a, 'pub, 'c) blend_swarm =
  swarm_behaviour :: "('p, 'c) blend_behaviour"
  swarm_connected :: "'p set"
  swarm_blocked :: "'p set"
  swarm_membership :: "('p, 'a, 'pub) blend_membership"
  peering_degree :: nat

definition dial_random_peers ::
  "(('p, 'a, 'pub) blend_node list \<Rightarrow> nat \<Rightarrow> ('p, 'a, 'pub) blend_node list) \<Rightarrow> nat \<Rightarrow> ('p, 'a, 'pub, 'c) blend_swarm \<Rightarrow>
     'a list" where
  "dial_random_peers pick amount sw =
     map bn_address (filter_and_choose_remote_nodes pick (swarm_membership sw) amount (swarm_connected sw \<union> swarm_blocked sw))"

definition check_and_dial_new_peers ::
  "(('p, 'a, 'pub) blend_node list \<Rightarrow> nat \<Rightarrow> ('p, 'a, 'pub) blend_node list) \<Rightarrow> ('p, 'a, 'pub, 'c) blend_swarm \<Rightarrow> 'a list" where
  "check_and_dial_new_peers pick sw =
     (let num_new_conns_needed = peering_degree sw - num_healthy_peers (swarm_behaviour sw)
      in if 0 < num_new_conns_needed then dial_random_peers pick num_new_conns_needed sw else [])"

text \<open>An event of the swarm: the message handed to the service, if any, and the addresses dialled. \<open>None\<close> stands for the
  closing of a connection.\<close>

definition blend_swarm_event ::
  "(('p, 'a, 'pub) blend_node list \<Rightarrow> nat \<Rightarrow> ('p, 'a, 'pub) blend_node list) \<Rightarrow> 'p blend_event option \<Rightarrow>
     ('p, 'a, 'pub, 'c) blend_swarm \<Rightarrow> ('p, 'a, 'pub, 'c) blend_swarm \<times> bytes option \<times> 'a list" where
  "blend_swarm_event pick ev sw =
     (case ev of
        Some (BlendMessageEvent msg) \<Rightarrow> (sw, Some msg, [])
      | Some (MaliciousPeerEvent p) \<Rightarrow>
          (let sw' = sw\<lparr>swarm_blocked := insert p (swarm_blocked sw)\<rparr> in (sw', None, check_and_dial_new_peers pick sw'))
      | _ \<Rightarrow> (sw, None, check_and_dial_new_peers pick sw))"

section \<open>What a handler sends and reports\<close>

datatype 's handler_op =
    FromBehaviour from_behaviour
  | ConnectionEvent "'s blend_connection_event"
  | PollHandler bool "(unit + 's \<times> bytes) option" "(unit + 's) list"

definition handler_do ::
  "(bytes \<Rightarrow> bool) \<Rightarrow> 's handler_op \<Rightarrow> 's blend_handler \<Rightarrow> 's blend_handler \<times> handler_event option \<times> bytes list" where
  "handler_do is_drop op h =
     (case op of
        FromBehaviour ev \<Rightarrow> (on_behaviour_event ev h, None, [])
      | ConnectionEvent ev \<Rightarrow> (on_connection_event ev h, None, [])
      | PollHandler elapsed recv sends \<Rightarrow> handler_poll is_drop elapsed recv sends h)"

text \<open>A run of operations: the handler, the events the polls return and the messages written.\<close>

fun handler_run ::
  "(bytes \<Rightarrow> bool) \<Rightarrow> 's handler_op list \<Rightarrow> 's blend_handler \<Rightarrow> 's blend_handler \<times> handler_event list \<times> bytes list" where
  "handler_run is_drop [] h = (h, [], [])"
| "handler_run is_drop (op # ops) h =
     (let (h1, ev, w) = handler_do is_drop op h; (h2, evs, ws) = handler_run is_drop ops h1
      in (h2, (case ev of Some e \<Rightarrow> [e] | None \<Rightarrow> []) @ evs, w @ ws))"

fun given :: "'s handler_op list \<Rightarrow> bytes list" where
  "given [] = []"
| "given (FromBehaviour (SendBlendMessage m) # ops) = m # given ops"
| "given (_ # ops) = given ops"

definition backlog :: "'s blend_handler \<Rightarrow> bytes list" where
  "backlog h = (case outbound_substream h of Some (PendingSend s m) \<Rightarrow> [m] | _ \<Rightarrow> []) @ outbound_msgs h"

text \<open>Operations that neither close nor replace the outbound stream.\<close>

fun quiet :: "'s handler_op \<Rightarrow> bool" where
  "quiet (FromBehaviour (SendBlendMessage m)) = True"
| "quiet (PollHandler elapsed recv sends) \<longleftrightarrow> \<not> elapsed \<and> (\<forall>e. recv \<noteq> Some (Inl e)) \<and> list_all (\<lambda>r. \<exists>s. r = Inr s) sends"
| "quiet _ = False"

lemma backlog_closed [simp]: "backlog (close_substreams h) = []" "pending_events (close_substreams h) = []"
  by (simp_all add: backlog_def close_substreams_def)

lemma backlog_new [simp]: "backlog (handler_new monitor) = []"
  by (simp add: backlog_def handler_new_def)

lemma backlog_cong:
  "outbound_substream h' = outbound_substream h \<Longrightarrow> outbound_msgs h' = outbound_msgs h \<Longrightarrow> backlog h' = backlog h"
  by (simp add: backlog_def)

lemma poll_outbound_effect:
  "poll_outbound sends h = (h', ev, written) \<Longrightarrow>
     subseq (written @ backlog h') (backlog h) \<and>
     (list_all (\<lambda>r. \<exists>s. r = Inr s) sends \<longrightarrow> written @ backlog h' = backlog h) \<and>
     (pending_events h = [] \<longrightarrow> pending_events h' = []) \<and>
     ev \<in> {None, Some OutboundSubstreamRequest, Some (NotifyBehaviour IOError)}"
proof (induction sends h arbitrary: h' ev written rule: poll_outbound.induct)
  case (1 sends h)
  note eq = 1(3) [unfolded poll_outbound.simps [of sends h]]
  consider (none) "outbound_substream h = None" | (waiting) "outbound_substream h = Some PendingOpenSubstream"
    | (dropped) "outbound_substream h = Some OutboundDropped"
    | (idle) s where "outbound_substream h = Some (IdleStream s)"
    | (sending) s m where "outbound_substream h = Some (PendingSend s m)"
    by (cases "outbound_substream h"; cases "the (outbound_substream h)") auto
  then show ?case
  proof cases
    case (idle s)
    show ?thesis
    proof (cases "outbound_msgs h")
      case Nil
      then show ?thesis using idle eq by auto
    next
      case (Cons m ms)
      let ?h = "h\<lparr>outbound_substream := Some (PendingSend s m), outbound_msgs := ms\<rparr>"
      have "poll_outbound sends ?h = (h', ev, written)" using idle Cons eq by simp
      from 1(1) [OF idle refl Cons this] show ?thesis using idle Cons by (simp add: backlog_def)
    qed
  next
    case (sending s m)
    show ?thesis
    proof (cases sends)
      case Nil
      then show ?thesis using sending eq by auto
    next
      case (Cons r rs)
      show ?thesis
      proof (cases r)
        case (Inl e)
        then show ?thesis using sending Cons eq by (auto simp: backlog_def [of h])
      next
        case (Inr s')
        let ?h = "h\<lparr>outbound_substream := Some (IdleStream s')\<rparr>"
        obtain w where w: "poll_outbound rs ?h = (h', ev, w)" "written = m # w"
          using sending Cons Inr eq by (auto split: prod.splits)
        have b: "backlog h = m # backlog ?h" using sending by (simp add: backlog_def)
        from 1(2) [OF sending refl Cons Inr w(1)] show ?thesis unfolding b w(2) using Cons Inr by simp
      qed
    qed
  qed (use eq in \<open>auto simp: backlog_def\<close>)
qed

lemma poll_monitor_effect:
  "backlog (poll_monitor elapsed h) = backlog h \<or> backlog (poll_monitor elapsed h) = []"
  "\<not> elapsed \<Longrightarrow> backlog (poll_monitor elapsed h) = backlog h"
  "set (pending_events (poll_monitor elapsed h)) \<subseteq> set (pending_events h) \<union> {MaliciousPeer, UnhealthyPeer}"
  by (auto simp: poll_monitor_def blend_monitor_poll_def backlog_def close_substreams_def Let_def split: option.splits monitor_output.splits if_splits)

lemma poll_inbound_effect:
  assumes "poll_inbound is_drop recv h = (h', ev)"
  shows "backlog h' = backlog h \<or> backlog h' = []"
    and "(\<And>e. recv \<noteq> Some (Inl e)) \<Longrightarrow> backlog h' = backlog h"
    and "pending_events h = [] \<Longrightarrow> pending_events h' = []"
    and "ev \<noteq> Some (NotifyBehaviour DialUpgradeError)"
  using assms
  by (auto simp: poll_inbound_def intro: backlog_cong split: option.splits inbound_substream.splits sum.splits prod.splits)

lemma handler_poll_effect:
  assumes "handler_poll is_drop elapsed recv sends h = (h', ev, written)"
  shows "subseq (written @ backlog h') (backlog h)"
    and "quiet (PollHandler elapsed recv sends) \<Longrightarrow> written @ backlog h' = backlog h"
    and "DialUpgradeError \<notin> set (pending_events h) \<Longrightarrow>
      DialUpgradeError \<notin> set (pending_events h') \<and> ev \<noteq> Some (NotifyBehaviour DialUpgradeError)"
proof -
  let ?h1 = "poll_monitor elapsed h"
  note mon = poll_monitor_effect [of elapsed h]
  have sub1: "subseq (backlog ?h1) (backlog h)" using mon(1) by auto
  consider (event) e es where "pending_events ?h1 = e # es" "h' = ?h1\<lparr>pending_events := es\<rparr>"
      "ev = Some (NotifyBehaviour e)" "written = []"
    | (inbound) x where "pending_events ?h1 = []" "poll_inbound is_drop recv ?h1 = (h', Some x)" "ev = Some x" "written = []"
    | (outbound) h2 where "pending_events ?h1 = []" "poll_inbound is_drop recv ?h1 = (h2, None)" "poll_outbound sends h2 = (h', ev, written)"
    using assms by (auto simp: handler_poll_def Let_def split: list.splits prod.splits option.splits)
  then have "subseq (written @ backlog h') (backlog h) \<and>
    (quiet (PollHandler elapsed recv sends) \<longrightarrow> written @ backlog h' = backlog h) \<and>
    (DialUpgradeError \<notin> set (pending_events h) \<longrightarrow>
      DialUpgradeError \<notin> set (pending_events h') \<and> ev \<noteq> Some (NotifyBehaviour DialUpgradeError))"
  proof cases
    case event
    have "backlog h' = backlog ?h1" using event(2) by (simp add: backlog_def)
    then show ?thesis using event mon sub1 by auto
  next
    case inbound
    note inb = poll_inbound_effect [OF inbound(2)]
    have "subseq (backlog h') (backlog h)" using inb(1) sub1 by auto
    then show ?thesis using inb inbound mon(2) by auto
  next
    case outbound
    note inb = poll_inbound_effect [OF outbound(2)] and out = poll_outbound_effect [OF outbound(3)]
    have "subseq (backlog h2) (backlog h)" using inb(1) sub1 by auto
    then have "subseq (written @ backlog h') (backlog h)" using out subseq_order.trans by blast
    then show ?thesis using inb out mon(2) outbound by auto
  qed
  then show "subseq (written @ backlog h') (backlog h)"
    "quiet (PollHandler elapsed recv sends) \<Longrightarrow> written @ backlog h' = backlog h"
    "DialUpgradeError \<notin> set (pending_events h) \<Longrightarrow>
      DialUpgradeError \<notin> set (pending_events h') \<and> ev \<noteq> Some (NotifyBehaviour DialUpgradeError)" by blast+
qed

lemma handler_do_effect:
  assumes "handler_do is_drop op h = (h', ev, written)"
  shows "subseq (written @ backlog h') (backlog h @ given [op])"
    and "quiet op \<Longrightarrow> written @ backlog h' = backlog h @ given [op]"
    and "DialUpgradeError \<notin> set (pending_events h) \<Longrightarrow>
      DialUpgradeError \<notin> set (pending_events h') \<and> ev \<noteq> Some (NotifyBehaviour DialUpgradeError)"
proof -
  have "subseq (written @ backlog h') (backlog h @ given [op]) \<and> (quiet op \<longrightarrow> written @ backlog h' = backlog h @ given [op]) \<and>
    (DialUpgradeError \<notin> set (pending_events h) \<longrightarrow>
      DialUpgradeError \<notin> set (pending_events h') \<and> ev \<noteq> Some (NotifyBehaviour DialUpgradeError))"
  proof (cases op)
    case (FromBehaviour e)
    then show ?thesis
      using assms by (cases e) (auto simp: handler_do_def on_behaviour_event_def backlog_def [of h'] backlog_def [of h] close_substreams_def)
  next
    case (ConnectionEvent e)
    then show ?thesis
      using assms by (cases e) (auto simp: handler_do_def on_connection_event_def backlog_def close_substreams_def
        split: option.splits outbound_substream.splits)
  next
    case (PollHandler elapsed recv sends)
    then have "handler_poll is_drop elapsed recv sends h = (h', ev, written)" using assms by (simp add: handler_do_def)
    from handler_poll_effect [OF this] PollHandler show ?thesis by simp
  qed
  then show "subseq (written @ backlog h') (backlog h @ given [op])"
    "quiet op \<Longrightarrow> written @ backlog h' = backlog h @ given [op]"
    "DialUpgradeError \<notin> set (pending_events h) \<Longrightarrow>
      DialUpgradeError \<notin> set (pending_events h') \<and> ev \<noteq> Some (NotifyBehaviour DialUpgradeError)" by blast+
qed

lemma given_Cons: "given (op # ops) = given [op] @ given ops"
  by (cases "op # ops" rule: given.cases) auto

lemma handler_run_sends:
  "handler_run is_drop ops h = (h', evs, written) \<Longrightarrow>
     subseq (written @ backlog h') (backlog h @ given ops) \<and>
     (list_all quiet ops \<longrightarrow> written @ backlog h' = backlog h @ given ops)"
proof (induction ops arbitrary: h evs written)
  case (Cons op ops)
  obtain h1 ev w evs2 ws where step: "handler_do is_drop op h = (h1, ev, w)"
      and rest: "handler_run is_drop ops h1 = (h', evs2, ws)" and written: "written = w @ ws"
    using Cons.prems by (auto split: prod.splits)
  note do = handler_do_effect [OF step] and IH = Cons.IH [OF rest]
  have "subseq (w @ ws @ backlog h') (w @ backlog h1 @ given ops)" using IH by (simp add: list_emb_append_mono)
  moreover have "subseq ((w @ backlog h1) @ given ops) ((backlog h @ given [op]) @ given ops)"
    using do(1) by (rule list_emb_append_mono) simp
  ultimately have "subseq (w @ ws @ backlog h') (backlog h @ given (op # ops))"
    unfolding given_Cons [of op ops] append_assoc using subseq_order.trans by blast
  moreover have "w @ ws @ backlog h' = backlog h @ given (op # ops)" if "list_all quiet (op # ops)"
    using that IH do(2) unfolding given_Cons [of op ops] by simp
  ultimately show ?case using written by simp
qed simp

text \<open>C36. Whatever happens to a connection, the messages a handler writes are some of those it was given, in the order in
  which it was given them, none twice. While the outbound stream is neither closed nor replaced nothing is lost:
  what was written, is being written and waits is exactly what was given.\<close>

theorem handler_sends_in_order:
  assumes "handler_run is_drop ops (handler_new monitor) = (h, evs, written)"
    and "handler_run is_drop (ConnectionEvent (NegotiatedOutbound stream) # calm) (handler_new monitor) = (h', evs', written')"
    and "list_all quiet calm"
  shows "subseq written (given ops) \<and> written' @ backlog h' = given calm"
proof -
  have "subseq (written @ backlog h) (given ops)" using handler_run_sends [OF assms(1)] by simp
  then have "subseq written (given ops)" by (rule subseq_order.trans [rotated]) (simp add: prefix_imp_subseq)
  moreover have "written' @ backlog h' = given calm"
  proof -
    let ?h = "on_connection_event (NegotiatedOutbound stream) (handler_new monitor)"
    obtain evs2 where "handler_run is_drop calm ?h = (h', evs2, written')"
      using assms(2) by (auto simp: handler_do_def split: prod.splits)
    moreover have "backlog ?h = []" by (simp add: backlog_def on_connection_event_def handler_new_def)
    ultimately show ?thesis using handler_run_sends assms(3) by fastforce
  qed
  ultimately show ?thesis ..
qed

theorem handler_sends_in_order_witness:
  "\<exists>h evs written. handler_run (\<lambda>m. False) [ConnectionEvent (NegotiatedOutbound (1 :: nat)), FromBehaviour (SendBlendMessage [1]),
     FromBehaviour (SendBlendMessage [2]), PollHandler False None [], PollHandler False None [Inr 2]] (handler_new None) =
     (h, evs, written) \<and> written @ backlog h = [[1], [2]]"
proof -
  let ?calm = "[FromBehaviour (SendBlendMessage [1]), FromBehaviour (SendBlendMessage [2]), PollHandler False None [],
    PollHandler False None [Inr (2 :: nat)]]"
  obtain h evs w where run: "handler_run (\<lambda>m. False) (ConnectionEvent (NegotiatedOutbound 1) # ?calm) (handler_new None) = (h, evs, w)"
    using prod_cases3 by blast
  from handler_sends_in_order [OF run run] show ?thesis using run by auto
qed

text \<open>The behaviour is never told that the upgrade of an outbound stream failed: the handler queues the event and then
  closes its streams, which empties the queue, so in no run does a poll return the event. The behaviour would
  have removed the peer.\<close>

theorem dial_upgrade_error_lost:
  "NotifyBehaviour DialUpgradeError \<notin> set (fst (snd (handler_run is_drop ops (handler_new monitor)))) \<and>
   pending_events (on_connection_event UpgradeFailed h) = [] \<and>
   negotiated_peers (on_connection_handler_event cache is_drop message_id iter p DialUpgradeError st) p = None"
proof -
  have "NotifyBehaviour DialUpgradeError \<notin> set evs"
    if "handler_run is_drop ops h = (h', evs, w)" "DialUpgradeError \<notin> set (pending_events h)" for h h' evs w
    using that
  proof (induction ops arbitrary: h evs w)
    case (Cons op ops)
    obtain h1 ev w1 evs2 ws where step: "handler_do is_drop op h = (h1, ev, w1)"
        and rest: "handler_run is_drop ops h1 = (h', evs2, ws)" and evs: "evs = (case ev of Some e \<Rightarrow> [e] | None \<Rightarrow> []) @ evs2"
      using Cons.prems(1) by (auto split: prod.splits)
    show ?case using handler_do_effect(3) [OF step Cons.prems(2)] Cons.IH [OF rest] evs by (auto split: option.splits)
  qed simp
  moreover have "DialUpgradeError \<notin> set (pending_events (handler_new monitor))" by (simp add: handler_new_def)
  ultimately have "NotifyBehaviour DialUpgradeError \<notin> set (fst (snd (handler_run is_drop ops (handler_new monitor))))"
    by (metis prod.collapse)
  then show ?thesis by (simp add: on_connection_event_def on_connection_handler_event_def)
qed

lemma recv_sent_msg:
  assumes "length msg \<le> 65535"
  shows "\<exists>frame. send_msg (\<lambda>w bs. Inr (w @ bs)) msg w = Inr (w @ frame) \<and> recv_msg (frame @ rest) = Inr (msg, rest)"
proof -
  let ?len = "of_nat (length msg) :: u16"
  have "unat ?len = length msg" using assms by (simp add: unat_of_nat)
  moreover have "from_be_bytes (be_bytes 2 ?len) = ?len" by (rule from_be_bytes_be_bytes)
  ultimately have "recv_msg (be_bytes 2 ?len @ msg @ rest) = Inr (msg, rest)"
    by (simp add: recv_msg_def read_exact_def)
  then show ?thesis using assms by (intro exI [of _ "be_bytes 2 ?len @ msg"]) (simp add: send_msg_def)
qed

section \<open>What the behaviour forwards\<close>

datatype 'p behaviour_op =
    PublishMessage bytes
  | HandlerEvent 'p to_behaviour
  | PeerClosed 'p nat
  | PollBehaviour

definition behaviour_do ::
  "'c duplicate_cache_ops \<Rightarrow> (bytes \<Rightarrow> bool) \<Rightarrow> (bytes \<Rightarrow> bytes) \<Rightarrow> ('p set \<Rightarrow> 'p list) \<Rightarrow> 'p behaviour_op \<Rightarrow>
     ('p, 'c) blend_behaviour \<Rightarrow> ('p, 'c) blend_behaviour \<times> 'p blend_to_swarm option" where
  "behaviour_do ops is_drop message_id iter op st =
     (case op of
        PublishMessage m \<Rightarrow> (fst (blend_publish ops is_drop message_id iter m st), None)
      | HandlerEvent p ev \<Rightarrow> (on_connection_handler_event ops is_drop message_id iter p ev st, None)
      | PeerClosed p n \<Rightarrow> (blend_connection_closed p n st, None)
      | PollBehaviour \<Rightarrow> blend_behaviour_poll st)"

text \<open>A run: the behaviour and what it handed to the swarm.\<close>

fun behaviour_run ::
  "'c duplicate_cache_ops \<Rightarrow> (bytes \<Rightarrow> bool) \<Rightarrow> (bytes \<Rightarrow> bytes) \<Rightarrow> ('p set \<Rightarrow> 'p list) \<Rightarrow> 'p behaviour_op list \<Rightarrow>
     ('p, 'c) blend_behaviour \<times> 'p blend_to_swarm list \<Rightarrow> ('p, 'c) blend_behaviour \<times> 'p blend_to_swarm list" where
  "behaviour_run ops is_drop message_id iter [] (st, out) = (st, out)"
| "behaviour_run ops is_drop message_id iter (op # rest) (st, out) =
     (let (st', e) = behaviour_do ops is_drop message_id iter op st
      in behaviour_run ops is_drop message_id iter rest (st', out @ (case e of Some x \<Rightarrow> [x] | None \<Rightarrow> [])))"

text \<open>What is relied on of the cache while entries do not expire: it holds what was entered.\<close>

definition cache_keeps :: "'c duplicate_cache_ops \<Rightarrow> ('c \<Rightarrow> bytes set) \<Rightarrow> bool" where
  "cache_keeps ops contents \<longleftrightarrow> (\<forall>c k.
     fst (dc_get ops c k) = (k \<in> contents c) \<and> contents (snd (dc_get ops c k)) = contents c \<and>
     fst (dc_set ops c k) = (k \<in> contents c) \<and> contents (snd (dc_set ops c k)) = insert k (contents c))"

text \<open>How often a message was delivered and handed to a peer.\<close>

definition sent_once ::
  "('c \<Rightarrow> bytes set) \<Rightarrow> (bytes \<Rightarrow> bytes) \<Rightarrow> bytes \<Rightarrow> ('p, 'c) blend_behaviour \<times> 'p blend_to_swarm list \<Rightarrow> bool" where
  "sent_once contents message_id m r \<longleftrightarrow>
     (let log = snd r @ bb_events (fst r); bound = (if message_id m \<in> contents (duplicate_cache (fst r)) then 1 else 0) in
      finite (dom (negotiated_peers (fst r))) \<and>
      count_list log (GenerateEvent (BlendMessageEvent m)) \<le> bound \<and> (\<forall>p. count_list log (NotifyHandler p m) \<le> bound))"

lemma count_forwarded:
  "count_list (map (\<lambda>p. NotifyHandler p x) ps) (NotifyHandler q m) = (if x = m then count_list ps q else 0)"
  "count_list (map (\<lambda>p. NotifyHandler p x) ps) (GenerateEvent e) = 0"
  by (induction ps) auto

lemma count_distinct: "distinct xs \<Longrightarrow> count_list xs x \<le> 1"
  by (induction xs) (auto simp: count_list_0_iff)

lemma count_forward:
  assumes "forward_message iter x excluded st = (st', ok)" and "iterates iter" and "finite (dom (negotiated_peers st))"
  shows "bb_events st' = bb_events st @ map (\<lambda>p. NotifyHandler p x) (filter (\<lambda>p. excluded \<noteq> Some p) (iter (dom (negotiated_peers st))))"
    and "count_list (filter (\<lambda>p. excluded \<noteq> Some p) (iter (dom (negotiated_peers st)))) q \<le> 1"
    and "negotiated_peers st' = negotiated_peers st" and "duplicate_cache st' = duplicate_cache st"
    and "\<not> ok \<Longrightarrow> filter (\<lambda>p. excluded \<noteq> Some p) (iter (dom (negotiated_peers st))) = []"
  using assms(1) count_distinct [OF distinct_filter [OF iterates_distinct [OF assms(2,3)]]]
  by (auto simp: forward_message_def Let_def)

lemma sent_once_extend:
  assumes "sent_once contents message_id m (st, out)" and "finite (dom (negotiated_peers st'))"
    and "bb_events st' = bb_events st @ new" and "contents (duplicate_cache st) \<subseteq> contents (duplicate_cache st')"
    and "(count_list new (GenerateEvent (BlendMessageEvent m)) = 0 \<and> (\<forall>p. count_list new (NotifyHandler p m) = 0)) \<or>
      (message_id m \<notin> contents (duplicate_cache st) \<and> message_id m \<in> contents (duplicate_cache st') \<and>
       count_list new (GenerateEvent (BlendMessageEvent m)) \<le> 1 \<and> (\<forall>p. count_list new (NotifyHandler p m) \<le> 1))"
  shows "sent_once contents message_id m (st', out)"
  using assms by (auto simp: sent_once_def Let_def split: if_splits)

lemma publish_sent_once:
  assumes "cache_keeps ops contents" and "iterates iter" and "\<not> is_drop m" and "sent_once contents message_id m (st, out)"
  shows "sent_once contents message_id m (fst (blend_publish ops is_drop message_id iter x st), out)"
proof -
  have fin: "finite (dom (negotiated_peers st))" using assms(4) by (simp add: sent_once_def Let_def)
  define st1 where "st1 = (if is_drop x then st else st\<lparr>duplicate_cache := snd (dc_get ops (duplicate_cache st) (message_id x))\<rparr>)"
  obtain st2 ok where f: "forward_message iter x None st1 = (st2, ok)" by fastforce
  have st1: "negotiated_peers st1 = negotiated_peers st" "bb_events st1 = bb_events st"
      "contents (duplicate_cache st1) = contents (duplicate_cache st)"
    using assms(1) by (auto simp: st1_def cache_keeps_def)
  note fwd = count_forward [OF f assms(2), unfolded st1(1,2), OF fin]
  have seen: "fst (dc_get ops (duplicate_cache st) (message_id x)) \<longleftrightarrow> message_id x \<in> contents (duplicate_cache st)"
    using assms(1) by (simp add: cache_keeps_def)
  have eq: "fst (blend_publish ops is_drop message_id iter x st) =
      (if is_drop x then st2 else if message_id x \<in> contents (duplicate_cache st) then st1
       else if ok then st2\<lparr>duplicate_cache := snd (dc_set ops (duplicate_cache st2) (message_id x))\<rparr> else st2)"
    using f seen unfolding st1_def
    by (cases "is_drop x"; cases "dc_get ops (duplicate_cache st) (message_id x)") (simp_all add: blend_publish_def)
  consider (quiet) "fst (blend_publish ops is_drop message_id iter x st) = st1"
    | (dropped) "is_drop x" "fst (blend_publish ops is_drop message_id iter x st) = st2"
    | (failed) "\<not> ok" "fst (blend_publish ops is_drop message_id iter x st) = st2"
    | (sent) "message_id x \<notin> contents (duplicate_cache st)"
        "fst (blend_publish ops is_drop message_id iter x st) = st2\<lparr>duplicate_cache := snd (dc_set ops (duplicate_cache st2) (message_id x))\<rparr>"
    using eq by (auto split: if_splits)
  then show ?thesis
  proof cases
    case quiet
    show ?thesis unfolding quiet by (rule sent_once_extend [OF assms(4), of _ "[]"]) (simp_all add: st1 fin)
  next
    case dropped
    then have "x \<noteq> m" using assms(3) by auto
    then show ?thesis unfolding dropped(2)
      by (intro sent_once_extend [OF assms(4) _ fwd(1)]) (simp_all add: fwd(3,4) st1 fin count_forwarded)
  next
    case failed
    show ?thesis unfolding failed(2)
      by (rule sent_once_extend [OF assms(4) _ fwd(1) [unfolded fwd(5) [OF failed(1)]]]) (simp_all add: fwd(3,4) st1 fin)
  next
    case sent
    let ?st = "st2\<lparr>duplicate_cache := snd (dc_set ops (duplicate_cache st2) (message_id x))\<rparr>"
    have "contents (duplicate_cache ?st) = insert (message_id x) (contents (duplicate_cache st))"
      using assms(1) by (simp add: cache_keeps_def fwd(4) st1)
    moreover have "bb_events ?st = bb_events st2" by simp
    ultimately show ?thesis unfolding sent(2) using fwd(2) sent(1)
      by (intro sent_once_extend [OF assms(4), of ?st "map (\<lambda>p. NotifyHandler p x) (filter (\<lambda>p. None \<noteq> Some p) (iter (dom (negotiated_peers st))))"])
        (auto simp: fwd(1,3) fin count_forwarded)
  qed
qed

lemma handler_event_sent_once:
  assumes "cache_keeps ops contents" and "iterates iter" and "\<not> is_drop m" and "sent_once contents message_id m (st, out)"
  shows "sent_once contents message_id m (on_connection_handler_event ops is_drop message_id iter p ev st, out)"
proof -
  let ?st = "on_connection_handler_event ops is_drop message_id iter p ev st"
  have fin: "finite (dom (negotiated_peers st))" using assms(4) by (simp add: sent_once_def Let_def)
  show ?thesis
  proof (cases ev)
    case (ReceivedMessage x)
    show ?thesis
    proof (cases "is_drop x")
      case True
      then show ?thesis using ReceivedMessage assms(4) by (simp add: on_connection_handler_event_def)
    next
      case False
      define st1 where "st1 = st\<lparr>duplicate_cache := snd (dc_set ops (duplicate_cache st) (message_id x))\<rparr>"
      obtain st2 ok where f: "forward_message iter x (Some p) st1 = (st2, ok)" by fastforce
      have st1: "negotiated_peers st1 = negotiated_peers st" "bb_events st1 = bb_events st"
          "contents (duplicate_cache st1) = insert (message_id x) (contents (duplicate_cache st))"
        using assms(1) by (auto simp: st1_def cache_keeps_def)
      note fwd = count_forward [OF f assms(2), unfolded st1(1,2), OF fin]
      have seen: "fst (dc_set ops (duplicate_cache st) (message_id x)) \<longleftrightarrow> message_id x \<in> contents (duplicate_cache st)"
        using assms(1) by (simp add: cache_keeps_def)
      have eq: "?st = (if message_id x \<in> contents (duplicate_cache st) then st1
          else st2\<lparr>bb_events := bb_events st2 @ [GenerateEvent (BlendMessageEvent x)]\<rparr>)"
        using f seen False ReceivedMessage unfolding st1_def
        by (cases "dc_set ops (duplicate_cache st) (message_id x)") (simp add: on_connection_handler_event_def)
      show ?thesis
      proof (cases "message_id x \<in> contents (duplicate_cache st)")
        case True
        show ?thesis unfolding eq using True by (intro sent_once_extend [OF assms(4), of _ "[]"]) (auto simp: st1 fin)
      next
        case False
        show ?thesis unfolding eq using False fwd(2)
          by (intro sent_once_extend [OF assms(4), of _ "map (\<lambda>q. NotifyHandler q x)
              (filter (\<lambda>q. Some p \<noteq> Some q) (iter (dom (negotiated_peers st)))) @ [GenerateEvent (BlendMessageEvent x)]"])
            (auto simp: fwd(1,3,4) st1 fin count_forwarded)
      qed
    qed
  qed (use assms(4) in \<open>auto simp: on_connection_handler_event_def sent_once_def Let_def\<close>)
qed

lemma behaviour_do_sent_once:
  assumes "cache_keeps ops contents" and "iterates iter" and "\<not> is_drop m" and "sent_once contents message_id m (st, out)"
    and "behaviour_do ops is_drop message_id iter op st = (st', e)"
  shows "sent_once contents message_id m (st', out @ (case e of Some x \<Rightarrow> [x] | None \<Rightarrow> []))"
proof (cases op)
  case (PublishMessage x)
  then show ?thesis using assms(5) publish_sent_once [where ops = ops and is_drop = is_drop, OF assms(1-4), of x] by (simp add: behaviour_do_def)
next
  case (HandlerEvent p ev)
  then show ?thesis using assms(5) handler_event_sent_once [where ops = ops and is_drop = is_drop, OF assms(1-4), of p ev] by (auto simp: behaviour_do_def)
next
  case (PeerClosed p n)
  then show ?thesis
    using assms(4,5) by (cases "n = 0") (auto simp: behaviour_do_def blend_connection_closed_def sent_once_def Let_def)
next
  case PollBehaviour
  then have "negotiated_peers st' = negotiated_peers st" "duplicate_cache st' = duplicate_cache st"
      "(case e of Some x \<Rightarrow> [x] | None \<Rightarrow> []) @ bb_events st' = bb_events st"
    using assms(5) by (auto simp: behaviour_do_def blend_behaviour_poll_def split: list.splits)
  then show ?thesis using assms(4) by (simp add: sent_once_def Let_def del: count_list_append)
qed

text \<open>A drop message is sent once to each peer for every time it is published, and never handed to the service.\<close>

definition drops_published :: "bytes \<Rightarrow> ('p, 'c) blend_behaviour \<times> 'p blend_to_swarm list \<Rightarrow> nat \<Rightarrow> bool" where
  "drops_published m r n \<longleftrightarrow> (case r of (st, out) \<Rightarrow>
     finite (dom (negotiated_peers st)) \<and>
     count_list (out @ bb_events st) (GenerateEvent (BlendMessageEvent m)) = 0 \<and>
     (\<forall>p. count_list (out @ bb_events st) (NotifyHandler p m) \<le> n))"

lemma drops_extend:
  assumes "drops_published m (st, out) n" and "finite (dom (negotiated_peers st'))" and "bb_events st' = bb_events st @ es"
    and "count_list es (GenerateEvent (BlendMessageEvent m)) = 0" and "\<And>p. count_list es (NotifyHandler p m) \<le> k"
  shows "drops_published m (st', out) (n + k)"
proof -
  have "count_list (out @ bb_events st') (NotifyHandler p m) \<le> n + k" for p
  proof -
    have "count_list (out @ bb_events st) (NotifyHandler p m) \<le> n" using assms(1) by (simp add: drops_published_def)
    then show ?thesis using assms(5) [of p] by (simp add: assms(3))
  qed
  then show ?thesis using assms(1-4) by (simp add: drops_published_def)
qed

lemma publish_drops:
  assumes "iterates iter" and "drops_published m (st, out) n"
  shows "drops_published m (fst (blend_publish ops is_drop message_id iter x st), out) (if x = m then Suc n else n)"
proof -
  have fin: "finite (dom (negotiated_peers st))" using assms(2) by (simp add: drops_published_def)
  obtain ps where ps: "bb_events (fst (blend_publish ops is_drop message_id iter x st)) =
      bb_events st @ map (\<lambda>p. NotifyHandler p x) ps" "distinct ps"
    "negotiated_peers (fst (blend_publish ops is_drop message_id iter x st)) = negotiated_peers st"
  proof -
    have "distinct (iter (dom (negotiated_peers st)))" using iterates_distinct [OF assms(1) fin] .
    moreover have "bb_events (fst (blend_publish ops is_drop message_id iter x st)) \<in>
        {bb_events st, bb_events st @ map (\<lambda>p. NotifyHandler p x) (iter (dom (negotiated_peers st)))} \<and>
      negotiated_peers (fst (blend_publish ops is_drop message_id iter x st)) = negotiated_peers st"
      by (auto simp: blend_publish_def forward_message_def Let_def split: prod.splits)
    ultimately show thesis using that [of "[]"] that by auto
  qed
  have "count_list (map (\<lambda>p. NotifyHandler p x) ps) (NotifyHandler q m) \<le> (if x = m then 1 else 0)" for q
    using count_distinct [OF ps(2)] by (simp add: count_forwarded)
  from drops_extend [OF assms(2) _ ps(1) _ this] show ?thesis using fin ps(3) by (auto simp: count_forwarded)
qed

lemma handler_event_drops:
  assumes "is_drop m" and "drops_published m (st, out) n"
  shows "drops_published m (on_connection_handler_event ops is_drop message_id iter p ev st, out) n"
proof -
  have fin: "finite (dom (negotiated_peers st))" using assms(2) by (simp add: drops_published_def)
  let ?st = "on_connection_handler_event ops is_drop message_id iter p ev st"
  have "\<exists>es. bb_events ?st = bb_events st @ es \<and> count_list es (GenerateEvent (BlendMessageEvent m)) = 0 \<and>
    (\<forall>q. count_list es (NotifyHandler q m) = 0)"
  proof (cases ev)
    case (ReceivedMessage x)
    show ?thesis
    proof (cases "is_drop x \<or> fst (dc_set ops (duplicate_cache st) (message_id x))")
      case True
      then show ?thesis using ReceivedMessage by (auto simp: on_connection_handler_event_def Let_def split: prod.splits)
    next
      case False
      then have "x \<noteq> m" using assms(1) by auto
      then show ?thesis
        using False ReceivedMessage
        by (auto simp: on_connection_handler_event_def forward_message_def Let_def count_forwarded split: prod.splits)
    qed
  qed (simp_all add: on_connection_handler_event_def)
  then obtain es where es: "bb_events ?st = bb_events st @ es" "count_list es (GenerateEvent (BlendMessageEvent m)) = 0"
    "\<And>q. count_list es (NotifyHandler q m) \<le> 0" by auto
  have "finite (dom (negotiated_peers ?st))"
    using fin by (cases ev) (auto simp: on_connection_handler_event_def forward_message_def Let_def split: prod.splits)
  from drops_extend [OF assms(2) this es] show ?thesis by simp
qed

lemma behaviour_do_drops:
  assumes "iterates iter" and "is_drop m" and "drops_published m (st, out) n"
    and "behaviour_do ops is_drop message_id iter op st = (st', e)"
  shows "drops_published m (st', out @ (case e of Some x \<Rightarrow> [x] | None \<Rightarrow> []))
    (if op = PublishMessage m then Suc n else n)"
proof (cases op)
  case (PublishMessage x)
  then show ?thesis
    using assms(4) publish_drops [OF assms(1,3), of ops is_drop message_id x] by (auto simp: behaviour_do_def)
next
  case (HandlerEvent p ev)
  then show ?thesis
    using assms(4) handler_event_drops [where is_drop = is_drop, OF assms(2,3), of ops message_id iter p ev] by (auto simp: behaviour_do_def)
next
  case (PeerClosed p k)
  then show ?thesis
    using assms(3,4) by (cases "k = 0") (auto simp: behaviour_do_def blend_connection_closed_def drops_published_def)
next
  case PollBehaviour
  then have "out @ (case e of Some x \<Rightarrow> [x] | None \<Rightarrow> []) @ bb_events st' = out @ bb_events st"
    "negotiated_peers st' = negotiated_peers st"
    using assms(4) by (auto simp: behaviour_do_def blend_behaviour_poll_def split: list.splits)
  then show ?thesis using assms(3) PollBehaviour by (simp add: drops_published_def del: count_list_append)
qed

text \<open>C37. While the cache of seen messages keeps its entries, in every run of publishing, receiving and changes of the
  peers: a message that is not a drop message is handed to the service at most once and to each peer at most once; a
  drop message, for which the cache is bypassed, is never handed to the service, and to each peer at most as often as it
  was published.\<close>

theorem blend_forwards_once:
  assumes "cache_keeps ops contents" and "contents c = {}" and "iterates iter"
    and "behaviour_run ops is_drop message_id iter run (blend_behaviour_new c settings, []) = (st, out)"
  shows "let n = (if is_drop m then count_list run (PublishMessage m) else 1) in
    count_list (out @ bb_events st) (GenerateEvent (BlendMessageEvent m)) \<le> (if is_drop m then 0 else 1) \<and>
    (\<forall>p. count_list (out @ bb_events st) (NotifyHandler p m) \<le> n)"
proof (cases "is_drop m")
  case False
  have keeps: "sent_once contents message_id m (behaviour_run ops is_drop message_id iter run r)"
    if "sent_once contents message_id m r" for r
    using that
  proof (induction run arbitrary: r)
    case Nil
    then show ?case by (cases r) simp
  next
    case (Cons op run)
    obtain st out st' e where r: "r = (st, out)" "behaviour_do ops is_drop message_id iter op st = (st', e)"
      by (cases r; cases "behaviour_do ops is_drop message_id iter op (fst r)") auto
    from Cons.IH [OF behaviour_do_sent_once [OF assms(1,3) False Cons.prems [unfolded r(1)] r(2)]] r show ?case by simp
  qed
  have "sent_once contents message_id m (blend_behaviour_new c settings, [])"
    using assms(2) by (simp add: sent_once_def blend_behaviour_new_def)
  from keeps [OF this] False show ?thesis
    unfolding assms(4) by (auto simp: sent_once_def Let_def split: if_splits intro: le_trans)
next
  case True
  have "drops_published m (behaviour_run ops is_drop message_id iter run r) (n + count_list run (PublishMessage m))"
    if "drops_published m r n" for r n
    using that
  proof (induction run arbitrary: r n)
    case Nil
    then show ?case by (cases r) simp
  next
    case (Cons op run)
    obtain st out st' e where r: "r = (st, out)" "behaviour_do ops is_drop message_id iter op st = (st', e)"
      by (cases r; cases "behaviour_do ops is_drop message_id iter op (fst r)") auto
    from Cons.IH [OF behaviour_do_drops [OF assms(3) True Cons.prems [unfolded r(1)] r(2)]] r show ?case
      by (auto split: if_splits)
  qed
  from this [of "(blend_behaviour_new c settings, [])" 0] True show ?thesis
    unfolding assms(4) by (simp add: drops_published_def blend_behaviour_new_def Let_def)
qed

definition sample_duplicates :: "bytes set duplicate_cache_ops" where
  "sample_duplicates = \<lparr>dc_get = (\<lambda>c k. (k \<in> c, c)), dc_set = (\<lambda>c k. (k \<in> c, insert k c))\<rparr>"

theorem blend_forwards_once_witness:
  "\<exists>st out. behaviour_run sample_duplicates (\<lambda>m. m = []) (\<lambda>m. m) sorted_list_of_set
     [HandlerEvent (1 :: nat) FullyNegotiatedInbound, HandlerEvent 2 FullyNegotiatedOutbound,
      HandlerEvent 1 (ReceivedMessage [7]), HandlerEvent 2 (ReceivedMessage [7]), PublishMessage [7], PollBehaviour,
      PublishMessage [], PublishMessage []]
     (blend_behaviour_new {} None, []) = (st, out) \<and>
     count_list (out @ bb_events st) (GenerateEvent (BlendMessageEvent [7])) \<le> 1 \<and> out = [NotifyHandler 2 [7]] \<and>
     count_list (out @ bb_events st) (NotifyHandler 1 []) \<le> 2"
proof -
  let ?run = "[HandlerEvent (1 :: nat) FullyNegotiatedInbound, HandlerEvent 2 FullyNegotiatedOutbound,
      HandlerEvent 1 (ReceivedMessage [7]), HandlerEvent 2 (ReceivedMessage [7]), PublishMessage [7], PollBehaviour,
      PublishMessage [], PublishMessage []]"
  obtain st out where run: "behaviour_run sample_duplicates (\<lambda>m. m = []) (\<lambda>m. m) sorted_list_of_set ?run
      (blend_behaviour_new {} None, []) = (st, out)" by fastforce
  have "cache_keeps sample_duplicates (\<lambda>c. c)" by (simp add: cache_keeps_def sample_duplicates_def)
  from blend_forwards_once [OF this _ iterates_sorted run, of "[7]"] blend_forwards_once [OF this _ iterates_sorted run, of "[]"]
  have "count_list (out @ bb_events st) (GenerateEvent (BlendMessageEvent [7])) \<le> 1"
    "count_list (out @ bb_events st) (NotifyHandler 1 []) \<le> 2" by (simp_all add: Let_def numeral_2_eq_2)
  moreover have "sorted_list_of_set {Suc 0, 2} = [1, 2]" "sorted_list_of_set {2, Suc 0} = [1, 2]" by simp_all
  then have "out = [NotifyHandler 2 [7]]"
    using run by (simp add: behaviour_do_def on_connection_handler_event_def blend_behaviour_new_def sample_duplicates_def
        forward_message_def blend_publish_def blend_behaviour_poll_def Let_def)
  ultimately show ?thesis using run by blast
qed

section \<open>The peers that are dialled\<close>

lemma dialled_peers:
  assumes "picks pick" and "distinct (remote_nodes (swarm_membership sw))"
  shows "\<exists>nodes. check_and_dial_new_peers pick sw = map bn_address nodes \<and> distinct nodes \<and>
    set nodes \<subseteq> {n \<in> set (remote_nodes (swarm_membership sw)). bn_id n \<notin> swarm_connected sw \<union> swarm_blocked sw} \<and>
    length nodes = min (peering_degree sw - num_healthy_peers (swarm_behaviour sw))
      (length (filter (\<lambda>n. bn_id n \<notin> swarm_connected sw \<union> swarm_blocked sw) (remote_nodes (swarm_membership sw))))"
proof -
  let ?free = "filter (\<lambda>n. bn_id n \<notin> swarm_connected sw \<union> swarm_blocked sw) (remote_nodes (swarm_membership sw))"
    and ?n = "peering_degree sw - num_healthy_peers (swarm_behaviour sw)"
  have p: "set (pick ?free ?n) \<subseteq> set ?free" "distinct (pick ?free ?n)" "length (pick ?free ?n) = min ?n (length ?free)"
    using assms(1) distinct_filter [OF assms(2)] by (simp_all only: picks_def)
  show ?thesis
  proof (cases "?n = 0")
    case True
    then show ?thesis by (intro exI [of _ "[]"]) (simp add: check_and_dial_new_peers_def)
  next
    case False
    then have "check_and_dial_new_peers pick sw = map bn_address (pick ?free ?n)"
      by (simp add: check_and_dial_new_peers_def dial_random_peers_def filter_and_choose_remote_nodes_def)
    then show ?thesis using p by (intro exI [of _ "pick ?free ?n"]) auto
  qed
qed

end
