(* ===== verification/Kzgrs.thy ===== *)
theory Kzgrs
  imports Prelude Complex_Main "HOL-Library.More_List"
begin

text \<open>
  The polynomial commitments and the Reed-Solomon code of \<open>nomos-da/kzgrs\<close>: bytes as evaluations
  of a polynomial (\<open>common.rs\<close>), commitments and proofs of single evaluations (\<open>kzg.rs\<close>), encoding
  and decoding (\<open>rs.rs\<close>) and the batch of proofs by Toeplitz matrices (\<open>fk20.rs\<close>).

  The field, the two groups, the pairing, the evaluation domains and the arithmetic of dense
  polynomials are the arkworks crates. They are the fields of the record \<open>ark\<close>, and what the code
  relies on are the predicates \<open>domain_laws\<close>, \<open>fft_laws\<close>, \<open>poly_laws\<close>, \<open>group_laws\<close>,
  \<open>pairing_laws\<close> and \<open>bytes_laws\<close>. A dense polynomial is the list of its coefficients, a domain
  its size. \<open>debug_assert!\<close> is not part of a release build and is left out.
\<close>

subsection \<open>The arkworks crates\<close>

record ('f, 'g, 'h, 't) ark =
  domain_new :: "nat \<Rightarrow> nat option"
  group_gen :: "nat \<Rightarrow> 'f"
  fft :: "nat \<Rightarrow> 'f list \<Rightarrow> 'f list"
  interpolate :: "nat \<Rightarrow> 'f list \<Rightarrow> 'f list"
  g_fft :: "nat \<Rightarrow> 'g list \<Rightarrow> 'g list"
  g_ifft :: "nat \<Rightarrow> 'g list \<Rightarrow> 'g list"
  from_coefficients_vec :: "'f list \<Rightarrow> 'f list"
  poly_add :: "'f list \<Rightarrow> 'f list \<Rightarrow> 'f list"
  naive_mul :: "'f list \<Rightarrow> 'f list \<Rightarrow> 'f list"
  poly_div :: "'f list \<Rightarrow> 'f list \<Rightarrow> 'f list"
  g1_mul :: "'f \<Rightarrow> 'g \<Rightarrow> 'g"
  g2_mul :: "'f \<Rightarrow> 'h \<Rightarrow> 'h"
  pairing :: "'g \<Rightarrow> 'h \<Rightarrow> 't"
  kzg_commit :: "'g list \<Rightarrow> 'f list \<Rightarrow> (string, 'g) outcome"
  fr_from_le :: "bytes \<Rightarrow> 'f"
  fr_to_le :: "'f \<Rightarrow> bytes"

text \<open>\<open>domain.element(i)\<close>: a power of the generator.\<close>

definition element :: "('f::field, 'g, 'h, 't) ark \<Rightarrow> nat \<Rightarrow> nat \<Rightarrow> 'f" where
  "element A N i = group_gen A N ^ i"

text \<open>\<open>Vec::resize\<close> with zeros, the coefficient of a polynomial and its value.\<close>

definition resize :: "nat \<Rightarrow> 'a::zero list \<Rightarrow> 'a list" where
  "resize n xs = take n xs @ replicate (n - length xs) 0"

definition coeff :: "'a::zero list \<Rightarrow> nat \<Rightarrow> 'a" where
  "coeff p i = (if i < length p then p ! i else 0)"

definition peval :: "'f::field list \<Rightarrow> 'f \<Rightarrow> 'f" where
  "peval p x = (\<Sum>i<length p. p ! i * x ^ i)"

text \<open>
  The sizes of the domains are the powers of two up to a bound; \<open>new\<close> rounds up. The powers of
  the generator are different and come back to one.
\<close>

definition domain_laws :: "('f::field, 'g, 'h, 't) ark \<Rightarrow> nat \<Rightarrow> bool" where
  "domain_laws A K \<longleftrightarrow>
     (\<forall>k \<le> K. domain_new A (2 ^ k) = Some (2 ^ k) \<and> group_gen A (2 ^ k) ^ (2 ^ k) = 1 \<and>
        inj_on (element A (2 ^ k)) {..<2 ^ k}) \<and>
     domain_new A 0 = Some 1"

text \<open>
  The transforms first bring their input to the size of the domain. The transform of a
  polynomial lists its values, interpolation gives a polynomial with given values and no leading
  zeros, and over the group the two transforms are inverse to each other.
\<close>

definition fft_laws :: "('f::field, 'g::ab_group_add, 'h, 't) ark \<Rightarrow> nat \<Rightarrow> bool" where
  "fft_laws A K \<longleftrightarrow>
     (\<forall>k \<le> K. \<forall>xs es gs.
        fft A (2 ^ k) xs = map (\<lambda>i. peval (resize (2 ^ k) xs) (element A (2 ^ k) i)) [0..<2 ^ k] \<and>
        length (interpolate A (2 ^ k) es) \<le> 2 ^ k \<and>
        (interpolate A (2 ^ k) es \<noteq> [] \<longrightarrow> last (interpolate A (2 ^ k) es) \<noteq> 0) \<and>
        fft A (2 ^ k) (interpolate A (2 ^ k) es) = resize (2 ^ k) es \<and>
        g_fft A (2 ^ k) gs =
          map (\<lambda>i. \<Sum>j<2 ^ k. g1_mul A (element A (2 ^ k) i ^ j) (resize (2 ^ k) gs ! j)) [0..<2 ^ k] \<and>
        g_ifft A (2 ^ k) (g_fft A (2 ^ k) gs) = resize (2 ^ k) gs)"

text \<open>Sums and products of polynomials; a quotient by a linear one leaves a constant.\<close>

definition poly_laws :: "('f::field, 'g, 'h, 't) ark \<Rightarrow> bool" where
  "poly_laws A \<longleftrightarrow>
     (\<forall>p q. from_coefficients_vec A p = strip_while (\<lambda>c. c = 0) p \<and>
        length (poly_add A p q) \<le> max (length p) (length q) \<and>
        (\<forall>k. coeff (poly_add A p q) k = coeff p k + coeff q k) \<and>
        length (naive_mul A p q) \<le> length p + length q - 1 \<and>
        (\<forall>x. peval (naive_mul A p q) x = peval p x * peval q x)) \<and>
     (\<forall>p u. length (poly_div A p [- u, 1]) \<le> length p - 1 \<and>
        (\<exists>r. \<forall>k. coeff p k =
           (\<Sum>i\<le>k. coeff (poly_div A p [- u, 1]) i * coeff [- u, 1] (k - i)) + coeff [r] k))"

text \<open>
  The groups are modules over the field. \<open>KZG10::commit\<close> is the linear combination of the
  powers with the coefficients, and an error for a polynomial with more coefficients than powers.
\<close>

definition group_laws :: "('f::field, 'g::ab_group_add, 'h::ab_group_add, 't) ark \<Rightarrow> bool" where
  "group_laws A \<longleftrightarrow> module (g1_mul A) \<and> module (g2_mul A) \<and>
     (\<forall>ps p. kzg_commit A ps p =
        (if length p \<le> length ps then Ok (\<Sum>i<length p. g1_mul A (p ! i) (ps ! i))
         else Err ''TooManyCoefficients''))"

text \<open>The pairing does not care on which side a scalar stands.\<close>

definition pairing_laws :: "('f::field, 'g::ab_group_add, 'h::ab_group_add, 't) ark \<Rightarrow> bool" where
  "pairing_laws A \<longleftrightarrow> (\<forall>a P Q. pairing A (g1_mul A a P) Q = pairing A P (g2_mul A a Q))"

text \<open>
  A field element has 32 bytes, in little endian order, and every number of 31 bytes is one.
\<close>

definition bytes_laws :: "('f::field, 'g, 'h, 't) ark \<Rightarrow> bool" where
  "bytes_laws A \<longleftrightarrow>
     (\<forall>b. length b \<le> 31 \<longrightarrow> fr_to_le A (fr_from_le A b) = b @ replicate (32 - length b) 0) \<and>
     (\<forall>b. fr_from_le A (b @ [0]) = fr_from_le A b) \<and>
     fr_from_le A [] = 0"

subsection \<open>Bytes as field elements\<close>

definition BYTES_PER_FIELD_ELEMENT :: nat where "BYTES_PER_FIELD_ELEMENT = 32"

datatype kzg_rs_error =
    UnpaddedDataError nat nat
  | ChunkSizeTooBig nat
  | NotEnoughAttestations nat nat
  | AttestationSignersMismatch nat nat
  | PolyCommitError string
  | BlstError nat
  | DivisionByZeroPolynomial

text \<open>\<open>slice::chunks\<close> of the standard library, for a positive size.\<close>

function chunks :: "nat \<Rightarrow> 'a list \<Rightarrow> 'a list list" where
  "chunks n xs = (if xs = [] \<or> n = 0 then [] else take n xs # chunks n (drop n xs))"
  by pat_completeness auto
termination by (relation "measure (\<lambda>(n, xs). length xs)") auto

declare chunks.simps [simp del]

definition field_element_from_bytes_le :: "('f, 'g, 'h, 't) ark \<Rightarrow> bytes \<Rightarrow> 'f option" where
  "field_element_from_bytes_le A b =
     (if length b \<le> BYTES_PER_FIELD_ELEMENT then Some (fr_from_le A b) else None)"

definition bytes_to_evaluations :: "('f, 'g, 'h, 't) ark \<Rightarrow> nat \<Rightarrow> bytes \<Rightarrow> 'f list option" where
  "bytes_to_evaluations A chunk_size data =
     (if length data mod chunk_size \<noteq> 0 then None
      else those (map (field_element_from_bytes_le A) (chunks chunk_size data)))"

definition bytes_to_polynomial_unchecked ::
    "('f, 'g, 'h, 't) ark \<Rightarrow> nat \<Rightarrow> bytes \<Rightarrow> nat \<Rightarrow> ('f list \<times> 'f list) option" where
  "bytes_to_polynomial_unchecked A chunk_size data domain =
     map_option (\<lambda>evals. (evals, interpolate A domain evals)) (bytes_to_evaluations A chunk_size data)"

definition bytes_to_polynomial ::
    "('f, 'g, 'h, 't) ark \<Rightarrow> nat \<Rightarrow> bytes \<Rightarrow> nat \<Rightarrow> (kzg_rs_error, 'f list \<times> 'f list) outcome" where
  "bytes_to_polynomial A chunk_size data domain =
     (if BYTES_PER_FIELD_ELEMENT < chunk_size then Err (ChunkSizeTooBig chunk_size)
      else if length data mod chunk_size \<noteq> 0 then Err (UnpaddedDataError chunk_size (length data))
      else expect (bytes_to_polynomial_unchecked A chunk_size data domain))"

definition compute_roots_of_unity :: "('f::field, 'g, 'h, 't) ark \<Rightarrow> nat \<Rightarrow> 'f list option" where
  "compute_roots_of_unity A n =
     map_option (\<lambda>N. take n (map (element A N) [0..<N])) (domain_new A n)"

subsection \<open>Commitments and proofs\<close>

record ('g, 'h) global_parameters =
  powers_of_g :: "'g list"
  param_h :: 'h
  beta_h :: 'h

text \<open>A setup from a secret \<open>s\<close>: the powers of \<open>s\<close> in the first group, and \<open>s\<close> in the second.\<close>

definition setup_with ::
    "('f::field, 'g::ab_group_add, 'h::ab_group_add, 't) ark \<Rightarrow> 'f \<Rightarrow> ('g, 'h) global_parameters \<Rightarrow> bool" where
  "setup_with A s gp \<longleftrightarrow>
     (\<forall>j < length (powers_of_g gp). powers_of_g gp ! j = g1_mul A (s ^ j) (powers_of_g gp ! 0)) \<and>
     beta_h gp = g2_mul A s (param_h gp)"

definition commit_polynomial ::
    "('f, 'g, 'h, 't) ark \<Rightarrow> 'f list \<Rightarrow> ('g, 'h) global_parameters \<Rightarrow> (kzg_rs_error, 'g) outcome" where
  "commit_polynomial A polynomial gp = map_err PolyCommitError (kzg_commit A (powers_of_g gp) polynomial)"

definition generate_element_proof ::
    "('f::field, 'g, 'h, 't) ark \<Rightarrow> nat \<Rightarrow> 'f list \<Rightarrow> 'f list \<Rightarrow> ('g, 'h) global_parameters \<Rightarrow> nat \<Rightarrow>
     (kzg_rs_error, 'g) outcome" where
  "generate_element_proof A element_index polynomial evaluations gp domain =
     (let u = element A domain element_index in
      if u = 0 then Err DivisionByZeroPolynomial
      else if length evaluations \<le> element_index then Abort
      else
        let v = evaluations ! element_index;
            f_x_v = poly_add A polynomial (from_coefficients_vec A [- v]);
            x_u = from_coefficients_vec A [- u, 1]
        in commit_polynomial A (poly_div A f_x_v x_u) gp)"

definition verify_element_proof ::
    "('f::field, 'g::ab_group_add, 'h::ab_group_add, 't) ark \<Rightarrow> nat \<Rightarrow> 'f \<Rightarrow> 'g \<Rightarrow> 'g \<Rightarrow> nat \<Rightarrow>
     ('g, 'h) global_parameters \<Rightarrow> bool option" where
  "verify_element_proof A element_index v commitment proof' domain gp =
     (if powers_of_g gp = [] then None
      else
        let u = element A domain element_index;
            commitment_check_g1 = commitment + - g1_mul A v (powers_of_g gp ! 0);
            proof_check_g2 = beta_h gp + - g2_mul A u (param_h gp)
        in Some (pairing A commitment_check_g1 (param_h gp) = pairing A proof' proof_check_g2))"

subsection \<open>The Reed-Solomon code\<close>

text \<open>\<open>encode\<close> and \<open>decode\<close> of \<open>rs.rs\<close>.\<close>

definition rs_encode :: "('f, 'g, 'h, 't) ark \<Rightarrow> 'f list \<Rightarrow> nat \<Rightarrow> 'f list" where
  "rs_encode A polynomial domain = fft A domain polynomial"

text \<open>The inner and the outer loop; \<open>inverse\<close> of zero is \<open>None\<close> and \<open>expect\<close> then panics.\<close>

definition lagrange_factor :: "('f::field, 'g, 'h, 't) ark \<Rightarrow> 'f list \<Rightarrow> nat \<Rightarrow> nat \<Rightarrow> 'f list \<Rightarrow> 'f list option" where
  "lagrange_factor A roots i j summand =
     (if i = j then Some summand
      else if roots ! i - roots ! j = 0 then None
      else
        let weight_adjustment = inverse (roots ! i - roots ! j) in
        Some (naive_mul A summand (from_coefficients_vec A
                [- (weight_adjustment * roots ! j), weight_adjustment])))"

definition lagrange_summand :: "('f::field, 'g, 'h, 't) ark \<Rightarrow> 'f list \<Rightarrow> 'f list \<Rightarrow> nat \<Rightarrow> 'f list option" where
  "lagrange_summand A points roots i =
     fold (\<lambda>j acc. Option.bind acc (lagrange_factor A roots i j))
       [0..<length points] (Some (from_coefficients_vec A [points ! i]))"

definition lagrange_interpolate :: "('f::field, 'g, 'h, 't) ark \<Rightarrow> 'f list \<Rightarrow> 'f list \<Rightarrow> 'f list option" where
  "lagrange_interpolate A points roots =
     (if length points \<noteq> length roots then None
      else fold (\<lambda>i acc. Option.bind acc (\<lambda>result.
             map_option (poly_add A result) (lagrange_summand A points roots i)))
           [0..<length roots] (Some (from_coefficients_vec A [0])))"

definition rs_decode :: "('f::field, 'g, 'h, 't) ark \<Rightarrow> nat \<Rightarrow> 'f option list \<Rightarrow> nat \<Rightarrow> 'f list option" where
  "rs_decode A original_chunks_len points domain =
     (let present = filter (\<lambda>i. points ! i \<noteq> None) [0..<length points];
          ps = map (\<lambda>i. the (points ! i)) present;
          roots_of_unity = map (element A domain) present
      in map_option (\<lambda>coeffs. take original_chunks_len (fft A domain coeffs))
           (lagrange_interpolate A ps roots_of_unity))"

definition points_to_bytes :: "('f, 'g, 'h, 't) ark \<Rightarrow> nat \<Rightarrow> 'f list \<Rightarrow> bytes" where
  "points_to_bytes A chunk_size points = concat (map (\<lambda>p. take chunk_size (fr_to_le A p)) points)"

subsection \<open>Batch proofs\<close>

definition toeplitz1 :: "('f, 'g::zero, 'h, 't) ark \<Rightarrow> 'g list \<Rightarrow> nat \<Rightarrow> 'g list option" where
  "toeplitz1 A gs polynomial_degree =
     map_option (\<lambda>domain. g_fft A domain (gs @ replicate polynomial_degree 0))
       (domain_new A (polynomial_degree * 2))"

definition toeplitz2 :: "('f, 'g, 'h, 't) ark \<Rightarrow> 'f list \<Rightarrow> 'g list \<Rightarrow> 'g list option" where
  "toeplitz2 A coefficients extended_vector =
     map_option (\<lambda>domain. map (\<lambda>(v, c). g1_mul A c v) (zip extended_vector (fft A domain coefficients)))
       (domain_new A (length coefficients))"

definition toeplitz3 :: "('f, 'g, 'h, 't) ark \<Rightarrow> 'g list \<Rightarrow> 'g list option" where
  "toeplitz3 A h_extended_fft =
     map_option (\<lambda>domain. g_ifft A domain h_extended_fft) (domain_new A (length h_extended_fft))"

text \<open>\<open>Toeplitz1Cache::with_size\<close>.\<close>

definition with_size ::
    "('f, 'g::zero, 'h, 't) ark \<Rightarrow> ('g, 'h) global_parameters \<Rightarrow> nat \<Rightarrow> 'g list option" where
  "with_size A gp polynomial_degree =
     toeplitz1 A (rev (take polynomial_degree (powers_of_g gp))) polynomial_degree"

definition fk20_batch_generate_elements_proofs ::
    "('f::field, 'g::ab_group_add, 'h, 't) ark \<Rightarrow> 'f list \<Rightarrow> ('g, 'h) global_parameters \<Rightarrow>
     'g list option \<Rightarrow> 'g list option" where
  "fk20_batch_generate_elements_proofs A polynomial gp toeplitz1_cache =
     (let polynomial_degree = length polynomial in
      Option.bind (domain_new A polynomial_degree) (\<lambda>domain.
      Option.bind
        (case toeplitz1_cache of
           Some v \<Rightarrow> Some v
         | None \<Rightarrow> toeplitz1 A (rev (take polynomial_degree (powers_of_g gp))) polynomial_degree)
        (\<lambda>extended_vector.
      let toeplitz_coefficients = replicate polynomial_degree 0 @ polynomial in
      Option.bind (toeplitz2 A toeplitz_coefficients extended_vector) (\<lambda>h_extended_vector.
      map_option (g_fft A domain) (toeplitz3 A h_extended_vector)))))"

subsection \<open>Values and coefficients\<close>

lemma length_resize [simp]: "length (resize n xs) = n"
  by (simp add: resize_def)

lemma resize_same [simp]: "length xs = n \<Longrightarrow> resize n xs = xs"
  by (simp add: resize_def)

lemma nth_resize: "i < n \<Longrightarrow> resize n xs ! i = coeff xs i"
  by (auto simp: resize_def coeff_def nth_append)

lemma coeff_beyond: "length p \<le> i \<Longrightarrow> coeff p i = 0"
  by (simp add: coeff_def)

lemma peval_coeff: "length p \<le> n \<Longrightarrow> peval p x = (\<Sum>i<n. coeff p i * x ^ i)"
  unfolding peval_def
  by (rule sum.mono_neutral_cong_left) (auto simp: coeff_def)

lemma peval_resize: "length p \<le> n \<Longrightarrow> peval (resize n p) x = peval p x"
  by (simp add: peval_coeff [of p n] peval_def [of "resize n p"] nth_resize)

lemma peval_Nil [simp]: "peval [] x = 0"
  by (simp add: peval_def)

lemma peval_Cons [simp]: "peval (a # p) x = a + x * peval p x"
  by (simp add: peval_def sum.lessThan_Suc_shift sum_distrib_left ac_simps del: sum.lessThan_Suc)

lemma coeff_strip_zeros [simp]: "coeff (strip_while (\<lambda>c. c = 0) p) i = coeff p i"
proof (induction p rule: rev_induct)
  case (snoc x p)
  then show ?case
    by (cases "x = 0") (auto simp: coeff_def nth_append split: if_splits)
qed simp

lemma length_strip_zeros: "length (strip_while P p) \<le> length p"
  by (simp add: strip_while_def length_dropWhile_le [of P "rev p", simplified])

lemma peval_strip_zeros [simp]: "peval (strip_while (\<lambda>c. c = 0) p) x = peval p x"
  by (simp add: peval_coeff [OF length_strip_zeros] peval_coeff [of p "length p"])

lemma coeff_Cons: "coeff (a # p) i = (case i of 0 \<Rightarrow> a | Suc j \<Rightarrow> coeff p j)"
  by (cases i) (simp_all add: coeff_def)

lemma coeff_map_upt: "i < n \<Longrightarrow> coeff (map f [0..<n]) i = f i"
  by (simp add: coeff_def)

lemma coeff_Nil [simp]: "coeff [] i = 0"
  by (simp add: coeff_def)

subsection \<open>Dividing by a linear polynomial\<close>

lemma linear_divisor:
  assumes "poly_laws A"
  shows "from_coefficients_vec A [- u, 1] = [- u, 1]"
proof -
  have "strip_while (\<lambda>c. c = 0) ([- u] @ [1]) = [- u] @ [1]"
    by (rule strip_while_append) simp
  with assms show ?thesis
    by (simp add: poly_laws_def)
qed

lemma linear_convolution:
  fixes q :: "nat \<Rightarrow> 'f::field"
  shows "(\<Sum>i\<le>k. q i * coeff [- u, 1] (k - i)) = (case k of 0 \<Rightarrow> - u * q 0 | Suc j \<Rightarrow> q j - u * q (Suc j))"
proof (cases k)
  case (Suc j)
  have "(\<Sum>i\<le>j. q i * coeff [- u, 1] (Suc j - i)) = (\<Sum>i\<in>{j}. q i)"
    by (rule sum.mono_neutral_cong_right) (auto simp: coeff_Cons split: nat.splits)
  with Suc show ?thesis by (simp add: coeff_Cons)
qed (simp add: coeff_Cons)

lemma div_linear:
  assumes "poly_laws A" and q_def: "q = poly_div A p [- u, 1]"
  shows "length q \<le> length p - 1"
    and "coeff q k = coeff p (Suc k) + u * coeff q (Suc k)"
    and "peval p x = (x - u) * peval q x + peval p u"
proof -
  from assms(1) have "length q \<le> length p - 1 \<and> (\<exists>r. \<forall>k. coeff p k =
      (\<Sum>i\<le>k. coeff q i * coeff [- u, 1] (k - i)) + coeff [r] k)"
    unfolding poly_laws_def q_def by blast
  then obtain r where len: "length q \<le> length p - 1"
    and conv: "\<And>k. coeff p k = (\<Sum>i\<le>k. coeff q i * coeff [- u, 1] (k - i)) + coeff [r] k"
    by blast
  show "length q \<le> length p - 1" by (fact len)
  have low: "coeff p 0 = - u * coeff q 0 + r"
    and step: "coeff p (Suc k) = coeff q k - u * coeff q (Suc k)" for k
    by (simp_all only: conv linear_convolution) (simp_all add: coeff_Cons)
  then show "coeff q k = coeff p (Suc k) + u * coeff q (Suc k)" by simp
  have eval: "peval p y = (y - u) * peval q y + r" for y
  proof -
    let ?n = "length p"
    have "peval p y = (\<Sum>i<Suc ?n. coeff p i * y ^ i)"
      by (rule peval_coeff) simp
    also have "\<dots> = coeff p 0 + (\<Sum>i<?n. coeff p (Suc i) * y ^ Suc i)"
      by (subst sum.lessThan_Suc_shift) simp
    also have "(\<Sum>i<?n. coeff p (Suc i) * y ^ Suc i) =
        y * (\<Sum>i<?n. coeff q i * y ^ i) - u * (\<Sum>i<?n. coeff q (Suc i) * y ^ Suc i)"
      by (simp add: step sum_distrib_left sum_subtractf algebra_simps)
    also have "(\<Sum>i<?n. coeff q (Suc i) * y ^ Suc i) = (\<Sum>i<Suc ?n. coeff q i * y ^ i) - coeff q 0"
      by (subst sum.lessThan_Suc_shift) simp
    also have "(\<Sum>i<Suc ?n. coeff q i * y ^ i) = peval q y"
      using len by (intro peval_coeff [symmetric]) simp
    also have "(\<Sum>i<?n. coeff q i * y ^ i) = peval q y"
      using len by (intro peval_coeff [symmetric]) simp
    finally show ?thesis
      by (simp add: low algebra_simps)
  qed
  show "peval p x = (x - u) * peval q x + peval p u"
    using eval [of x] eval [of u] by simp
qed

lemma recurrence_closed_form:
  fixes q :: "nat \<Rightarrow> 'f::field"
  assumes "\<And>k. q k = a (Suc k) + u * q (Suc k)" and "\<And>k. n \<le> k \<Longrightarrow> q k = 0" and "k \<le> n"
  shows "q k = (\<Sum>m\<in>{k<..n}. a m * u ^ (m - Suc k))"
  using assms(3)
proof (induction rule: inc_induct)
  case base
  then show ?case by (simp add: assms(2))
next
  case (step k)
  have "{k<..n} = insert (Suc k) {Suc k<..n}"
    using step by auto
  moreover have "u * (\<Sum>m\<in>{Suc k<..n}. a m * u ^ (m - Suc (Suc k))) =
      (\<Sum>m\<in>{Suc k<..n}. a m * u ^ (m - Suc k))"
    unfolding sum_distrib_left
  proof (rule sum.cong)
    fix m assume "m \<in> {Suc k<..n}"
    then have "m - Suc k = Suc (m - Suc (Suc k))" by auto
    then show "u * (a m * u ^ (m - Suc (Suc k))) = a m * u ^ (m - Suc k)" by simp
  qed simp
  ultimately show ?case
    using assms(1) [of k] step.IH by simp
qed

subsection \<open>Cyclic convolution\<close>

lemma cyclic_convolution:
  fixes z :: "'f::field" and G :: "nat \<Rightarrow> 'g::ab_group_add"
  assumes m: "module sc" and z: "z ^ M = 1"
  shows "sc (\<Sum>a<M. c a * z ^ a) (\<Sum>b<M. sc (z ^ b) (G b)) =
    (\<Sum>k<M. sc (z ^ k) (\<Sum>a<M. sc (c a) (G ((k + M - a) mod M))))"
proof -
  have turn: "z ^ (i mod M) = z ^ i" for i
  proof -
    have "z ^ i = z ^ (M * (i div M) + i mod M)" by simp
    also have "\<dots> = z ^ (i mod M)" by (simp only: power_add power_mult z power_one mult_1)
    finally show ?thesis ..
  qed
  have inner: "(\<Sum>k<M. sc (z ^ k * c a) (G ((k + M - a) mod M))) =
      (\<Sum>b<M. sc (c a * z ^ a * z ^ b) (G b))" if a: "a < M" for a
  proof -
    have wrap: "(a + (k + M - a) mod M) mod M = k" if "k < M" for k
    proof -
      have "(a + (k + M - a) mod M) mod M = (a + (k + M - a)) mod M"
        by (rule mod_add_right_eq)
      also have "a + (k + M - a) = k + M"
        using a by simp
      finally show ?thesis
        using that by simp
    qed
    have forth: "((a + b) mod M + M - a) mod M = b" if "b < M" for b
    proof (cases "a + b < M")
      case False
      with a that have "a + b - M < M" and "a + b - M + M - a = b" by auto
      with False that show ?thesis by (simp add: le_mod_geq)
    qed (use that in simp)
    have same: "sc (c a * z ^ a * z ^ ((k + M - a) mod M)) X = sc (z ^ k * c a) X" if "k < M" for k X
    proof -
      have "z ^ k = z ^ a * z ^ ((k + M - a) mod M)"
        using turn [of "a + (k + M - a) mod M"] by (simp only: wrap [OF that] power_add)
      then show ?thesis by (simp only: ac_simps)
    qed
    show ?thesis
      by (rule sum.reindex_bij_witness [where i = "\<lambda>b. (a + b) mod M" and j = "\<lambda>k. (k + M - a) mod M"])
        (use a in \<open>simp_all add: wrap forth same\<close>)
  qed
  have "(\<Sum>k<M. sc (z ^ k) (\<Sum>a<M. sc (c a) (G ((k + M - a) mod M)))) =
      (\<Sum>k<M. \<Sum>a<M. sc (z ^ k * c a) (G ((k + M - a) mod M)))"
    by (simp add: module.scale_sum_right [OF m] module.scale_scale [OF m])
  also have "\<dots> = (\<Sum>a<M. \<Sum>k<M. sc (z ^ k * c a) (G ((k + M - a) mod M)))"
    by (rule sum.swap)
  also have "\<dots> = (\<Sum>a<M. \<Sum>b<M. sc (c a * z ^ a * z ^ b) (G b))"
    by (rule sum.cong) (simp_all add: inner)
  also have "\<dots> = sc (\<Sum>a<M. c a * z ^ a) (\<Sum>b<M. sc (z ^ b) (G b))"
    unfolding module.scale_sum_left [OF m]
    by (simp only: module.scale_sum_right [OF m] module.scale_scale [OF m])
  finally show ?thesis ..
qed

subsection \<open>The batch is the list of the single proofs\<close>

lemma domain_new_power: "domain_laws A K \<Longrightarrow> k \<le> K \<Longrightarrow> domain_new A (2 ^ k) = Some (2 ^ k)"
  by (simp add: domain_laws_def)

lemma element_period:
  assumes "domain_laws A K" and "k \<le> K"
  shows "element A (2 ^ k) i ^ (2 ^ k) = 1"
  using assms by (simp add: domain_laws_def element_def flip: power_mult mult.commute [of "2 ^ k"])
    (simp add: power_mult)

lemma fft_values:
  assumes "fft_laws A K" and "k \<le> K" and "length p \<le> 2 ^ k"
  shows "fft A (2 ^ k) p = map (\<lambda>i. peval p (element A (2 ^ k) i)) [0..<2 ^ k]"
  using assms by (simp add: fft_laws_def peval_resize)

lemma g_fft_values:
  assumes "fft_laws A K" and "k \<le> K"
  shows "g_fft A (2 ^ k) gs =
    map (\<lambda>i. \<Sum>j<2 ^ k. g1_mul A (element A (2 ^ k) i ^ j) (coeff gs j)) [0..<2 ^ k]"
  using assms by (simp add: fft_laws_def nth_resize)

lemma length_g_fft: "fft_laws A K \<Longrightarrow> k \<le> K \<Longrightarrow> length (g_fft A (2 ^ k) gs) = 2 ^ k"
  by (simp add: g_fft_values)

lemma g_ifft_g_fft:
  assumes "fft_laws A K" and "k \<le> K"
  shows "g_ifft A (2 ^ k) (g_fft A (2 ^ k) gs) = resize (2 ^ k) gs"
  using assms unfolding fft_laws_def by blast

lemma sum_lessThan_add: "(\<Sum>i<a + b. f i) = (\<Sum>i<a. f i) + (\<Sum>i<b. f (a + i))"
  for f :: "nat \<Rightarrow> 'a::comm_monoid_add"
  by (induction b) (simp_all add: ac_simps)

lemma sum_triangle: "(\<Sum>k<N. \<Sum>m\<in>{k<..<N}. F m k) = (\<Sum>m<N. \<Sum>k<m. F m k)"
  for F :: "nat \<Rightarrow> nat \<Rightarrow> 'a::comm_monoid_add"
  unfolding sum.Sigma [OF finite_lessThan ballI [OF finite_lessThan]]
    sum.Sigma [OF finite_lessThan ballI [OF finite_greaterThanLessThan]]
  by (rule sum.reindex_bij_witness [where i = prod.swap and j = prod.swap]) auto

text \<open>The vector of the \<open>h\<close> of the paper: the half of the convolution that the last transform reads.\<close>

definition h_entry :: "('f \<Rightarrow> 'g \<Rightarrow> 'g::ab_group_add) \<Rightarrow> 'f list \<Rightarrow> 'g list \<Rightarrow> nat \<Rightarrow> 'g" where
  "h_entry sc p P j = (\<Sum>m\<in>{j<..<length p}. sc (p ! m) (P ! (m - Suc j)))"

lemma convolution_entry:
  assumes m: "module sc" and p: "length p = N" and P: "N \<le> length P" and j: "j < N"
  shows "(\<Sum>a<2 * N. sc ((replicate N 0 @ p) ! a)
      (coeff (rev (take N P) @ replicate N 0) ((j + 2 * N - a) mod (2 * N)))) = h_entry sc p P j"
    (is "sum ?f _ = _")
proof -
  have low: "?f a = 0" if "a < N" for a
    using that by (simp add: nth_append module.scale_zero_left [OF m])
  have high: "?f (N + i) = (if j < i then sc (p ! i) (P ! (i - Suc j)) else 0)" if i: "i < N" for i
  proof -
    have "(j + 2 * N - (N + i)) mod (2 * N) = j + N - i"
      using i j by simp
    moreover have "coeff (rev (take N P) @ replicate N 0) (j + N - i) = P ! (i - Suc j)" if "j < i"
      using that i j P by (simp add: coeff_def nth_append rev_nth min_absorb2) (auto intro: arg_cong [of _ _ "(!) P"])
    moreover have "coeff (rev (take N P) @ replicate N 0) (j + N - i) = 0" if "\<not> j < i"
      using that i P by (auto simp: coeff_def nth_append min_absorb2)
    ultimately show ?thesis
      by (simp add: nth_append module.scale_zero_right [OF m])
  qed
  have "sum ?f {..<2 * N} = (\<Sum>a<N. ?f a) + (\<Sum>i<N. ?f (N + i))"
    by (simp only: mult_2 sum_lessThan_add)
  also have "\<dots> = (\<Sum>i<N. if j < i then sc (p ! i) (P ! (i - Suc j)) else 0)"
    using low high by simp
  also have "\<dots> = h_entry sc p P j"
    unfolding h_entry_def p by (rule sum.mono_neutral_cong_right) auto
  finally show ?thesis .
qed

lemma toeplitz_product:
  assumes m: "module (g1_mul A)" and d: "domain_laws A K" and f: "fft_laws A K" and k: "Suc k \<le> K"
    and p: "length p = 2 ^ k" and P: "2 ^ k \<le> length P"
  shows "Option.bind
      (toeplitz2 A (replicate (2 ^ k) 0 @ p) (g_fft A (2 ^ Suc k) (rev (take (2 ^ k) P) @ replicate (2 ^ k) 0)))
      (toeplitz3 A) =
    Some (map (\<lambda>j. \<Sum>a<2 ^ Suc k. g1_mul A ((replicate (2 ^ k) 0 @ p) ! a)
      (coeff (rev (take (2 ^ k) P) @ replicate (2 ^ k) 0) ((j + 2 ^ Suc k - a) mod 2 ^ Suc k))) [0..<2 ^ Suc k])"
    (is "Option.bind (toeplitz2 A ?c (g_fft A ?M ?G)) _ = Some (map ?H _)")
proof -
  have len: "length ?c = ?M"
    by (simp add: p)
  have "map (\<lambda>(v, c). g1_mul A c v) (zip (g_fft A ?M ?G) (fft A ?M ?c)) =
      map (\<lambda>i. g1_mul A (\<Sum>a<?M. ?c ! a * element A ?M i ^ a)
        (\<Sum>b<?M. g1_mul A (element A ?M i ^ b) (coeff ?G b))) [0..<?M]"
    using len by (intro nth_equalityI)
      (simp_all add: g_fft_values [OF f k] fft_values [OF f k] peval_def del: power_Suc)
  also have "\<dots> = map (\<lambda>i. \<Sum>j<?M. g1_mul A (element A ?M i ^ j) (?H j)) [0..<?M]"
    by (intro map_cong refl cyclic_convolution [OF m] element_period [OF d k])
  also have "\<dots> = g_fft A ?M (map ?H [0..<?M])"
    by (simp add: g_fft_values [OF f k] coeff_map_upt del: power_Suc)
  finally have "toeplitz2 A ?c (g_fft A ?M ?G) = Some (g_fft A ?M (map ?H [0..<?M]))"
    unfolding toeplitz2_def len domain_new_power [OF d k] by (simp del: power_Suc)
  moreover have "toeplitz3 A (g_fft A ?M (map ?H [0..<?M])) = Some (map ?H [0..<?M])"
    by (simp add: toeplitz3_def length_g_fft [OF f k] domain_new_power [OF d k] g_ifft_g_fft [OF f k]
        del: power_Suc)
  ultimately show ?thesis by simp
qed

lemma fk20_value:
  assumes m: "module (g1_mul A)" and d: "domain_laws A K" and f: "fft_laws A K" and k: "Suc k \<le> K"
    and p: "length p = 2 ^ k" and P: "2 ^ k \<le> length (powers_of_g gp)"
    and cache: "cache = None \<or> cache = with_size A gp (2 ^ k)"
  shows "fk20_batch_generate_elements_proofs A p gp cache =
    Some (map (\<lambda>i. \<Sum>j<2 ^ k. g1_mul A (element A (2 ^ k) i ^ j) (h_entry (g1_mul A) p (powers_of_g gp) j))
      [0..<2 ^ k])"
proof -
  let ?P = "powers_of_g gp"
  let ?G = "rev (take (2 ^ k) ?P) @ replicate (2 ^ k) 0"
  have k': "k \<le> K" using k by simp
  have t1: "toeplitz1 A (rev (take (2 ^ k) ?P)) (2 ^ k) = Some (g_fft A (2 ^ Suc k) ?G)"
    using domain_new_power [OF d k] by (simp add: toeplitz1_def mult.commute)
  then have ext: "(case cache of Some v \<Rightarrow> Some v | None \<Rightarrow> toeplitz1 A (rev (take (2 ^ k) ?P)) (2 ^ k)) =
      Some (g_fft A (2 ^ Suc k) ?G)"
    using cache by (auto simp: with_size_def)
  define H where "H = (\<lambda>j. \<Sum>a<2 ^ Suc k. g1_mul A ((replicate (2 ^ k) 0 @ p) ! a)
      (coeff ?G ((j + 2 ^ Suc k - a) mod 2 ^ Suc k)))"
  have prod: "Option.bind (toeplitz2 A (replicate (2 ^ k) 0 @ p) (g_fft A (2 ^ Suc k) ?G)) (toeplitz3 A) =
      Some (map H [0..<2 ^ Suc k])"
    unfolding H_def by (rule toeplitz_product [OF m d f k p P])
  have "coeff (map H [0..<2 ^ Suc k]) j = h_entry (g1_mul A) p ?P j" if "j < 2 ^ k" for j
    using convolution_entry [OF m p P that] that by (simp add: coeff_map_upt H_def)
  then have "g_fft A (2 ^ k) (map H [0..<2 ^ Suc k]) =
      map (\<lambda>i. \<Sum>j<2 ^ k. g1_mul A (element A (2 ^ k) i ^ j) (h_entry (g1_mul A) p ?P j)) [0..<2 ^ k]"
    by (simp add: g_fft_values [OF f k'])
  with prod show ?thesis
    unfolding fk20_batch_generate_elements_proofs_def Let_def p domain_new_power [OF d k'] ext
    by (auto simp: Option.bind_eq_Some_conv simp del: power_Suc)
qed

lemma quotient_commitment:
  assumes m: "module sc"
  shows "(\<Sum>k<length p. sc (\<Sum>m\<in>{k<..<length p}. p ! m * u ^ (m - Suc k)) (P ! k)) =
    (\<Sum>j<length p. sc (u ^ j) (h_entry sc p P j))"
proof -
  have inner: "(\<Sum>k<m. sc (p ! m * u ^ (m - Suc k)) (P ! k)) =
      (\<Sum>j<m. sc (u ^ j * p ! m) (P ! (m - Suc j)))" for m
    by (subst sum.nat_diff_reindex [symmetric]) (rule sum.cong, simp_all add: ac_simps)
  have "(\<Sum>k<length p. sc (\<Sum>m\<in>{k<..<length p}. p ! m * u ^ (m - Suc k)) (P ! k)) =
      (\<Sum>k<length p. \<Sum>m\<in>{k<..<length p}. sc (p ! m * u ^ (m - Suc k)) (P ! k))"
    by (simp only: module.scale_sum_left [OF m])
  also have "\<dots> = (\<Sum>m<length p. \<Sum>k<m. sc (p ! m * u ^ (m - Suc k)) (P ! k))"
    by (rule sum_triangle)
  also have "\<dots> = (\<Sum>m<length p. \<Sum>j<m. sc (u ^ j * p ! m) (P ! (m - Suc j)))"
    by (simp only: inner)
  also have "\<dots> = (\<Sum>j<length p. \<Sum>m\<in>{j<..<length p}. sc (u ^ j * p ! m) (P ! (m - Suc j)))"
    by (rule sum_triangle [symmetric])
  also have "\<dots> = (\<Sum>j<length p. sc (u ^ j) (h_entry sc p P j))"
    by (simp only: h_entry_def module.scale_sum_right [OF m] module.scale_scale [OF m])
  finally show ?thesis .
qed

lemma coeff_poly_add: "poly_laws A \<Longrightarrow> coeff (poly_add A p q) k = coeff p k + coeff q k"
  and length_poly_add: "poly_laws A \<Longrightarrow> length (poly_add A p q) \<le> max (length p) (length q)"
  and length_naive_mul: "poly_laws A \<Longrightarrow> length (naive_mul A p q) \<le> length p + length q - 1"
  and peval_naive_mul: "poly_laws A \<Longrightarrow> peval (naive_mul A p q) x = peval p x * peval q x"
  and from_coefficients: "poly_laws A \<Longrightarrow> from_coefficients_vec A p = strip_while (\<lambda>c. c = 0) p"
  unfolding poly_laws_def by blast+

lemma peval_poly_add:
  assumes "poly_laws A"
  shows "peval (poly_add A p q) x = peval p x + peval q x"
proof -
  let ?n = "max (length p) (length q)"
  have "peval (poly_add A p q) x = (\<Sum>i<?n. coeff (poly_add A p q) i * x ^ i)"
    by (rule peval_coeff [OF length_poly_add [OF assms]])
  then show ?thesis
    by (simp add: coeff_poly_add [OF assms] algebra_simps sum.distrib
        peval_coeff [of p ?n] peval_coeff [of q ?n])
qed

lemma commit_value:
  assumes "group_laws A" and "length p \<le> length (powers_of_g gp)"
  shows "commit_polynomial A p gp = Ok (\<Sum>i<length p. g1_mul A (p ! i) (powers_of_g gp ! i))"
  using assms by (simp add: group_laws_def commit_polynomial_def)

lemma element_nonzero:
  assumes "domain_laws A K" and "k \<le> K"
  shows "element A (2 ^ k) i \<noteq> 0"
  using element_period [OF assms, of i] by (auto simp: power_0_left split: if_splits)

lemma shifted_length:
  assumes "poly_laws A"
  shows "length (poly_add A p (from_coefficients_vec A [c])) \<le> max (length p) 1"
proof -
  have "length (from_coefficients_vec A [c]) \<le> 1"
    using length_strip_zeros [of "\<lambda>c. c = 0" "[c]"] by (simp add: from_coefficients [OF assms])
  with length_poly_add [OF assms, of p "from_coefficients_vec A [c]"] show ?thesis
    by linarith
qed

lemma shifted_quotient:
  fixes p :: "'f::field list"
  assumes pl: "poly_laws A"
  defines "f \<equiv> \<lambda>v. poly_add A p (from_coefficients_vec A [v])"
  shows "length (poly_div A (f v) [- u, 1]) \<le> length p"
    and "j < length p \<Longrightarrow> coeff (poly_div A (f v) [- u, 1]) j =
      (\<Sum>m\<in>{j<..<length p}. p ! m * u ^ (m - Suc j))"
proof -
  define q where "q = poly_div A (f v) [- u, 1]"
  have "length q \<le> length (f v) - 1" by (rule div_linear(1) [OF pl q_def])
  with shifted_length [OF pl, of p v] have len: "length q \<le> length p"
    by (simp add: f_def)
  then show "length (poly_div A (f v) [- u, 1]) \<le> length p"
    by (simp add: q_def)
  have f: "coeff (f v) (Suc m) = coeff p (Suc m)" for m
    by (simp add: f_def coeff_poly_add [OF pl] from_coefficients [OF pl] coeff_Cons)
  assume "j < length p"
  then have "coeff q j = (\<Sum>m\<in>{j<..length p}. coeff (f v) m * u ^ (m - Suc j))"
    using len by (intro recurrence_closed_form [where q = "coeff q"] div_linear(2) [OF pl q_def])
      (auto simp: coeff_beyond)
  also have "\<dots> = (\<Sum>m\<in>{j<..<length p}. p ! m * u ^ (m - Suc j))"
  proof -
    have "coeff (f v) m = coeff p m" if "j < m" for m
      using f [of "m - 1"] that by simp
    then show ?thesis
      by (intro sum.mono_neutral_cong_right) (auto simp: coeff_def)
  qed
  finally show "coeff (poly_div A (f v) [- u, 1]) j =
      (\<Sum>m\<in>{j<..<length p}. p ! m * u ^ (m - Suc j))"
    by (simp add: q_def)
qed

lemma element_proof_value:
  assumes d: "domain_laws A K" and k: "k \<le> K" and pl: "poly_laws A" and gl: "group_laws A"
    and P: "length p \<le> length (powers_of_g gp)" and i: "i < length evals"
  shows "generate_element_proof A i p evals gp (2 ^ k) =
    Ok (\<Sum>j<length p. g1_mul A (element A (2 ^ k) i ^ j) (h_entry (g1_mul A) p (powers_of_g gp) j))"
proof -
  let ?u = "element A (2 ^ k) i" and ?P = "powers_of_g gp"
  define q where "q = poly_div A (poly_add A p (from_coefficients_vec A [- (evals ! i)])) [- ?u, 1]"
  have m: "module (g1_mul A)" using gl by (simp add: group_laws_def)
  have len: "length q \<le> length p"
    unfolding q_def by (rule shifted_quotient(1) [OF pl])
  have "(\<Sum>j<length q. g1_mul A (q ! j) (?P ! j)) = (\<Sum>j<length p. g1_mul A (coeff q j) (?P ! j))"
    by (rule sum.mono_neutral_cong_left)
      (use len in \<open>auto simp: coeff_def module.scale_zero_left [OF m]\<close>)
  also have "\<dots> = (\<Sum>j<length p. g1_mul A (?u ^ j) (h_entry (g1_mul A) p ?P j))"
    using quotient_commitment [OF m, of p ?u ?P] by (simp add: q_def shifted_quotient(2) [OF pl])
  finally show ?thesis
    using i P len element_nonzero [OF d k]
    by (simp add: generate_element_proof_def Let_def linear_divisor [OF pl] commit_value [OF gl]
        flip: q_def)
qed

lemma linear_combination:
  assumes m: "module (g1_mul A)" and "setup_with A s gp" and "length p \<le> length (powers_of_g gp)"
  shows "(\<Sum>i<length p. g1_mul A (p ! i) (powers_of_g gp ! i)) = g1_mul A (peval p s) (powers_of_g gp ! 0)"
proof -
  have "(\<Sum>i<length p. g1_mul A (p ! i) (powers_of_g gp ! i)) =
      (\<Sum>i<length p. g1_mul A (p ! i * s ^ i) (powers_of_g gp ! 0))"
  proof (rule sum.cong)
    fix i assume "i \<in> {..<length p}"
    with assms have "powers_of_g gp ! i = g1_mul A (s ^ i) (powers_of_g gp ! 0)"
      by (simp add: setup_with_def)
    then show "g1_mul A (p ! i) (powers_of_g gp ! i) = g1_mul A (p ! i * s ^ i) (powers_of_g gp ! 0)"
      by (metis module.scale_scale [OF m])
  qed simp
  then show ?thesis
    by (simp add: peval_def module.scale_sum_left [OF m])
qed

lemma element_proof_verifies:
  assumes pl: "poly_laws A" and gl: "group_laws A" and pr: "pairing_laws A" and s: "setup_with A s gp"
    and P: "powers_of_g gp \<noteq> []"
    and commit: "commit_polynomial A p gp = Ok C"
    and proof': "generate_element_proof A i p evals gp N = Ok w"
    and v: "evals ! i = peval p (element A N i)"
  shows "verify_element_proof A i (evals ! i) C w N gp = Some True"
proof -
  let ?u = "element A N i" and ?P = "powers_of_g gp" and ?h = "param_h gp"
  define f where "f = poly_add A p (from_coefficients_vec A [- (evals ! i)])"
  define q where "q = poly_div A f [- ?u, 1]"
  have m: "module (g1_mul A)" and m2: "module (g2_mul A)"
    and kc: "\<And>r. kzg_commit A ?P r = (if length r \<le> length ?P
        then Ok (\<Sum>i<length r. g1_mul A (r ! i) (?P ! i)) else Err ''TooManyCoefficients'')"
    using gl by (simp_all add: group_laws_def)
  have lc: "g1_mul A (peval r s) (?P ! 0) = c" if "commit_polynomial A r gp = Ok c" for r c
    using that linear_combination [OF m s, of r] by (simp add: commit_polynomial_def kc split: if_splits)
  have C: "C = g1_mul A (peval p s) (?P ! 0)" using lc [OF commit] ..
  have "commit_polynomial A q gp = Ok w"
    using proof' by (simp add: generate_element_proof_def Let_def linear_divisor [OF pl] f_def q_def
        split: if_splits)
  then have w: "w = g1_mul A (peval q s) (?P ! 0)" using lc by simp
  have f: "peval f x = peval p x - evals ! i" for x
    by (simp add: f_def peval_poly_add [OF pl] from_coefficients [OF pl])
  have "peval p s - evals ! i = (s - ?u) * peval q s"
    using div_linear(3) [OF pl q_def, of s] f [of s] f [of ?u] v by simp
  then have "C + - g1_mul A (evals ! i) (?P ! 0) = g1_mul A (s - ?u) w"
    unfolding C w module.scale_scale [OF m]
    by (simp flip: module.scale_left_diff_distrib [OF m])
  moreover have "beta_h gp + - g2_mul A ?u ?h = g2_mul A (s - ?u) ?h"
    using s by (simp add: setup_with_def module.scale_left_diff_distrib [OF m2])
  ultimately show ?thesis
    using P pr by (simp add: verify_element_proof_def Let_def pairing_laws_def)
qed

text \<open>Every proof of a batch verifies for the value of the polynomial at its point.\<close>

lemma batch_verifies:
  assumes d: "domain_laws A K" and f: "fft_laws A K" and pl: "poly_laws A" and gl: "group_laws A"
    and pr: "pairing_laws A" and s: "setup_with A s gp" and k: "Suc k \<le> K" and p: "length p = 2 ^ k"
    and cache: "cache = None \<or> cache = with_size A gp (2 ^ k)"
    and commit: "commit_polynomial A p gp = Ok C"
    and batch: "fk20_batch_generate_elements_proofs A p gp cache = Some ps"
  shows "length ps = 2 ^ k"
    and "i < 2 ^ k \<Longrightarrow> verify_element_proof A i (fft A (2 ^ k) p ! i) C (ps ! i) (2 ^ k) gp = Some True"
proof -
  have k': "k \<le> K" using k by simp
  have m: "module (g1_mul A)" using gl by (simp add: group_laws_def)
  have P: "2 ^ k \<le> length (powers_of_g gp)"
    using commit gl p by (simp add: commit_polynomial_def group_laws_def split: if_splits)
  have ps: "ps = map (\<lambda>i. \<Sum>j<2 ^ k. g1_mul A (element A (2 ^ k) i ^ j)
      (h_entry (g1_mul A) p (powers_of_g gp) j)) [0..<2 ^ k]"
    using batch fk20_value [OF m d f k p P cache] by simp
  then show "length ps = 2 ^ k" by simp
  assume i: "i < 2 ^ k"
  have vals: "fft A (2 ^ k) p = map (\<lambda>i. peval p (element A (2 ^ k) i)) [0..<2 ^ k]"
    using p by (simp add: fft_values [OF f k'])
  show "verify_element_proof A i (fft A (2 ^ k) p ! i) C (ps ! i) (2 ^ k) gp = Some True"
  proof (rule element_proof_verifies [OF pl gl pr s _ commit])
    show "powers_of_g gp \<noteq> []" using P by auto
    show "generate_element_proof A i p (fft A (2 ^ k) p) gp (2 ^ k) = Ok (ps ! i)"
      using element_proof_value [OF d k' pl gl, of p gp i "fft A (2 ^ k) p"] P p i by (simp add: ps vals)
    show "fft A (2 ^ k) p ! i = peval p (element A (2 ^ k) i)"
      using i by (simp add: vals)
  qed
qed

text \<open>
  C20. The batch algorithm computes the proofs that the single algorithm computes: for a polynomial
  with as many coefficients as the domain has elements, with or without the cache of the same size,
  it returns one proof per element, and each is the result of \<open>generate_element_proof\<close> at its index.
\<close>

theorem fk20_generates_element_proofs:
  assumes "domain_laws A K" and "fft_laws A K" and "poly_laws A" and "group_laws A"
    and "Suc k \<le> K" and "length p = 2 ^ k" and "2 ^ k \<le> length (powers_of_g gp)"
    and "cache = None \<or> cache = with_size A gp (2 ^ k)"
  shows "\<exists>ps. fk20_batch_generate_elements_proofs A p gp cache = Some ps \<and> length ps = 2 ^ k \<and>
    (\<forall>i < 2 ^ k. generate_element_proof A i p (rs_encode A p (2 ^ k)) gp (2 ^ k) = Ok (ps ! i))"
proof -
  have m: "module (g1_mul A)" using assms by (simp add: group_laws_def)
  have "length (rs_encode A p (2 ^ k)) = 2 ^ k"
    using assms by (simp add: rs_encode_def fft_values [OF assms(2)])
  then show ?thesis
    using fk20_value [OF m assms(1,2,5-8)] element_proof_value [OF assms(1) _ assms(3,4), of k p gp] assms
    by simp
qed

subsection \<open>Interpolation and decoding\<close>

text \<open>A polynomial is determined by as many values as it has coefficients.\<close>

lemma root_bound:
  fixes A :: "('f::field, 'g, 'h, 't) ark" and p :: "'f list"
  assumes pl: "poly_laws A" and "finite S" and "length p \<le> card S" and "\<forall>x \<in> S. peval p x = 0"
  shows "peval p x = 0"
  using assms(2-)
proof (induction "card S" arbitrary: S p x)
  case (Suc n)
  then obtain u where u: "u \<in> S" by fastforce
  define q where "q = poly_div A p [- u, 1]"
  note eval = div_linear(3) [OF pl q_def]
  have pu: "peval p u = 0" using Suc.prems u by blast
  have "peval q y = 0" if "y \<in> S - {u}" for y
    using eval [of y] pu Suc.prems(3) that by simp
  moreover have "n = card (S - {u})" and "length q \<le> card (S - {u})"
    using Suc.hyps(2) Suc.prems(1,2) u div_linear(1) [OF pl q_def] by simp_all
  ultimately have "peval q x = 0"
    using Suc.hyps(1) [of "S - {u}" q x] Suc.prems(1) by blast
  with eval [of x] pu show ?case by simp
qed simp

lemma values_determine:
  fixes A :: "('f::field, 'g, 'h, 't) ark" and p q :: "'f list"
  assumes "poly_laws A" and "finite S" and "length p \<le> card S" and "length q \<le> card S"
    and "\<And>x. x \<in> S \<Longrightarrow> peval p x = peval q x"
  shows "peval p x = peval q x"
proof -
  define r where "r = map (\<lambda>i. coeff p i - coeff q i) [0..<card S]"
  have r: "peval r y = peval p y - peval q y" for y
  proof -
    have "peval r y = (\<Sum>i<card S. coeff r i * y ^ i)"
      by (rule peval_coeff) (simp add: r_def)
    then show ?thesis
      using assms(3,4) by (simp add: peval_coeff [of p "card S"] peval_coeff [of q "card S"]
          r_def coeff_map_upt algebra_simps sum_subtractf)
  qed
  have "peval r x = 0"
    by (rule root_bound [OF assms(1,2)]) (use assms(5) r in \<open>auto simp: r_def\<close>)
  with r show ?thesis by simp
qed

lemma factor_value:
  assumes pl: "poly_laws A" and "i = j \<or> roots ! i \<noteq> roots ! j"
  obtains t' where "lagrange_factor A roots i j t = Some t'"
    "length t' \<le> (if i = j then length t else Suc (length t))"
    "\<And>x. peval t' x = peval t x * (if i = j then 1 else (x - roots ! j) / (roots ! i - roots ! j))"
proof (cases "i = j")
  case True
  then show ?thesis using that by (simp add: lagrange_factor_def)
next
  case False
  define w where "w = inverse (roots ! i - roots ! j)"
  let ?l = "from_coefficients_vec A [- (w * roots ! j), w]"
  have "length ?l \<le> 2"
    using length_strip_zeros [of "\<lambda>c. c = 0" "[- (w * roots ! j), w]"]
    by (simp add: from_coefficients [OF pl])
  then have "length (naive_mul A t ?l) \<le> Suc (length t)"
    using length_naive_mul [OF pl, of t ?l] by simp
  moreover have "peval ?l x = (x - roots ! j) / (roots ! i - roots ! j)" for x
    by (simp add: from_coefficients [OF pl] w_def divide_inverse algebra_simps)
  moreover have "lagrange_factor A roots i j t = Some (naive_mul A t ?l)"
    using False assms(2) by (simp add: lagrange_factor_def Let_def w_def)
  ultimately show ?thesis
    using that [of "naive_mul A t ?l"] False by (simp add: peval_naive_mul [OF pl])
qed

text \<open>The \<open>i\<close>-th basis polynomial: one at its own point and zero at the others.\<close>

definition basis_value :: "'f::field list \<Rightarrow> nat \<Rightarrow> nat \<Rightarrow> 'f \<Rightarrow> 'f" where
  "basis_value roots n i x = (\<Prod>j<n. if i = j then 1 else (x - roots ! j) / (roots ! i - roots ! j))"

lemma basis_value_at:
  assumes "distinct roots" and "i < length roots" and "l < length roots"
  shows "basis_value roots (length roots) i (roots ! l) = (if i = l then 1 else 0)"
proof (cases "i = l")
  case True
  with assms show ?thesis
    by (auto simp: basis_value_def nth_eq_iff_index_eq intro!: prod.neutral)
next
  case False
  then have "\<exists>j\<in>{..<length roots}. (if i = j then 1 else
      (roots ! l - roots ! j) / (roots ! i - roots ! j)) = 0"
    using assms(3) by (intro bexI [of _ l]) auto
  with False show ?thesis
    unfolding basis_value_def by (simp add: prod_zero_iff)
qed

lemma summand_value:
  assumes pl: "poly_laws A" and dist: "distinct roots" and len: "length points = length roots"
    and i: "i < length points"
  obtains t where "lagrange_summand A points roots i = Some t" "length t \<le> length points"
    "\<And>x. peval t x = points ! i * basis_value roots (length points) i x"
proof -
  let ?run = "\<lambda>n. fold (\<lambda>j acc. Option.bind acc (lagrange_factor A roots i j)) [0..<n]
      (Some (from_coefficients_vec A [points ! i]))"
  have "\<exists>t. ?run n = Some t \<and> length t \<le> (if i < n then n else Suc n) \<and>
      (\<forall>x. peval t x = points ! i * basis_value roots n i x)" if "n \<le> length points" for n
    using that
  proof (induction n)
    case 0
    have "length (strip_while (\<lambda>c. c = 0) [points ! i]) \<le> 1"
      using length_strip_zeros [of "\<lambda>c. c = 0" "[points ! i]"] by simp
    then show ?case by (simp add: from_coefficients [OF pl] basis_value_def)
  next
    case (Suc n)
    then obtain t where t: "?run n = Some t" "length t \<le> (if i < n then n else Suc n)"
      "\<And>x. peval t x = points ! i * basis_value roots n i x"
      by auto
    have "i = n \<or> roots ! i \<noteq> roots ! n"
      using dist i len Suc.prems by (simp add: nth_eq_iff_index_eq)
    then obtain t' where "lagrange_factor A roots i n t = Some t'"
      "length t' \<le> (if i = n then length t else Suc (length t))"
      "\<And>x. peval t' x = peval t x * (if i = n then 1 else (x - roots ! n) / (roots ! i - roots ! n))"
      using factor_value [OF pl] by blast
    with t show ?case
      by (auto simp: basis_value_def split: if_splits)
  qed
  from this [of "length points"] i show ?thesis
    using that by (auto simp: lagrange_summand_def)
qed

lemma interpolation_value:
  assumes pl: "poly_laws A" and dist: "distinct roots" and len: "length points = length roots"
  obtains p where "lagrange_interpolate A points roots = Some p" "length p \<le> length roots"
    "\<And>l. l < length roots \<Longrightarrow> peval p (roots ! l) = points ! l"
proof -
  let ?run = "\<lambda>n. fold (\<lambda>i acc. Option.bind acc (\<lambda>result.
      map_option (poly_add A result) (lagrange_summand A points roots i))) [0..<n]
      (Some (from_coefficients_vec A [0]))"
  have "\<exists>p. ?run n = Some p \<and> length p \<le> length roots \<and>
      (\<forall>x. peval p x = (\<Sum>i<n. points ! i * basis_value roots (length roots) i x))"
    if "n \<le> length roots" for n
    using that
  proof (induction n)
    case 0
    show ?case by (simp add: from_coefficients [OF pl] strip_while_def)
  next
    case (Suc n)
    then obtain p where p: "?run n = Some p" "length p \<le> length roots"
      "\<And>x. peval p x = (\<Sum>i<n. points ! i * basis_value roots (length roots) i x)"
      by auto
    obtain t where t: "lagrange_summand A points roots n = Some t" "length t \<le> length roots"
      "\<And>x. peval t x = points ! n * basis_value roots (length roots) n x"
      using summand_value [OF pl dist len, of n] Suc.prems len by auto
    have "length (poly_add A p t) \<le> length roots"
      using length_poly_add [OF pl, of p t] p(2) t(2) by linarith
    with p t show ?case by (simp add: peval_poly_add [OF pl])
  qed
  then obtain p where p: "?run (length roots) = Some p" "length p \<le> length roots"
    "\<And>x. peval p x = (\<Sum>i<length roots. points ! i * basis_value roots (length roots) i x)"
    by blast
  have "peval p (roots ! l) = points ! l" if l: "l < length roots" for l
  proof -
    have "peval p (roots ! l) = (\<Sum>i<length roots. if i = l then points ! l else 0)"
      unfolding p(3) by (rule sum.cong) (simp_all add: basis_value_at [OF dist _ l])
    with l show ?thesis by simp
  qed
  with p that show ?thesis by (simp add: lagrange_interpolate_def len)
qed

lemma interpolation_recovers:
  assumes pl: "poly_laws A" and dist: "distinct roots" and len: "length p \<le> length roots"
  obtains q where "lagrange_interpolate A (map (peval p) roots) roots = Some q"
    "length q \<le> length roots" "\<And>x. peval q x = peval p x"
proof -
  have "length (map (peval p) roots) = length roots" by simp
  then obtain q where q: "lagrange_interpolate A (map (peval p) roots) roots = Some q"
    "length q \<le> length roots" "\<And>l. l < length roots \<Longrightarrow> peval q (roots ! l) = map (peval p) roots ! l"
    by (rule interpolation_value [OF pl dist]) (rule that)
  have card: "card (set roots) = length roots"
    using dist by (rule distinct_card)
  have agree: "peval q x = peval p x" if "x \<in> set roots" for x
    using that q(3) by (auto simp: in_set_conv_nth)
  have "peval q x = peval p x" for x
    by (rule values_determine [OF pl finite_set _ _ agree]) (use q(2) len card in simp_all)
  with q(1,2) show ?thesis by (rule that)
qed

text \<open>
  C21. Decoding recovers what encoding lost: when as many points of the encoding of a polynomial are
  left as the polynomial has coefficients, wherever the gaps are, \<open>decode\<close> returns the original
  evaluations.
\<close>

theorem rs_decode_recovers:
  assumes d: "domain_laws A K" and f: "fft_laws A K" and pl: "poly_laws A" and k: "k \<le> K"
    and points: "length points \<le> 2 ^ k"
    and known: "\<And>i v. i < length points \<Longrightarrow> points ! i = Some v \<Longrightarrow> v = rs_encode A p (2 ^ k) ! i"
    and enough: "length p \<le> length (filter (\<lambda>x. x \<noteq> None) points)"
  shows "rs_decode A n points (2 ^ k) = Some (take n (rs_encode A p (2 ^ k)))"
proof -
  define present where "present = filter (\<lambda>i. points ! i \<noteq> None) [0..<length points]"
  define roots where "roots = map (element A (2 ^ k)) present"
  have count: "length present = length (filter (\<lambda>x. x \<noteq> None) points)"
    by (simp add: present_def length_filter_conv_card cong: conj_cong)
  have le: "length present \<le> 2 ^ k"
    unfolding count by (rule order_trans [OF length_filter_le points])
  have sub: "set present \<subseteq> {..<2 ^ k}" using points by (auto simp: present_def)
  have "inj_on (element A (2 ^ k)) {..<2 ^ k}" using d k by (simp add: domain_laws_def)
  then have "inj_on (element A (2 ^ k)) (set present)"
    using sub by (rule inj_on_subset)
  moreover have "distinct present" by (simp add: present_def)
  ultimately have dist: "distinct roots"
    by (simp only: roots_def distinct_map)
  have pk: "length p \<le> 2 ^ k" using enough count le by simp
  have "the (points ! i) = peval p (element A (2 ^ k) i)" if i: "i \<in> set present" for i
  proof -
    from i obtain v where v: "points ! i = Some v" "i < length points"
      by (auto simp: present_def)
    have "v = rs_encode A p (2 ^ k) ! i" by (rule known [OF v(2,1)])
    moreover have "i < 2 ^ k" using i sub by blast
    ultimately show ?thesis
      using v(1) by (simp add: rs_encode_def fft_values [OF f k pk])
  qed
  then have vals: "map (\<lambda>i. the (points ! i)) present = map (peval p) roots"
    by (simp add: roots_def)
  have len: "length p \<le> length roots"
    using enough count by (simp add: roots_def)
  obtain q where q: "lagrange_interpolate A (map (peval p) roots) roots = Some q"
    "length q \<le> length roots" and same: "\<And>x. peval q x = peval p x"
    by (rule interpolation_recovers [OF pl dist len]) (rule that)
  from q(2) le have "length q \<le> 2 ^ k"
    by (simp add: roots_def)
  then have "fft A (2 ^ k) q = fft A (2 ^ k) p"
    by (simp only: fft_values [OF f k] pk same)
  then show ?thesis
    unfolding rs_decode_def rs_encode_def Let_def present_def [symmetric] roots_def [symmetric] vals q(1)
    by simp
qed

end
