(* ===== verification/Ark_Complex.thy ===== *)
theory Ark_Complex
  imports Kzgrs
begin

text \<open>
  The laws of \<open>Kzgrs\<close> have a model: the complex numbers as the field and as both groups, with the domains of
  one, two and four elements.
\<close>

definition c_gen :: "nat \<Rightarrow> complex" where
  "c_gen N = (if N = 4 then \<i> else if N = 2 then - 1 else 1)"

definition c_ifft :: "nat \<Rightarrow> complex list \<Rightarrow> complex list" where
  "c_ifft N es = map (\<lambda>i. peval (resize N es) (inverse (c_gen N ^ i)) / of_nat N) [0..<N]"

definition c_fft :: "nat \<Rightarrow> complex list \<Rightarrow> complex list" where
  "c_fft N xs = map (\<lambda>i. peval (resize N xs) (c_gen N ^ i)) [0..<N]"

definition c_add :: "complex list \<Rightarrow> complex list \<Rightarrow> complex list" where
  "c_add p q = map (\<lambda>k. coeff p k + coeff q k) [0..<max (length p) (length q)]"

definition c_mul :: "complex list \<Rightarrow> complex list \<Rightarrow> complex list" where
  "c_mul p q = (if q = [] then [] else foldr (\<lambda>a r. c_add (map ((*) a) q) (0 # r)) p [])"

definition le_value :: "bytes \<Rightarrow> nat" where
  "le_value b = foldr (\<lambda>x n. unat x + 256 * n) b 0"

definition ark_complex :: "(complex, complex, complex, complex) ark" where
  "ark_complex = \<lparr> domain_new = (\<lambda>n. if n \<le> 1 then Some 1 else if n \<le> 2 then Some 2 else if n \<le> 4 then Some 4 else None),
     group_gen = c_gen, fft = c_fft, interpolate = (\<lambda>N es. strip_while (\<lambda>c. c = 0) (c_ifft N es)),
     g_fft = c_fft, g_ifft = c_ifft, from_coefficients_vec = strip_while (\<lambda>c. c = 0),
     poly_add = c_add, naive_mul = c_mul, poly_div = (\<lambda>p d. map (\<lambda>k. peval (drop (Suc k) p) (- hd d)) [0..<length p - 1]),
     g1_mul = (*), g2_mul = (*), pairing = (*),
     kzg_commit = (\<lambda>ps p. if length p \<le> length ps then Ok (\<Sum>i<length p. p ! i * ps ! i)
       else Err ''TooManyCoefficients''),
     fr_from_le = (\<lambda>b. of_nat (le_value b)),
     fr_to_le = (\<lambda>x. map (\<lambda>i. of_nat (nat \<lfloor>Re x\<rfloor> div 256 ^ i)) [0..<32]) \<rparr>"

lemma fourier_pair:
  assumes "k \<le> 2" and "length xs = 2 ^ k"
  shows "c_fft (2 ^ k) (c_ifft (2 ^ k) xs) = xs" and "c_ifft (2 ^ k) (c_fft (2 ^ k) xs) = xs"
proof -
  consider "k = 0" | "k = 1" | "k = 2"
    using assms(1) by linarith
  then have "c_fft (2 ^ k) (c_ifft (2 ^ k) xs) = xs \<and> c_ifft (2 ^ k) (c_fft (2 ^ k) xs) = xs"
  proof cases
    case 1
    with assms(2) obtain a where "xs = [a]" by (auto simp: length_Suc_conv)
    with 1 show ?thesis by (simp add: c_fft_def c_ifft_def c_gen_def)
  next
    case 2
    with assms(2) obtain a b where "xs = [a, b]" by (auto simp: length_Suc_conv numeral_2_eq_2)
    with 2 show ?thesis by (simp add: c_fft_def c_ifft_def c_gen_def upt_rec field_simps)
  next
    case 3
    with assms(2) obtain a b c d where "xs = [a, b, c, d]"
      by (auto simp: length_Suc_conv eval_nat_numeral)
    with 3 show ?thesis
      by (simp add: c_fft_def c_ifft_def c_gen_def upt_rec) (simp add: complex_eq_iff field_simps)
  qed
  then show "c_fft (2 ^ k) (c_ifft (2 ^ k) xs) = xs" and "c_ifft (2 ^ k) (c_fft (2 ^ k) xs) = xs"
    by blast+
qed

lemma c_fft_resize: "c_fft N (resize N xs) = c_fft N xs" "c_ifft N (resize N xs) = c_ifft N xs"
  by (simp_all add: c_fft_def c_ifft_def)

lemma domain_laws_complex: "domain_laws ark_complex 2"
proof -
  have "inj_on (element ark_complex (2 ^ k)) {..<2 ^ k}" if "k \<le> 2" for k
  proof -
    consider "k = 0" | "k = 1" | "k = 2"
      using \<open>k \<le> 2\<close> by linarith
    then have "distinct (map (element ark_complex (2 ^ k)) [0..<2 ^ k])"
      by cases (simp_all add: upt_rec element_def ark_complex_def c_gen_def complex_eq_iff)
    then show ?thesis by (simp add: distinct_map atLeast0LessThan)
  qed
  moreover have "domain_new ark_complex (2 ^ k) = Some (2 ^ k) \<and> group_gen ark_complex (2 ^ k) ^ 2 ^ k = 1"
    if "k \<le> 2" for k
  proof -
    consider "k = 0" | "k = 1" | "k = 2"
      using \<open>k \<le> 2\<close> by linarith
    then show ?thesis
      by cases (auto simp: ark_complex_def c_gen_def power4_eq_xxxx)
  qed
  ultimately show ?thesis
    by (simp add: domain_laws_def) (simp add: ark_complex_def)
qed

lemma fft_laws_complex: "fft_laws ark_complex 2"
proof -
  have inverse: "c_fft (2 ^ k) (strip_while (\<lambda>c. c = 0) (c_ifft (2 ^ k) es)) = resize (2 ^ k) es"
    if "k \<le> 2" for k es
  proof -
    let ?s = "strip_while (\<lambda>c. c = 0) (c_ifft (2 ^ k) es)"
    have len: "length (c_ifft (2 ^ k) es) = 2 ^ k" by (simp add: c_ifft_def)
    then have "length ?s \<le> 2 ^ k"
      using length_strip_zeros [of "\<lambda>c. c = 0" "c_ifft (2 ^ k) es"] by simp
    with len have "c_fft (2 ^ k) ?s = c_fft (2 ^ k) (c_ifft (2 ^ k) es)"
      by (simp add: c_fft_def peval_resize)
    then show ?thesis
      using fourier_pair(1) [OF that, of "resize (2 ^ k) es"] by (simp add: c_fft_resize)
  qed
  have "c_ifft (2 ^ k) (c_fft (2 ^ k) gs) = resize (2 ^ k) gs" if "k \<le> 2" for k gs
    using fourier_pair(2) [OF that, of "resize (2 ^ k) gs"] by (simp add: c_fft_resize)
  moreover have "length (strip_while (\<lambda>c. c = 0) (c_ifft (2 ^ k) es)) \<le> 2 ^ k" for k es
    using length_strip_zeros [of "\<lambda>c. c = 0" "c_ifft (2 ^ k) es"] by (simp add: c_ifft_def)
  moreover have "strip_while (\<lambda>c. c = 0) es \<noteq> [] \<longrightarrow> last (strip_while (\<lambda>c. c = 0) es) \<noteq> 0"
    for es :: "complex list"
    using hd_dropWhile [of "\<lambda>c. c = 0" "rev es"] by (simp add: strip_while_def last_rev)
  ultimately show ?thesis
    using inverse
    by (simp add: fft_laws_def ark_complex_def element_def) (simp add: c_fft_def peval_def mult.commute)
qed

lemma length_c_add: "length (c_add p q) = max (length p) (length q)"
  by (simp add: c_add_def)

lemma coeff_c_add: "coeff (c_add p q) k = coeff p k + coeff q k"
proof (cases "k < max (length p) (length q)")
  case False
  then show ?thesis by (simp add: coeff_beyond length_c_add not_less)
qed (simp add: c_add_def coeff_map_upt)

lemma peval_c_add: "peval (c_add p q) x = peval p x + peval q x"
proof -
  let ?n = "max (length p) (length q)"
  have "peval (c_add p q) x = (\<Sum>i<?n. coeff (c_add p q) i * x ^ i)"
    by (rule peval_coeff) (simp add: length_c_add)
  then show ?thesis
    by (simp add: coeff_c_add algebra_simps sum.distrib peval_coeff [of p ?n] peval_coeff [of q ?n])
qed

lemma peval_scaled: "peval (map ((*) a) q) x = a * peval q x"
  by (induction q) (simp_all add: algebra_simps)

lemma poly_laws_complex: "poly_laws ark_complex"
proof -
  have "length (c_mul p q) \<le> length p + length q - 1" for p q
  proof (cases "q = []")
    case False
    then have "length (foldr (\<lambda>a r. c_add (map ((*) a) q) (0 # r)) p []) \<le> length p + length q - 1"
      by (cases q; induction p) (auto simp: length_c_add)
    with False show ?thesis by (simp add: c_mul_def)
  qed (simp add: c_mul_def)
  moreover have "peval (c_mul p q) x = peval p x * peval q x" for p q x
  proof (cases "q = []")
    case False
    have "peval (foldr (\<lambda>a r. c_add (map ((*) a) q) (0 # r)) p []) x = peval p x * peval q x"
      by (induction p) (simp_all add: peval_c_add peval_scaled algebra_simps)
    with False show ?thesis by (simp add: c_mul_def)
  qed (simp add: c_mul_def)
  moreover have "\<exists>r. \<forall>k. coeff p k =
      (\<Sum>i\<le>k. coeff (map (\<lambda>k. peval (drop (Suc k) p) u) [0..<length p - 1]) i * coeff [- u, 1] (k - i)) +
      coeff [r] k" for p and u :: complex
  proof -
    have q: "coeff (map (\<lambda>k. peval (drop (Suc k) p) u) [0..<length p - 1]) i = peval (drop (Suc i) p) u" for i
      by (cases "i < length p - 1") (auto simp: coeff_map_upt coeff_def)
    have "coeff p k = peval (drop k p) u - u * peval (drop (Suc k) p) u" for k
      by (cases "k < length p") (auto simp: coeff_def simp flip: Cons_nth_drop_Suc)
    then show ?thesis
      unfolding q linear_convolution
      by (intro exI [of _ "peval p u"] allI) (auto simp: coeff_Cons algebra_simps split: nat.splits)
  qed
  ultimately show ?thesis
    by (simp add: poly_laws_def ark_complex_def length_c_add coeff_c_add)
qed

lemma le_value_digit: "word_of_nat (le_value b div 256 ^ i) = (if i < length b then b ! i else (0 :: u8))"
proof (induction b arbitrary: i)
  case Nil
  then show ?case by (simp add: le_value_def)
next
  case (Cons x b)
  have eq: "le_value (x # b) = unat x + 256 * le_value b"
    by (simp add: le_value_def)
  have small: "unat x < 256"
    using unsigned_less [of x] by simp
  show ?case
  proof (cases i)
    case 0
    have "word_of_nat (256 * le_value b) = (0 :: u8)"
      by (subst word_of_nat_eq_0_iff) simp
    with 0 eq show ?thesis by simp
  next
    case (Suc j)
    have "(unat x + 256 * le_value b) div 256 ^ Suc j = (unat x + 256 * le_value b) div 256 div 256 ^ j"
      by (simp add: div_mult2_eq)
    also have "\<dots> = le_value b div 256 ^ j"
      using small by simp
    finally show ?thesis
      using Suc eq Cons.IH [of j] by simp
  qed
qed

lemma bytes_laws_complex: "bytes_laws ark_complex"
proof -
  have "map (\<lambda>i. word_of_nat (le_value b div 256 ^ i)) [0..<32] = b @ replicate (32 - length b) (0 :: u8)"
    if "length b \<le> 31" for b
    using that by (intro nth_equalityI) (auto simp: le_value_digit nth_append)
  moreover have "le_value (b @ [0]) = le_value b" for b
    by (simp add: le_value_def)
  ultimately show ?thesis
    by (simp add: bytes_laws_def ark_complex_def le_value_def)
qed

lemma group_laws_complex: "group_laws ark_complex" and pairing_laws_complex: "pairing_laws ark_complex"
  by (auto simp: group_laws_def pairing_laws_def ark_complex_def module_def algebra_simps)

subsection \<open>The theorems at this instance\<close>

lemma setup_complex: "setup_with ark_complex 3 \<lparr> powers_of_g = [1, 3, 9, 27], param_h = 2, beta_h = 6 \<rparr>"
proof -
  have "[1, 3, 9, 27] ! j = (3 :: complex) ^ j" if "j < 4" for j :: nat
  proof -
    consider "j = 0" | "j = 1" | "j = 2" | "j = 3" using \<open>j < 4\<close> by linarith
    then show ?thesis by cases simp_all
  qed
  then show ?thesis by (simp add: setup_with_def ark_complex_def)
qed

theorem fk20_generates_element_proofs_witness:
  "\<exists>ps. fk20_batch_generate_elements_proofs ark_complex [5, 7]
      \<lparr> powers_of_g = [1, 3, 9, 27], param_h = 2, beta_h = 6 \<rparr> None = Some ps \<and> length ps = 2 \<and>
    (\<forall>i < 2. generate_element_proof ark_complex i [5, 7] (rs_encode ark_complex [5, 7] 2)
      \<lparr> powers_of_g = [1, 3, 9, 27], param_h = 2, beta_h = (6 :: complex) \<rparr> 2 = Ok (ps ! i))"
  using fk20_generates_element_proofs [OF domain_laws_complex fft_laws_complex poly_laws_complex
      group_laws_complex, of 1 "[5, 7]" "\<lparr> powers_of_g = [1, 3, 9, 27], param_h = 2, beta_h = 6 \<rparr>" None]
  by simp

theorem rs_decode_recovers_witness:
  "rs_decode ark_complex 4 [None, Some (rs_encode ark_complex [5, 7] 4 ! 1), None,
      Some (rs_encode ark_complex [5, 7] 4 ! 3)] 4 = Some (rs_encode ark_complex [5, 7] 4)"
proof -
  let ?points = "[None, Some (rs_encode ark_complex [5, 7] 4 ! 1), None,
      Some (rs_encode ark_complex [5, 7] 4 ! 3)]"
  have known: "v = rs_encode ark_complex [5, 7] (2 ^ 2) ! i" if i: "i < length ?points" and v: "?points ! i = Some v" for i v
  proof -
    from i have "i < 4" by simp
    then consider "i = 0" | "i = 1" | "i = 2" | "i = 3" by linarith
    then show ?thesis using v by cases simp_all
  qed
  have "rs_decode ark_complex 4 ?points (2 ^ 2) = Some (take 4 (rs_encode ark_complex [5, 7] (2 ^ 2)))"
    by (rule rs_decode_recovers [OF domain_laws_complex fft_laws_complex poly_laws_complex _ _ known]) simp_all
  moreover have "length (rs_encode ark_complex [5, 7] 4) = 4"
    unfolding rs_encode_def ark_complex_def c_fft_def by simp
  ultimately show ?thesis by simp
qed

end
