(* ===== verification/Da_Encoding.thy ===== *)
theory Da_Encoding
  imports Ark_Complex "HOL-Library.Product_Lexorder" "HOL-Library.Multiset"
begin

text \<open>
  The data availability encoding of \<open>nomos-da/kzgrs-backend\<close>: the matrix of chunks
  (\<open>common/mod.rs\<close>), shares (\<open>common/share.rs\<close>), the encoder (\<open>encoder.rs\<close>), the verifier
  (\<open>verifier.rs\<close>), the reconstruction of data from shares (\<open>reconstruction.rs\<close>), and the verifier
  service of \<open>nomos-services/data-availability/verifier\<close> that keeps the shares it has verified.

  Hash functions and the serialisation of a commitment are the fields of \<open>da_hashes\<close>; the iterators
  run in order (the feature \<open>parallel\<close> only changes who computes which element). A value of an
  option type is \<open>None\<close> when the call panics.
\<close>

subsection \<open>Chunks, rows and columns\<close>

type_synonym chunk = bytes
type_synonym chunks_matrix = "chunk list list"

definition as_bytes :: "chunk list \<Rightarrow> bytes" where
  "as_bytes row = concat row"

definition columns :: "chunks_matrix \<Rightarrow> chunk list list" where
  "columns m =
     (let size = (case m of [] \<Rightarrow> 0 | r # _ \<Rightarrow> length r) in
      map (\<lambda>i. map (\<lambda>row. if i < length row then row ! i else []) m) [0..<size])"

definition transposed :: "chunks_matrix \<Rightarrow> chunks_matrix" where
  "transposed m = columns m"

subsection \<open>Hashes of commitments\<close>

record 'g da_hashes =
  serialize_uncompressed :: "'g \<Rightarrow> bytes"
  blake2b_var :: "nat \<Rightarrow> bytes \<Rightarrow> bytes"
  sha3_256 :: "bytes \<Rightarrow> bytes"

text \<open>The variable hash has the size it was created with.\<close>

definition hash_laws :: "'g da_hashes \<Rightarrow> bool" where
  "hash_laws H \<longleftrightarrow> (\<forall>n b. length (blake2b_var H n b) = n)"

definition commitment_to_bytes :: "'g da_hashes \<Rightarrow> 'g \<Rightarrow> bytes" where
  "commitment_to_bytes H c = serialize_uncompressed H c"

definition hash_commitment :: "'g da_hashes \<Rightarrow> nat \<Rightarrow> 'g \<Rightarrow> bytes option" where
  "hash_commitment H hash_size c =
     (let h = blake2b_var H hash_size (commitment_to_bytes H c) in
      if length h = hash_size then Some h else None)"

definition build_blob_id :: "'g da_hashes \<Rightarrow> 'g \<Rightarrow> 'g list \<Rightarrow> bytes" where
  "build_blob_id H aggregated_column_commitment rows_commitments =
     sha3_256 H (concat (map (commitment_to_bytes H) (aggregated_column_commitment # rows_commitments)))"

subsection \<open>Shares\<close>

record 'g da_share =
  ds_column :: "chunk list"
  ds_share_idx :: u16
  ds_column_commitment :: 'g
  ds_aggregated_column_commitment :: 'g
  ds_aggregated_column_proof :: 'g
  ds_rows_commitments :: "'g list"
  ds_rows_proofs :: "'g list"

record 'g da_light_share =
  dl_share_idx :: u16
  dl_column :: "chunk list"
  dl_column_commitment :: 'g
  dl_aggregated_column_proof :: 'g
  dl_rows_proofs :: "'g list"

record 'g da_shares_commitments =
  dc_aggregated_column_commitment :: 'g
  dc_rows_commitments :: "'g list"

definition share_blob_id :: "'g da_hashes \<Rightarrow> 'g da_share \<Rightarrow> bytes" where
  "share_blob_id H s = build_blob_id H (ds_aggregated_column_commitment s) (ds_rows_commitments s)"

definition column_id :: "'g da_hashes \<Rightarrow> 'g da_share \<Rightarrow> bytes" where
  "column_id H s = sha3_256 H (as_bytes (ds_column s))"

definition column_len :: "'g da_share \<Rightarrow> nat" where
  "column_len s = length (as_bytes (ds_column s))"

definition into_share_and_commitments :: "'g da_share \<Rightarrow> 'g da_light_share \<times> 'g da_shares_commitments" where
  "into_share_and_commitments s =
     (\<lparr> dl_share_idx = ds_share_idx s, dl_column = ds_column s, dl_column_commitment = ds_column_commitment s,
        dl_aggregated_column_proof = ds_aggregated_column_proof s, dl_rows_proofs = ds_rows_proofs s \<rparr>,
      \<lparr> dc_aggregated_column_commitment = ds_aggregated_column_commitment s,
        dc_rows_commitments = ds_rows_commitments s \<rparr>)"

definition from_share_and_commitments :: "'g da_light_share \<Rightarrow> 'g da_shares_commitments \<Rightarrow> 'g da_share" where
  "from_share_and_commitments l c =
     \<lparr> ds_column = dl_column l, ds_share_idx = dl_share_idx l, ds_column_commitment = dl_column_commitment l,
       ds_aggregated_column_commitment = dc_aggregated_column_commitment c,
       ds_aggregated_column_proof = dl_aggregated_column_proof l,
       ds_rows_commitments = dc_rows_commitments c, ds_rows_proofs = dl_rows_proofs l \<rparr>"

subsection \<open>The encoder\<close>

definition MAX_BLS12_381_ENCODING_CHUNK_SIZE :: nat where "MAX_BLS12_381_ENCODING_CHUNK_SIZE = 31"

record ('g, 'h) da_encoder_params =
  column_count :: nat
  toeplitz1cache :: "'g list option"
  encoder_parameters :: "('g, 'h) global_parameters"

definition encoder_params_new ::
    "('f, 'g::zero, 'h, 't) ark \<Rightarrow> nat \<Rightarrow> bool \<Rightarrow> ('g, 'h) global_parameters \<Rightarrow> ('g, 'h) da_encoder_params option" where
  "encoder_params_new A cols with_cache gp =
     (if with_cache
      then map_option (\<lambda>c. \<lparr> column_count = cols, toeplitz1cache = Some c, encoder_parameters = gp \<rparr>)
             (with_size A gp cols)
      else Some \<lparr> column_count = cols, toeplitz1cache = None, encoder_parameters = gp \<rparr>)"

record 'g encoded_data =
  ed_data :: bytes
  ed_chunked_data :: chunks_matrix
  ed_extended_data :: chunks_matrix
  ed_row_commitments :: "'g list"
  ed_rows_proofs :: "'g list list"
  ed_column_commitments :: "'g list"
  ed_aggregated_column_commitment :: 'g
  ed_aggregated_column_proofs :: "'g list"

text \<open>\<open>copy_from_slice\<close> panics on a slice of another length, \<open>chunks\<close> on the size zero.\<close>

definition chunkify :: "('g, 'h) da_encoder_params \<Rightarrow> bytes \<Rightarrow> chunks_matrix option" where
  "chunkify P data =
     (let chunk_size = column_count P div 2 * MAX_BLS12_381_ENCODING_CHUNK_SIZE in
      if chunk_size = 0 then None
      else those (map (\<lambda>d. those (map (\<lambda>c.
               if length c = MAX_BLS12_381_ENCODING_CHUNK_SIZE then Some (c @ [0]) else None)
             (chunks MAX_BLS12_381_ENCODING_CHUNK_SIZE d)))
           (chunks chunk_size data)))"

text \<open>\<open>collect\<close> into a \<open>Result\<close>.\<close>

primrec collect_result :: "('e, 'a) outcome list \<Rightarrow> ('e, 'a list) outcome" where
  "collect_result [] = Ok []"
| "collect_result (x # xs) =
     bind_outcome x (\<lambda>a. bind_outcome (collect_result xs) (\<lambda>as. Ok (a # as)))"

definition compute_kzg_row_commitments ::
    "('f, 'g, 'h, 't) ark \<Rightarrow> ('g, 'h) global_parameters \<Rightarrow> chunks_matrix \<Rightarrow> nat \<Rightarrow>
     (kzg_rs_error, (('f list \<times> 'f list) \<times> 'g) list) outcome" where
  "compute_kzg_row_commitments A gp matrix domain =
     collect_result (map (\<lambda>r.
       bind_outcome (expect (bytes_to_polynomial_unchecked A BYTES_PER_FIELD_ELEMENT (as_bytes r) domain))
         (\<lambda>(evals, poly). bind_outcome (commit_polynomial A poly gp)
            (\<lambda>commitment. Ok ((evals, poly), commitment)))) matrix)"

definition rs_encode_rows :: "('f, 'g, 'h, 't) ark \<Rightarrow> 'f list list \<Rightarrow> nat \<Rightarrow> 'f list list" where
  "rs_encode_rows A rows domain = map (\<lambda>poly. rs_encode A poly domain) rows"

definition compute_rows_proofs ::
    "('f::field, 'g::ab_group_add, 'h, 't) ark \<Rightarrow> ('g, 'h) global_parameters \<Rightarrow> 'f list list \<Rightarrow>
     'g list option \<Rightarrow> 'g list list option" where
  "compute_rows_proofs A gp polynomials cache =
     those (map (\<lambda>poly. fk20_batch_generate_elements_proofs A poly gp cache) polynomials)"

definition compute_kzg_column_commitments ::
    "('f, 'g, 'h, 't) ark \<Rightarrow> ('g, 'h) global_parameters \<Rightarrow> chunks_matrix \<Rightarrow> nat \<Rightarrow>
     (kzg_rs_error, (('f list \<times> 'f list) \<times> 'g) list) outcome" where
  "compute_kzg_column_commitments A gp matrix domain =
     compute_kzg_row_commitments A gp (transposed matrix) domain"

definition compute_aggregated_column_commitment ::
    "('f, 'g, 'h, 't) ark \<Rightarrow> 'g da_hashes \<Rightarrow> ('g, 'h) global_parameters \<Rightarrow> 'g list \<Rightarrow> nat \<Rightarrow>
     (kzg_rs_error, ('f list \<times> 'f list) \<times> 'g) outcome" where
  "compute_aggregated_column_commitment A H gp commitments domain =
     bind_outcome (expect (those (map (hash_commitment H MAX_BLS12_381_ENCODING_CHUNK_SIZE) commitments)))
       (\<lambda>hashes.
     bind_outcome (bytes_to_polynomial A MAX_BLS12_381_ENCODING_CHUNK_SIZE (concat hashes) domain)
       (\<lambda>(evals, poly).
     bind_outcome (commit_polynomial A poly gp) (\<lambda>commitment. Ok ((evals, poly), commitment))))"

definition evals_to_chunk_matrix :: "('f, 'g, 'h, 't) ark \<Rightarrow> 'f list list \<Rightarrow> chunks_matrix" where
  "evals_to_chunk_matrix A evals = map (map (fr_to_le A)) evals"

definition da_encode ::
    "('f::field, 'g::ab_group_add, 'h, 't) ark \<Rightarrow> 'g da_hashes \<Rightarrow> ('g, 'h) da_encoder_params \<Rightarrow> bytes \<Rightarrow>
     (kzg_rs_error, 'g encoded_data) outcome" where
  "da_encode A H P data =
     (let gp = encoder_parameters P in
      bind_outcome (expect (chunkify P data)) (\<lambda>chunked_data.
      bind_outcome (expect (domain_new A (column_count P))) (\<lambda>row_domain.
      bind_outcome (expect (domain_new A (length chunked_data))) (\<lambda>column_domain.
      bind_outcome (compute_kzg_row_commitments A gp chunked_data row_domain) (\<lambda>rows.
      let row_polynomials = map (snd \<circ> fst) rows;
          row_commitments = map snd rows;
          encoded_evaluations = rs_encode_rows A row_polynomials row_domain;
          extended_data = evals_to_chunk_matrix A encoded_evaluations in
      bind_outcome (expect (compute_rows_proofs A gp row_polynomials (toeplitz1cache P))) (\<lambda>rows_proofs.
      bind_outcome (compute_kzg_column_commitments A gp extended_data column_domain) (\<lambda>cols.
      let column_commitments = map snd cols in
      bind_outcome (compute_aggregated_column_commitment A H gp column_commitments row_domain)
        (\<lambda>((_, aggregated_polynomial), aggregated_column_commitment).
      bind_outcome
        (expect (fk20_batch_generate_elements_proofs A aggregated_polynomial gp (toeplitz1cache P)))
        (\<lambda>aggregated_column_proofs.
      Ok \<lparr> ed_data = data, ed_chunked_data = chunked_data, ed_extended_data = extended_data,
           ed_row_commitments = row_commitments, ed_rows_proofs = rows_proofs,
           ed_column_commitments = column_commitments,
           ed_aggregated_column_commitment = aggregated_column_commitment,
           ed_aggregated_column_proofs = aggregated_column_proofs \<rparr>)))))))))"

text \<open>Indexing and the \<open>unwrap\<close>s panic; an index without a column gives no share.\<close>

definition nth_opt :: "'a list \<Rightarrow> nat \<Rightarrow> 'a option" where
  "nth_opt xs i = (if i < length xs then Some (xs ! i) else None)"

definition to_da_share :: "'g encoded_data \<Rightarrow> nat \<Rightarrow> 'g da_share option option" where
  "to_da_share e index =
     (case nth_opt (columns (ed_extended_data e)) index of
        None \<Rightarrow> Some None
      | Some column \<Rightarrow>
          if 2 ^ 16 \<le> index then None
          else
            Option.bind (nth_opt (ed_column_commitments e) index) (\<lambda>column_commitment.
            Option.bind (nth_opt (ed_aggregated_column_proofs e) index) (\<lambda>aggregated_column_proof.
            Option.bind (those (map (\<lambda>proofs. nth_opt proofs index) (ed_rows_proofs e))) (\<lambda>rows_proofs.
            Some (Some \<lparr> ds_column = column, ds_share_idx = word_of_nat index,
              ds_column_commitment = column_commitment,
              ds_aggregated_column_commitment = ed_aggregated_column_commitment e,
              ds_aggregated_column_proof = aggregated_column_proof,
              ds_rows_commitments = ed_row_commitments e, ds_rows_proofs = rows_proofs \<rparr>)))))"

text \<open>The iterators over the shares: the encoded data and the next index.\<close>

definition encoded_data_next :: "'g encoded_data \<times> nat \<Rightarrow> ('g da_share option \<times> ('g encoded_data \<times> nat)) option" where
  "encoded_data_next it =
     (case it of (e, next_index) \<Rightarrow>
        map_option (\<lambda>share. case share of None \<Rightarrow> (None, it) | Some s \<Rightarrow> (Some s, (e, next_index + 1)))
          (to_da_share e next_index))"

subsection \<open>The verifier\<close>

definition verify_column ::
    "('f::field, 'g::ab_group_add, 'h::ab_group_add, 't) ark \<Rightarrow> 'g da_hashes \<Rightarrow> ('g, 'h) global_parameters \<Rightarrow>
     chunk list \<Rightarrow> 'g \<Rightarrow> 'g \<Rightarrow> 'g \<Rightarrow> nat \<Rightarrow> nat \<Rightarrow> bool option" where
  "verify_column A H gp column column_commitment aggregated_column_commitment aggregated_column_proof
       index rows_domain =
     Option.bind (domain_new A (length column)) (\<lambda>column_domain.
     case bytes_to_polynomial A BYTES_PER_FIELD_ELEMENT (as_bytes column) column_domain of
       Abort \<Rightarrow> None
     | Err e \<Rightarrow> Some False
     | Ok (evals, polynomial) \<Rightarrow>
         (case commit_polynomial A polynomial gp of
            Abort \<Rightarrow> None
          | Err e \<Rightarrow> Some False
          | Ok computed_column_commitment \<Rightarrow>
              if computed_column_commitment \<noteq> column_commitment then Some False
              else
                Option.bind (hash_commitment H MAX_BLS12_381_ENCODING_CHUNK_SIZE column_commitment)
                  (\<lambda>commitment_hash.
                Option.bind (field_element_from_bytes_le A commitment_hash) (\<lambda>elem.
                verify_element_proof A index elem aggregated_column_commitment aggregated_column_proof
                  rows_domain gp))))"

definition verify_chunk ::
    "('f::field, 'g::ab_group_add, 'h::ab_group_add, 't) ark \<Rightarrow> ('g, 'h) global_parameters \<Rightarrow>
     chunk \<Rightarrow> 'g \<Rightarrow> 'g \<Rightarrow> nat \<Rightarrow> nat \<Rightarrow> bool option" where
  "verify_chunk A gp chunk commitment proof' index domain =
     Option.bind (field_element_from_bytes_le A chunk) (\<lambda>elem.
     verify_element_proof A index elem commitment proof' domain gp)"

fun verify_chunk_loop ::
    "('f::field, 'g::ab_group_add, 'h::ab_group_add, 't) ark \<Rightarrow> ('g, 'h) global_parameters \<Rightarrow>
     (chunk \<times> 'g \<times> 'g) list \<Rightarrow> nat \<Rightarrow> nat \<Rightarrow> bool option" where
  "verify_chunk_loop A gp [] index domain = Some True"
| "verify_chunk_loop A gp ((chunk, commitment, proof') # rest) index domain =
     Option.bind (verify_chunk A gp chunk commitment proof' index domain) (\<lambda>ok.
     if \<not> ok then Some False else verify_chunk_loop A gp rest index domain)"

definition verify_chunks ::
    "('f::field, 'g::ab_group_add, 'h::ab_group_add, 't) ark \<Rightarrow> ('g, 'h) global_parameters \<Rightarrow>
     chunk list \<Rightarrow> 'g list \<Rightarrow> 'g list \<Rightarrow> nat \<Rightarrow> nat \<Rightarrow> bool option" where
  "verify_chunks A gp cs commitments proofs index domain =
     (if \<not> (length cs = length commitments \<and> length commitments = length proofs) then Some False
      else verify_chunk_loop A gp (zip cs (zip commitments proofs)) index domain)"

definition da_verify ::
    "('f::field, 'g::ab_group_add, 'h::ab_group_add, 't) ark \<Rightarrow> 'g da_hashes \<Rightarrow> ('g, 'h) global_parameters \<Rightarrow>
     'g da_shares_commitments \<Rightarrow> 'g da_light_share \<Rightarrow> nat \<Rightarrow> bool option" where
  "da_verify A H gp commitments light_share rows_domain_size =
     Option.bind (domain_new A rows_domain_size) (\<lambda>rows_domain.
     let index = unat (dl_share_idx light_share) in
     Option.bind (verify_column A H gp (dl_column light_share) (dl_column_commitment light_share)
         (dc_aggregated_column_commitment commitments) (dl_aggregated_column_proof light_share)
         index rows_domain) (\<lambda>is_column_verified.
     if \<not> is_column_verified then Some False
     else
       Option.bind (verify_chunks A gp (dl_column light_share) (dc_rows_commitments commitments)
           (dl_rows_proofs light_share) index rows_domain) (\<lambda>are_chunks_verified.
       if \<not> are_chunks_verified then Some False else Some True)))"

subsection \<open>Reconstruction\<close>

text \<open>
  The order of elements with the same key is not specified by \<open>sort_unstable_by_key\<close>; the keys of
  shares with different indices are different.
\<close>

definition reconstruct_without_missing_data :: "'g da_share list \<Rightarrow> bytes option" where
  "reconstruct_without_missing_data shares =
     (let data = concat (map (\<lambda>share.
            map (\<lambda>(row, d). ((row, unat (ds_share_idx share)), d)) (enumerate 0 (ds_column share))) shares);
          sorted_data = sort_key fst data
      in map_option concat (those (map (\<lambda>(_, d).
           if length d = BYTES_PER_FIELD_ELEMENT then Some (butlast d) else None) sorted_data)))"

subsection \<open>The verifier service\<close>

datatype verifier_error = VerificationError | StorageError

type_synonym 'g share_store = "bytes \<times> bytes \<rightharpoonup> 'g da_light_share \<times> 'g da_shares_commitments"

text \<open>
  \<open>KzgrsDaVerifier\<close>, and \<open>handle_new_share\<close> with the answers of the storage as arguments: whether
  the look-up and the insertion work.
\<close>

record ('g, 'h) kzgrs_da_verifier =
  kv_parameters :: "('g, 'h) global_parameters"
  kv_domain_size :: nat

definition kzgrs_verify ::
    "('f::field, 'g::ab_group_add, 'h::ab_group_add, 't) ark \<Rightarrow> 'g da_hashes \<Rightarrow> ('g, 'h) kzgrs_da_verifier \<Rightarrow>
     'g da_shares_commitments \<Rightarrow> 'g da_light_share \<Rightarrow> (verifier_error, unit) outcome" where
  "kzgrs_verify A H v commitments light_share =
     bind_outcome (expect (da_verify A H (kv_parameters v) commitments light_share (kv_domain_size v)))
       (\<lambda>ok. if ok then Ok () else Err VerificationError)"

definition handle_new_share ::
    "('f::field, 'g::ab_group_add, 'h::ab_group_add, 't) ark \<Rightarrow> 'g da_hashes \<Rightarrow> ('g, 'h) kzgrs_da_verifier \<Rightarrow>
     bool \<times> bool \<Rightarrow> 'g share_store \<Rightarrow> 'g da_share \<Rightarrow> (verifier_error, unit) outcome \<times> 'g share_store" where
  "handle_new_share A H v io storage share =
     (let key = (share_blob_id H share, be_bytes 2 (ds_share_idx share)) in
      if \<not> fst io then (Err StorageError, storage)
      else if storage key \<noteq> None then (Ok (), storage)
      else
        let (light_share, commitments) = into_share_and_commitments share in
        case kzgrs_verify A H v commitments light_share of
          Ok _ \<Rightarrow>
            if snd io then (Ok (), storage(key \<mapsto> (light_share, commitments)))
            else (Err StorageError, storage)
        | r \<Rightarrow> (r, storage))"

text \<open>
  One turn of the loop of the service: a share from the network, a share to add, or a share to
  check, with the reply it sends. \<open>None\<close> is a turn that panics.
\<close>

datatype 'g verifier_event =
    NetworkShare "'g da_share" "bool \<times> bool"
  | AddShare "'g da_share" "bool \<times> bool"
  | VerifyShare "'g da_shares_commitments" "'g da_light_share"

datatype verifier_reply = NoReply | Attestation "unit option" | Verified "(verifier_error, unit) outcome"

definition verifier_step ::
    "('f::field, 'g::ab_group_add, 'h::ab_group_add, 't) ark \<Rightarrow> 'g da_hashes \<Rightarrow> ('g, 'h) kzgrs_da_verifier \<Rightarrow>
     'g share_store \<Rightarrow> 'g verifier_event \<Rightarrow> (verifier_reply \<times> 'g share_store) option" where
  "verifier_step A H v storage event =
     (case event of
        NetworkShare share io \<Rightarrow>
          (case handle_new_share A H v io storage share of
             (Abort, _) \<Rightarrow> None
           | (_, storage') \<Rightarrow> Some (NoReply, storage'))
      | AddShare share io \<Rightarrow>
          (case handle_new_share A H v io storage share of
             (Abort, _) \<Rightarrow> None
           | (Ok attestation, storage') \<Rightarrow> Some (Attestation (Some attestation), storage')
           | (Err e, storage') \<Rightarrow> Some (Attestation None, storage'))
      | VerifyShare commitments light_share \<Rightarrow>
          (case kzgrs_verify A H v commitments light_share of
             Abort \<Rightarrow> None
           | r \<Rightarrow> Some (Verified r, storage)))"

subsection \<open>Splitting and joining bytes\<close>

lemma chunks_Nil [simp]: "chunks n [] = []"
  by (simp add: chunks.simps)

lemma concat_chunks: "0 < n \<Longrightarrow> concat (chunks n xs) = xs"
proof (induction n xs rule: chunks.induct)
  case (1 n xs)
  then show ?case by (cases "xs = []") (simp_all add: chunks.simps [of n xs])
qed

lemma chunks_bound: "c \<in> set (chunks n xs) \<Longrightarrow> c \<noteq> [] \<and> length c \<le> n"
proof (induction n xs rule: chunks.induct)
  case (1 n xs)
  show ?case
  proof (cases "xs = [] \<or> n = 0")
    case False
    with 1 show ?thesis by (auto simp: chunks.simps [of n xs])
  qed (use 1 in \<open>simp add: chunks.simps [of n xs]\<close>)
qed

lemma chunks_exact:
  assumes "n dvd length xs" and "c \<in> set (chunks n xs)"
  shows "length c = n"
  using assms
proof (induction n xs rule: chunks.induct)
  case (1 n xs)
  show ?case
  proof (cases "xs = [] \<or> n = 0")
    case False
    with 1(2) have le: "n \<le> length xs" by (auto dest: dvd_imp_le)
    then have "n dvd length (drop n xs)" using 1(2) by (simp add: dvd_diff_nat)
    with 1 False le show ?thesis by (auto simp: chunks.simps [of n xs])
  qed (use 1 in \<open>simp add: chunks.simps [of n xs]\<close>)
qed

lemma chunks_concat:
  assumes "0 < n" and "\<And>c. c \<in> set cs \<Longrightarrow> length c = n"
  shows "chunks n (concat cs) = cs"
  using assms(2)
proof (induction cs)
  case (Cons c cs)
  then have "c \<noteq> []" and "length c = n" using assms(1) by auto
  with Cons assms(1) show ?case by (simp add: chunks.simps [of n "c @ concat cs"])
qed (simp add: chunks.simps)

lemma length_concat_exact:
  assumes "\<And>c. c \<in> set cs \<Longrightarrow> length c = n"
  shows "length (concat cs) = n * length cs"
  using assms by (induction cs) simp_all

lemma length_chunks_le:
  assumes "0 < n" and "length xs \<le> m * n"
  shows "length (chunks n xs) \<le> m"
  using assms(2)
proof (induction m arbitrary: xs)
  case 0
  then show ?case by (simp add: chunks.simps)
next
  case (Suc m)
  then have "length (drop n xs) \<le> m * n" by simp
  then have "length (chunks n (drop n xs)) \<le> m" by (rule Suc.IH)
  then show ?case by (simp add: chunks.simps [of n xs])
qed

lemma map_eq_map_iff: "map f xs = map g ys \<longleftrightarrow> list_all2 (\<lambda>x y. f x = g y) xs ys"
  by (simp add: list_all2_eq list.rel_map)

lemma collect_result_Ok: "collect_result xs = Ok ys \<longleftrightarrow> xs = map Ok ys"
proof (induction xs arbitrary: ys)
  case (Cons x xs)
  then show ?case by (cases ys) auto
qed auto

subsection \<open>The chunks of the data\<close>

definition data_chunk :: "chunk \<Rightarrow> bool" where
  "data_chunk c \<longleftrightarrow> length c = 32 \<and> last c = 0"

definition zero_chunk :: chunk where "zero_chunk = replicate 32 0"

lemma data_chunk_cases:
  assumes "data_chunk c"
  obtains b where "length b = 31" "c = b @ [0]"
proof -
  from assms have nonempty: "c \<noteq> []" and last: "last c = 0" and len: "length c = 32"
    by (auto simp: data_chunk_def)
  then have "c = butlast c @ [0]"
    using append_butlast_last_id [OF nonempty] by simp
  then show ?thesis
    by (intro that [of "butlast c"]) (use len in simp_all)
qed

lemma those_map_Some_iff:
  assumes "\<And>d r. g d = Some r \<longleftrightarrow> Q d \<and> r = F d"
  shows "those (map g ds) = Some m \<longleftrightarrow> (\<forall>d \<in> set ds. Q d) \<and> m = map F ds"
proof (induction ds arbitrary: m)
  case (Cons d ds)
  then show ?case using assms [of d] by (cases "g d") auto
qed auto

lemma chunkify_Some_iff:
  fixes P :: "('g, 'h) da_encoder_params"
  defines "h \<equiv> column_count P div 2"
  shows "chunkify P data = Some m \<longleftrightarrow> 0 < h \<and>
    (\<forall>d \<in> set (chunks (h * 31) data). \<forall>c \<in> set (chunks 31 d). length c = 31) \<and>
    m = map (\<lambda>d. map (\<lambda>c. c @ [0]) (chunks 31 d)) (chunks (h * 31) data)"
proof -
  have "those (map (\<lambda>c. if length c = 31 then Some (c @ [0]) else None) (chunks 31 d)) = Some r \<longleftrightarrow>
      (\<forall>c \<in> set (chunks 31 d). length c = 31) \<and> r = map (\<lambda>c. c @ [0]) (chunks 31 d)" for d :: bytes and r
    by (rule those_map_Some_iff) auto
  then have "those (map (\<lambda>d. those (map (\<lambda>c. if length c = 31 then Some (c @ [0]) else None) (chunks 31 d)))
        (chunks (h * 31) data)) = Some m \<longleftrightarrow>
      (\<forall>d \<in> set (chunks (h * 31) data). \<forall>c \<in> set (chunks 31 d). length c = 31) \<and>
      m = map (\<lambda>d. map (\<lambda>c. c @ [0]) (chunks 31 d)) (chunks (h * 31) data)"
    by (rule those_map_Some_iff)
  then show ?thesis
    by (simp add: chunkify_def h_def MAX_BLS12_381_ENCODING_CHUNK_SIZE_def Let_def)
qed

lemma chunkify_row:
  assumes "chunkify P data = Some m" and "r \<in> set m"
  shows "r \<noteq> []" and "length r \<le> column_count P div 2" and "\<And>c. c \<in> set r \<Longrightarrow> data_chunk c"
proof -
  let ?h = "column_count P div 2"
  from assms obtain d where d: "d \<in> set (chunks (?h * 31) data)" "r = map (\<lambda>c. c @ [0]) (chunks 31 d)"
    and len: "\<forall>c \<in> set (chunks 31 d). length c = 31"
    by (auto simp: chunkify_Some_iff)
  then have "d \<noteq> []" and "length d \<le> ?h * 31"
    using chunks_bound by blast+
  with d(2) show "r \<noteq> []" and "length r \<le> column_count P div 2"
    using length_chunks_le [of 31 d ?h] by (simp_all add: chunks.simps [of 31 d])
  show "data_chunk c" if "c \<in> set r" for c
    using that d(2) len by (auto simp: data_chunk_def)
qed

subsection \<open>The encoded rows\<close>

lemma fr_zero_chunk: "bytes_laws A \<Longrightarrow> fr_from_le A zero_chunk = 0"
proof -
  assume b: "bytes_laws A"
  have "fr_from_le A (replicate n 0) = 0" for n
  proof (induction n)
    case (Suc n)
    have "fr_from_le A (replicate n 0 @ [0]) = 0"
      using b Suc by (simp add: bytes_laws_def)
    then show ?case by (simp add: replicate_append_same)
  qed (use b in \<open>simp add: bytes_laws_def\<close>)
  then show ?thesis by (simp add: zero_chunk_def)
qed

lemma to_le_zero: "bytes_laws A \<Longrightarrow> fr_to_le A 0 = zero_chunk"
  unfolding bytes_laws_def zero_chunk_def by (metis append_Nil diff_zero list.size(3) zero_le)

lemma to_le_from_le:
  assumes "bytes_laws A" and "data_chunk c"
  shows "fr_to_le A (fr_from_le A c) = c"
proof -
  from assms(2) obtain b where "length b = 31" "c = b @ [0]" by (rule data_chunk_cases)
  then show ?thesis using assms(1) by (simp add: bytes_laws_def)
qed

lemma field_elements:
  assumes "\<And>c. c \<in> set cs \<Longrightarrow> length c \<le> 32"
  shows "those (map (field_element_from_bytes_le A) cs) = Some (map (fr_from_le A) cs)"
  using assms by (simp add: those_Some_iff field_element_from_bytes_le_def BYTES_PER_FIELD_ELEMENT_def)

lemma row_polynomial:
  assumes "\<And>c. c \<in> set r \<Longrightarrow> length c = n" and "0 < n" and "n \<le> 32"
  shows "bytes_to_polynomial_unchecked A n (as_bytes r) N =
    Some (map (fr_from_le A) r, interpolate A N (map (fr_from_le A) r))"
  using assms by (simp add: bytes_to_polynomial_unchecked_def bytes_to_evaluations_def as_bytes_def
      chunks_concat length_concat_exact [of r n] field_elements)

definition extended_row :: "nat \<Rightarrow> chunk list \<Rightarrow> chunk list" where
  "extended_row N r = r @ replicate (N - length r) zero_chunk"

lemma encoded_row:
  assumes f: "fft_laws A K" and b: "bytes_laws A" and k: "k \<le> K" and len: "length r \<le> 2 ^ k"
    and r: "\<And>c. c \<in> set r \<Longrightarrow> data_chunk c"
  shows "map (fr_to_le A) (rs_encode A (interpolate A (2 ^ k) (map (fr_from_le A) r)) (2 ^ k)) =
    extended_row (2 ^ k) r"
proof -
  have "rs_encode A (interpolate A (2 ^ k) (map (fr_from_le A) r)) (2 ^ k) = resize (2 ^ k) (map (fr_from_le A) r)"
    using f k unfolding rs_encode_def fft_laws_def by blast
  then show ?thesis
    using len r by (simp add: resize_def extended_row_def to_le_zero [OF b] to_le_from_le [OF b] map_idI)
qed

lemma length_extended_row [simp]: "length r \<le> N \<Longrightarrow> length (extended_row N r) = N"
  by (simp add: extended_row_def)

lemma extended_row_beyond: "length r \<le> i \<Longrightarrow> i < N \<Longrightarrow> extended_row N r ! i = zero_chunk"
  by (simp add: extended_row_def nth_append diff_less_mono)

lemma extended_chunk:
  assumes "bytes_laws A" and "length r \<le> N" and "i < N"
  shows "fr_from_le A (extended_row N r ! i) = resize N (map (fr_from_le A) r) ! i"
  using assms by (simp add: extended_row_def resize_def nth_append fr_zero_chunk)

lemma length_extended_chunk:
  assumes "\<And>c. c \<in> set r \<Longrightarrow> data_chunk c" and "c \<in> set (extended_row N r)"
  shows "length c = 32"
  using assms by (auto simp: extended_row_def data_chunk_def zero_chunk_def)

lemma columns_extended:
  assumes "m \<noteq> []" and "\<And>r. r \<in> set m \<Longrightarrow> length r \<le> N"
  shows "columns (map (extended_row N) m) = map (\<lambda>i. map (\<lambda>r. extended_row N r ! i) m) [0..<N]"
  using assms by (cases m) (simp_all add: columns_def)

lemma row_commitments_Ok:
  assumes "compute_kzg_row_commitments A gp m N = Ok rows"
    and chunks32: "\<And>r c. r \<in> set m \<Longrightarrow> c \<in> set r \<Longrightarrow> length c = 32"
  shows "map (snd \<circ> fst) rows = map (\<lambda>r. interpolate A N (map (fr_from_le A) r)) m"
    and "map (\<lambda>r. commit_polynomial A (interpolate A N (map (fr_from_le A) r)) gp) m = map Ok (map snd rows)"
proof -
  let ?p = "\<lambda>r. interpolate A N (map (fr_from_le A) r)"
  have "map (\<lambda>r. bind_outcome (commit_polynomial A (?p r) gp) (\<lambda>c. Ok ((map (fr_from_le A) r, ?p r), c))) m =
      map Ok rows"
    using assms(1) chunks32
    by (simp add: compute_kzg_row_commitments_def collect_result_Ok BYTES_PER_FIELD_ELEMENT_def row_polynomial
        cong: map_cong)
  then have "list_all2 (\<lambda>r row. bind_outcome (commit_polynomial A (?p r) gp)
      (\<lambda>c. Ok ((map (fr_from_le A) r, ?p r), c)) = Ok row) m rows"
    by (simp only: map_eq_map_iff)
  then have "list_all2 (\<lambda>r row. (snd \<circ> fst) row = ?p r \<and> commit_polynomial A (?p r) gp = Ok (snd row)) m rows"
    by (rule list_all2_mono) auto
  then show "map (snd \<circ> fst) rows = map ?p m"
    and "map (\<lambda>r. commit_polynomial A (?p r) gp) m = map Ok (map snd rows)"
    by (auto simp: list_all2_conv_all_nth intro!: nth_equalityI)
qed

lemma encode_parts:
  assumes "da_encode A H P data = Ok e" and "domain_new A (column_count P) = Some N"
  obtains rows cols M evals poly where
    "chunkify P data = Some (ed_chunked_data e)"
    "domain_new A (length (ed_chunked_data e)) = Some M"
    "compute_kzg_row_commitments A (encoder_parameters P) (ed_chunked_data e) N = Ok rows"
    "ed_row_commitments e = map snd rows"
    "ed_extended_data e = evals_to_chunk_matrix A (rs_encode_rows A (map (snd \<circ> fst) rows) N)"
    "compute_rows_proofs A (encoder_parameters P) (map (snd \<circ> fst) rows) (toeplitz1cache P) =
       Some (ed_rows_proofs e)"
    "compute_kzg_column_commitments A (encoder_parameters P) (ed_extended_data e) M = Ok cols"
    "ed_column_commitments e = map snd cols"
    "compute_aggregated_column_commitment A H (encoder_parameters P) (ed_column_commitments e) N =
       Ok ((evals, poly), ed_aggregated_column_commitment e)"
    "fk20_batch_generate_elements_proofs A poly (encoder_parameters P) (toeplitz1cache P) =
       Some (ed_aggregated_column_proofs e)"
  using assms unfolding da_encode_def Let_def
  by (auto simp: Option.bind_eq_Some_conv split: prod.splits)

definition row_poly :: "('f, 'g, 'h, 't) ark \<Rightarrow> nat \<Rightarrow> chunk list \<Rightarrow> 'f list" where
  "row_poly A N r = interpolate A N (map (fr_from_le A) r)"

definition commitment_hash :: "'g da_hashes \<Rightarrow> 'g \<Rightarrow> bytes" where
  "commitment_hash H c = blake2b_var H 31 (commitment_to_bytes H c)"

lemma hash_commitment_Some: "hash_laws H \<Longrightarrow> hash_commitment H 31 c = Some (commitment_hash H c)"
  by (simp add: hash_laws_def hash_commitment_def commitment_hash_def)

lemma fft_row_poly:
  assumes "fft_laws A K" and "k \<le> K"
  shows "fft A (2 ^ k) (row_poly A (2 ^ k) r) = resize (2 ^ k) (map (fr_from_le A) r)"
  using assms unfolding row_poly_def fft_laws_def by blast

lemma length_row_poly:
  assumes "fft_laws A K" and "k \<le> K"
  shows "length (row_poly A (2 ^ k) r) \<le> 2 ^ k"
  using assms unfolding row_poly_def fft_laws_def by blast

lemma aggregated_Ok:
  assumes "compute_aggregated_column_commitment A H gp cs N = Ok ((evals, poly), C)" and "hash_laws H"
  shows "poly = row_poly A N (map (commitment_hash H) cs)" and "commit_polynomial A poly gp = Ok C"
proof -
  have len: "length h = 31" if "h \<in> set (map (commitment_hash H) cs)" for h
    using that assms(2) by (auto simp: commitment_hash_def hash_laws_def)
  have "bytes_to_polynomial_unchecked A 31 (concat (map (commitment_hash H) cs)) N =
      Some (map (fr_from_le A) (map (commitment_hash H) cs), row_poly A N (map (commitment_hash H) cs))"
    using row_polynomial [of "map (commitment_hash H) cs" 31 A N] len
    by (simp add: as_bytes_def row_poly_def)
  moreover have "length (concat (map (commitment_hash H) cs)) mod 31 = 0"
    using length_concat_exact [of "map (commitment_hash H) cs" 31] len by simp
  moreover have "those (map (hash_commitment H 31) cs) = Some (map (commitment_hash H) cs)"
    using assms(2) by (simp add: those_Some_iff hash_commitment_Some)
  ultimately show "poly = row_poly A N (map (commitment_hash H) cs)" and "commit_polynomial A poly gp = Ok C"
    using assms(1) by (auto simp: compute_aggregated_column_commitment_def bytes_to_polynomial_def
        MAX_BLS12_381_ENCODING_CHUNK_SIZE_def BYTES_PER_FIELD_ELEMENT_def split: prod.splits)
qed

lemma encoded_facts:
  assumes d: "domain_laws A K" and f: "fft_laws A K" and b: "bytes_laws A" and hl: "hash_laws H"
    and k: "k \<le> K" and cols: "column_count P = 2 ^ k" and enc: "da_encode A H P data = Ok e"
  defines "gp \<equiv> encoder_parameters P" and "m \<equiv> ed_chunked_data e"
  shows "chunkify P data = Some m"
    and "ed_extended_data e = map (extended_row (2 ^ k)) m"
    and "map (\<lambda>r. commit_polynomial A (row_poly A (2 ^ k) r) gp) m = map Ok (ed_row_commitments e)"
    and "map (\<lambda>r. fk20_batch_generate_elements_proofs A (row_poly A (2 ^ k) r) gp (toeplitz1cache P)) m =
      map Some (ed_rows_proofs e)"
    and "\<exists>M. domain_new A (length m) = Some M \<and>
      map (\<lambda>c. commit_polynomial A (row_poly A M c) gp) (columns (ed_extended_data e)) =
        map Ok (ed_column_commitments e)"
    and "commit_polynomial A (row_poly A (2 ^ k) (map (commitment_hash H) (ed_column_commitments e))) gp =
      Ok (ed_aggregated_column_commitment e)"
    and "fk20_batch_generate_elements_proofs A
      (row_poly A (2 ^ k) (map (commitment_hash H) (ed_column_commitments e))) gp (toeplitz1cache P) =
      Some (ed_aggregated_column_proofs e)"
proof -
  have N: "domain_new A (column_count P) = Some (2 ^ k)"
    unfolding cols by (rule domain_new_power [OF d k])
  obtain rows cols' M evals poly where chunked: "chunkify P data = Some m"
    and M: "domain_new A (length m) = Some M"
    and rows: "compute_kzg_row_commitments A gp m (2 ^ k) = Ok rows" "ed_row_commitments e = map snd rows"
    and ext: "ed_extended_data e = evals_to_chunk_matrix A (rs_encode_rows A (map (snd \<circ> fst) rows) (2 ^ k))"
    and proofs: "compute_rows_proofs A gp (map (snd \<circ> fst) rows) (toeplitz1cache P) = Some (ed_rows_proofs e)"
    and columns: "compute_kzg_column_commitments A gp (ed_extended_data e) M = Ok cols'"
      "ed_column_commitments e = map snd cols'"
    and agg: "compute_aggregated_column_commitment A H gp (ed_column_commitments e) (2 ^ k) =
       Ok ((evals, poly), ed_aggregated_column_commitment e)"
    and aggp: "fk20_batch_generate_elements_proofs A poly gp (toeplitz1cache P) = Some (ed_aggregated_column_proofs e)"
    unfolding gp_def m_def by (rule encode_parts [OF enc N])
  have r: "length r \<le> 2 ^ k" "\<And>c. c \<in> set r \<Longrightarrow> data_chunk c" if "r \<in> set m" for r
    using chunkify_row [OF chunked that] cols by auto
  then have c32: "length c = 32" if "r \<in> set m" "c \<in> set r" for r c
    using that by (auto simp: data_chunk_def)
  have polys: "map (snd \<circ> fst) rows = map (row_poly A (2 ^ k)) m"
    using row_commitments_Ok(1) [OF rows(1) c32] by (simp add: row_poly_def)
  show "chunkify P data = Some m" by (fact chunked)
  show ext': "ed_extended_data e = map (extended_row (2 ^ k)) m"
    using encoded_row [OF f b k] r
    by (simp add: ext evals_to_chunk_matrix_def rs_encode_rows_def polys row_poly_def)
  show "map (\<lambda>r. commit_polynomial A (row_poly A (2 ^ k) r) gp) m = map Ok (ed_row_commitments e)"
    using row_commitments_Ok(2) [OF rows(1) c32] by (simp add: rows(2) row_poly_def)
  show "map (\<lambda>r. fk20_batch_generate_elements_proofs A (row_poly A (2 ^ k) r) gp (toeplitz1cache P)) m =
      map Some (ed_rows_proofs e)"
    using proofs unfolding compute_rows_proofs_def polys by (simp add: those_Some_iff o_def)
  have "length c = 32" if "col \<in> set (columns (ed_extended_data e))" "c \<in> set col" for col c
  proof (cases "m = []")
    case True
    with that ext' show ?thesis by (simp add: columns_def)
  next
    case False
    with that ext' r(1) obtain i r' where "i < 2 ^ k" "r' \<in> set m" "c = extended_row (2 ^ k) r' ! i"
      by (auto simp: columns_extended)
    with r show ?thesis
      by (intro length_extended_chunk [of r' c "2 ^ k"]) (auto intro!: nth_mem)
  qed
  then show "\<exists>M. domain_new A (length m) = Some M \<and>
      map (\<lambda>c. commit_polynomial A (row_poly A M c) gp) (columns (ed_extended_data e)) =
        map Ok (ed_column_commitments e)"
    using M row_commitments_Ok(2) [of A gp "columns (ed_extended_data e)" M cols'] columns
    by (auto simp: compute_kzg_column_commitments_def transposed_def row_poly_def)
  show "commit_polynomial A (row_poly A (2 ^ k) (map (commitment_hash H) (ed_column_commitments e))) gp =
      Ok (ed_aggregated_column_commitment e)"
    and "fk20_batch_generate_elements_proofs A
      (row_poly A (2 ^ k) (map (commitment_hash H) (ed_column_commitments e))) gp (toeplitz1cache P) =
      Some (ed_aggregated_column_proofs e)"
    using aggregated_Ok [OF agg hl] aggp by simp_all
qed

subsection \<open>Shares of encoded data\<close>

text \<open>
  The batch of proofs is right only for a polynomial with as many coefficients as there are columns.
  A polynomial loses leading coefficients when they are zero; \<open>full_degree\<close> says that no row and
  not the list of hashes does.
\<close>

definition full_degree :: "('f, 'g, 'h, 't) ark \<Rightarrow> 'g da_hashes \<Rightarrow> nat \<Rightarrow> 'g encoded_data \<Rightarrow> bool" where
  "full_degree A H N e \<longleftrightarrow>
     (\<forall>r \<in> set (ed_chunked_data e). length (row_poly A N r) = N) \<and>
     length (row_poly A N (map (commitment_hash H) (ed_column_commitments e))) = N"

lemma row_chunk_verifies:
  assumes laws: "domain_laws A K" "fft_laws A K" "poly_laws A" "group_laws A" "pairing_laws A" "setup_with A s gp"
    and k: "Suc k \<le> K" and full: "length (row_poly A (2 ^ k) r) = 2 ^ k"
    and cache: "cache = None \<or> cache = with_size A gp (2 ^ k)"
    and commit: "commit_polynomial A (row_poly A (2 ^ k) r) gp = Ok C"
    and batch: "fk20_batch_generate_elements_proofs A (row_poly A (2 ^ k) r) gp cache = Some ps"
    and i: "i < 2 ^ k"
  shows "length ps = 2 ^ k"
    and "verify_element_proof A i (resize (2 ^ k) (map (fr_from_le A) r) ! i) C (ps ! i) (2 ^ k) gp = Some True"
  using batch_verifies [OF laws k full cache commit batch] i
  by (simp_all add: fft_row_poly [OF laws(2) Suc_leD [OF k]])

lemma verify_column_value:
  assumes "\<And>c. c \<in> set col \<Longrightarrow> length c = 32" and "hash_laws H"
    and "domain_new A (length col) = Some M" and "commit_polynomial A (row_poly A M col) gp = Ok cc"
  shows "verify_column A H gp col cc agg pf i N =
    verify_element_proof A i (fr_from_le A (commitment_hash H cc)) agg pf N gp"
proof -
  have "length (as_bytes col) mod 32 = 0"
    using length_concat_exact [of col 32] assms(1) by (simp add: as_bytes_def)
  moreover have "bytes_to_polynomial_unchecked A 32 (as_bytes col) M =
      Some (map (fr_from_le A) col, row_poly A M col)"
    using row_polynomial [of col 32 A M] assms(1) by (simp add: row_poly_def)
  moreover have "length (commitment_hash H cc) = 31"
    using assms(2) by (simp add: commitment_hash_def hash_laws_def)
  ultimately show ?thesis
    using assms by (simp add: verify_column_def bytes_to_polynomial_def BYTES_PER_FIELD_ELEMENT_def
        MAX_BLS12_381_ENCODING_CHUNK_SIZE_def hash_commitment_Some field_element_from_bytes_le_def)
qed

lemma verify_chunk_loop_True:
  assumes "\<And>c C p. (c, C, p) \<in> set xs \<Longrightarrow> verify_chunk A gp c C p i N = Some True"
  shows "verify_chunk_loop A gp xs i N = Some True"
  using assms by (induction xs) auto

lemma map_eq_map_nth: "map f xs = map g ys \<Longrightarrow> length xs = length ys \<and> (\<forall>j < length xs. f (xs ! j) = g (ys ! j))"
  by (simp add: map_eq_map_iff list_all2_conv_all_nth)

lemma chunks_verify:
  assumes laws: "domain_laws A K" "fft_laws A K" "poly_laws A" "group_laws A" "pairing_laws A" "setup_with A s gp"
    and b: "bytes_laws A" and k: "Suc k \<le> K" and i: "i < 2 ^ k"
    and cache: "cache = None \<or> cache = with_size A gp (2 ^ k)"
    and rows: "\<And>r. r \<in> set m \<Longrightarrow> length (row_poly A (2 ^ k) r) = 2 ^ k \<and> length r \<le> 2 ^ k \<and> (\<forall>c \<in> set r. data_chunk c)"
    and commits: "map (\<lambda>r. commit_polynomial A (row_poly A (2 ^ k) r) gp) m = map Ok Cs"
    and proofs: "map (\<lambda>r. fk20_batch_generate_elements_proofs A (row_poly A (2 ^ k) r) gp cache) m = map Some Ps"
  shows "\<And>ps. ps \<in> set Ps \<Longrightarrow> length ps = 2 ^ k"
    and "verify_chunks A gp (map (\<lambda>r. extended_row (2 ^ k) r ! i) m) Cs (map (\<lambda>ps. ps ! i) Ps) i (2 ^ k) =
      Some True"
proof -
  note Cs = map_eq_map_nth [OF commits] and Ps = map_eq_map_nth [OF proofs]
  have row: "length (Ps ! j) = 2 ^ k \<and>
      verify_chunk A gp (extended_row (2 ^ k) (m ! j) ! i) (Cs ! j) (Ps ! j ! i) i (2 ^ k) = Some True"
    if j: "j < length m" for j
  proof -
    have r: "length (row_poly A (2 ^ k) (m ! j)) = 2 ^ k" "length (m ! j) \<le> 2 ^ k" "\<And>c. c \<in> set (m ! j) \<Longrightarrow> data_chunk c"
      using rows [of "m ! j"] j by auto
    have "length (extended_row (2 ^ k) (m ! j) ! i) = 32"
      by (rule length_extended_chunk [OF r(3)]) (use i r(2) in \<open>auto intro!: nth_mem\<close>)
    then show ?thesis
      using row_chunk_verifies [OF laws k r(1) cache _ _ i, of "Cs ! j" "Ps ! j"] Cs Ps j
      by (simp add: verify_chunk_def field_element_from_bytes_le_def BYTES_PER_FIELD_ELEMENT_def
          extended_chunk [OF b r(2) i])
  qed
  then show "length ps = 2 ^ k" if "ps \<in> set Ps" for ps
    using that Ps by (metis in_set_conv_nth)
  have "verify_chunk A gp c C p i (2 ^ k) = Some True"
    if cCp: "(c, C, p) \<in> set (zip (map (\<lambda>r. extended_row (2 ^ k) r ! i) m) (zip Cs (map (\<lambda>ps. ps ! i) Ps)))" for c C p
    using cCp row Cs Ps by (auto simp: in_set_zip)
  then show "verify_chunks A gp (map (\<lambda>r. extended_row (2 ^ k) r ! i) m) Cs (map (\<lambda>ps. ps ! i) Ps) i (2 ^ k) =
      Some True"
    using Cs Ps by (simp add: verify_chunks_def verify_chunk_loop_True)
qed

lemma chunkify_nonempty:
  assumes "chunkify P data = Some m" and "data \<noteq> []"
  shows "m \<noteq> []"
proof -
  let ?n = "column_count P div 2 * 31"
  have "0 < ?n" using assms(1) by (simp add: chunkify_Some_iff)
  then have "chunks ?n data \<noteq> []" using concat_chunks [of ?n data] assms(2) by auto
  with assms(1) show ?thesis by (simp add: chunkify_Some_iff)
qed

lemma nth_opt_Some [simp]: "i < length xs \<Longrightarrow> nth_opt xs i = Some (xs ! i)"
  by (simp add: nth_opt_def)

lemma share_of_index:
  assumes "i < length (columns (ed_extended_data e))" and "i < 2 ^ 16"
    and "i < length (ed_column_commitments e)" and "i < length (ed_aggregated_column_proofs e)"
    and "\<And>ps. ps \<in> set (ed_rows_proofs e) \<Longrightarrow> i < length ps"
  shows "to_da_share e i = Some (Some \<lparr> ds_column = columns (ed_extended_data e) ! i,
    ds_share_idx = word_of_nat i, ds_column_commitment = ed_column_commitments e ! i,
    ds_aggregated_column_commitment = ed_aggregated_column_commitment e,
    ds_aggregated_column_proof = ed_aggregated_column_proofs e ! i,
    ds_rows_commitments = ed_row_commitments e, ds_rows_proofs = map (\<lambda>ps. ps ! i) (ed_rows_proofs e) \<rparr>)"
proof -
  have "those (map (\<lambda>ps. nth_opt ps i) (ed_rows_proofs e)) = Some (map (\<lambda>ps. ps ! i) (ed_rows_proofs e))"
    using assms(5) by (simp add: those_Some_iff)
  with assms show ?thesis by (simp add: to_da_share_def)
qed

lemma encoded_columns:
  assumes d: "domain_laws A K" and f: "fft_laws A K" and b: "bytes_laws A" and h: "hash_laws H"
    and k: "k \<le> K" and cols: "column_count P = 2 ^ k" and data: "data \<noteq> []"
    and enc: "da_encode A H P data = Ok e"
  shows "columns (ed_extended_data e) =
      map (\<lambda>i. map (\<lambda>r. extended_row (2 ^ k) r ! i) (ed_chunked_data e)) [0..<2 ^ k]"
    and "i < 2 ^ k \<Longrightarrow> c \<in> set (columns (ed_extended_data e) ! i) \<Longrightarrow> length c = 32"
    and "length (ed_column_commitments e) = 2 ^ k"
    and "\<exists>M. domain_new A (length (ed_chunked_data e)) = Some M \<and> (\<forall>i < 2 ^ k.
      commit_polynomial A (row_poly A M (columns (ed_extended_data e) ! i)) (encoder_parameters P) =
        Ok (ed_column_commitments e ! i))"
proof -
  note facts = encoded_facts [OF d f b h k cols enc]
  have row: "length r \<le> 2 ^ k" "\<And>c. c \<in> set r \<Longrightarrow> data_chunk c" if "r \<in> set (ed_chunked_data e)" for r
    using chunkify_row [OF facts(1) that] cols by auto
  show columns: "columns (ed_extended_data e) =
      map (\<lambda>i. map (\<lambda>r. extended_row (2 ^ k) r ! i) (ed_chunked_data e)) [0..<2 ^ k]"
    unfolding facts(2) by (rule columns_extended) (use chunkify_nonempty [OF facts(1) data] row in auto)
  show "length c = 32" if i: "i < 2 ^ k" and c: "c \<in> set (columns (ed_extended_data e) ! i)"
  proof -
    from c i obtain r where r: "r \<in> set (ed_chunked_data e)" "c = extended_row (2 ^ k) r ! i"
      by (auto simp: columns)
    with row i have "c \<in> set (extended_row (2 ^ k) r)" by simp
    with row [OF r(1)] show ?thesis by (intro length_extended_chunk [of r c "2 ^ k"]) auto
  qed
  obtain M where M: "domain_new A (length (ed_chunked_data e)) = Some M"
    and cc: "map (\<lambda>c. commit_polynomial A (row_poly A M c) (encoder_parameters P)) (columns (ed_extended_data e)) =
      map Ok (ed_column_commitments e)"
    using facts(5) by blast
  show "length (ed_column_commitments e) = 2 ^ k"
    using map_eq_map_nth [OF cc, THEN conjunct1] by (simp add: columns)
  show "\<exists>M. domain_new A (length (ed_chunked_data e)) = Some M \<and> (\<forall>i < 2 ^ k.
      commit_polynomial A (row_poly A M (columns (ed_extended_data e) ! i)) (encoder_parameters P) =
        Ok (ed_column_commitments e ! i))"
    using M map_eq_map_nth [OF cc, THEN conjunct2] by (intro exI [of _ M]) (simp add: columns)
qed

text \<open>
  C18. Every share of encoded data verifies: when the data is not empty and no polynomial lost
  coefficients, the encoder gives a share for every column, with or without its cache, and the
  verifier, who only sees the share, accepts it under the same setup.
\<close>

theorem encoded_shares_verify:
  assumes laws: "domain_laws A K" "fft_laws A K" "poly_laws A" "group_laws A" "pairing_laws A"
      "setup_with A s (encoder_parameters P)" and b: "bytes_laws A" and h: "hash_laws H"
    and k: "Suc k \<le> K" "k \<le> 16" and cols: "column_count P = 2 ^ k"
    and cache: "toeplitz1cache P = None \<or> toeplitz1cache P = with_size A (encoder_parameters P) (2 ^ k)"
    and data: "data \<noteq> []" and enc: "da_encode A H P data = Ok e" and full: "full_degree A H (2 ^ k) e"
    and i: "i < 2 ^ k"
  shows "\<exists>share light commitments. to_da_share e i = Some (Some share) \<and>
    into_share_and_commitments share = (light, commitments) \<and>
    da_verify A H (encoder_parameters P) commitments light (2 ^ k) = Some True"
proof -
  let ?m = "ed_chunked_data e" and ?gp = "encoder_parameters P"
  let ?hashes = "map (commitment_hash H) (ed_column_commitments e)"
  have k': "k \<le> K" using k by simp
  note facts = encoded_facts [OF laws(1,2) b h k' cols enc]
  have rows: "length (row_poly A (2 ^ k) r) = 2 ^ k \<and> length r \<le> 2 ^ k \<and> (\<forall>c \<in> set r. data_chunk c)"
    if "r \<in> set ?m" for r
    using full chunkify_row [OF facts(1) that] cols that by (auto simp: full_degree_def)
  note columns = encoded_columns [OF laws(1,2) b h k' cols data enc]
  have col: "columns (ed_extended_data e) ! i = map (\<lambda>r. extended_row (2 ^ k) r ! i) ?m"
    using i by (simp add: columns(1))
  obtain M where M: "domain_new A (length ?m) = Some M"
    and cc: "commit_polynomial A (row_poly A M (columns (ed_extended_data e) ! i)) ?gp =
      Ok (ed_column_commitments e ! i)"
    using columns(4) i by blast
  have full_agg: "length (row_poly A (2 ^ k) ?hashes) = 2 ^ k"
    using full by (simp add: full_degree_def)
  note agg = row_chunk_verifies [OF laws k(1) full_agg cache facts(6,7) i]
  note cv = chunks_verify [OF laws b k(1) i cache rows facts(3,4)]
  have "resize (2 ^ k) (map (fr_from_le A) ?hashes) ! i =
      fr_from_le A (commitment_hash H (ed_column_commitments e ! i))"
    using i columns(3) by simp
  then have vc: "verify_column A H ?gp (columns (ed_extended_data e) ! i) (ed_column_commitments e ! i)
      (ed_aggregated_column_commitment e) (ed_aggregated_column_proofs e ! i) i (2 ^ k) = Some True"
    using verify_column_value [OF columns(2) [OF i] h _ cc] M agg(2) by (simp add: col)
  have i16: "i < 2 ^ 16" using i power_increasing [OF k(2), of "2 :: nat"] by simp
  then have idx: "unat (word_of_nat i :: u16) = i"
    by (simp add: unsigned_of_nat take_bit_nat_eq_self)
  have share: "to_da_share e i = Some (Some \<lparr> ds_column = columns (ed_extended_data e) ! i,
      ds_share_idx = word_of_nat i, ds_column_commitment = ed_column_commitments e ! i,
      ds_aggregated_column_commitment = ed_aggregated_column_commitment e,
      ds_aggregated_column_proof = ed_aggregated_column_proofs e ! i,
      ds_rows_commitments = ed_row_commitments e, ds_rows_proofs = map (\<lambda>ps. ps ! i) (ed_rows_proofs e) \<rparr>)"
    by (rule share_of_index) (use i i16 agg(1) cv(1) in \<open>simp_all add: columns(1,3)\<close>)
  show ?thesis
    unfolding share into_share_and_commitments_def
    using vc cv(2) idx by (simp add: da_verify_def domain_new_power [OF laws(1) k'] col)
qed

subsection \<open>What the extension adds\<close>

text \<open>
  C38. The extension of the rows carries no data. A row of at most half as many chunks as there are
  columns is interpolated over the whole domain, with zeros for the missing values, and evaluated
  there again: every column of the second half consists of zero chunks, whatever the data is, so
  that nothing of a missing column of the first half can be recovered from it.
\<close>

theorem extension_is_zero:
  assumes "domain_laws A K" and "fft_laws A K" and "bytes_laws A" and "hash_laws H"
    and "k \<le> K" and "column_count P = 2 ^ k" and "data \<noteq> []" and "da_encode A H P data = Ok e"
    and "2 ^ k div 2 \<le> i" and "i < 2 ^ k"
  shows "columns (ed_extended_data e) ! i = replicate (length (ed_chunked_data e)) (replicate 32 0)"
proof -
  have "length r \<le> i" if "r \<in> set (ed_chunked_data e)" for r
    using chunkify_row(2) [OF encoded_facts(1) [OF assms(1-6,8)] that] assms(6,9) by simp
  then have "extended_row (2 ^ k) r ! i = replicate 32 0" if "r \<in> set (ed_chunked_data e)" for r
    using that assms(10) by (simp add: extended_row_beyond zero_chunk_def)
  then show ?thesis
    using assms(10) by (simp add: encoded_columns(1) [OF assms(1-8)] map_replicate_const [symmetric])
qed

lemma those_None: "None \<in> set xs \<Longrightarrow> those xs = None"
  by (induction xs) (auto split: option.splits)

lemma vanishing_coeffs:
  fixes A :: "('f::field, 'g, 'h, 't) ark" and p :: "'f list"
  assumes pl: "poly_laws A" and "finite S" and "length p \<le> card S" and "\<forall>x \<in> S. peval p x = 0"
  shows "coeff p j = 0"
  using assms(2-)
proof (induction "card S" arbitrary: S p j)
  case (Suc n)
  then obtain u where u: "u \<in> S" by fastforce
  define q where "q = poly_div A p [- u, 1]"
  have pu: "peval p u = 0" using Suc.prems u by blast
  have "peval q y = 0" if "y \<in> S - {u}" for y
    using div_linear(3) [OF pl q_def, of y] pu Suc.prems(3) that by simp
  moreover have "n = card (S - {u})" and "length q \<le> card (S - {u})"
    using Suc.hyps(2) Suc.prems(1,2) u div_linear(1) [OF pl q_def] by simp_all
  ultimately have q: "coeff q l = 0" for l
    using Suc.hyps(1) [of "S - {u}" q l] Suc.prems(1) by blast
  have high: "coeff p (Suc l) = 0" for l
    using div_linear(2) [OF pl q_def, of l] q by simp
  have "peval p u = (\<Sum>i<Suc (length p). coeff p i * u ^ i)"
    by (rule peval_coeff) simp
  also have "\<dots> = coeff p 0"
    by (subst sum.lessThan_Suc_shift) (simp add: high)
  finally show ?case
    using pu high by (cases j) simp_all
qed simp

lemma row_poly_zero:
  assumes d: "domain_laws A K" and f: "fft_laws A K" and pl: "poly_laws A" and b: "bytes_laws A"
    and k: "k \<le> K" and zero: "\<And>c. c \<in> set r \<Longrightarrow> c = zero_chunk"
  shows "row_poly A (2 ^ k) r = []"
proof (rule ccontr)
  let ?p = "row_poly A (2 ^ k) r" and ?S = "element A (2 ^ k) ` {..<2 ^ k}"
  assume "?p \<noteq> []"
  then have last: "last ?p \<noteq> 0"
    using f k unfolding row_poly_def fft_laws_def by blast
  have card: "card ?S = 2 ^ k"
    using d k by (simp add: domain_laws_def card_image)
  have len: "length ?p \<le> 2 ^ k" by (rule length_row_poly [OF f k])
  have "fr_from_le A c = 0" if "c \<in> set r" for c
    using zero [OF that] fr_zero_chunk [OF b] by simp
  then have "resize (2 ^ k) (map (fr_from_le A) r) = replicate (2 ^ k) 0"
    by (intro nth_equalityI) (simp_all add: nth_resize coeff_def)
  then have fft0: "map (\<lambda>i. peval ?p (element A (2 ^ k) i)) [0..<2 ^ k] = replicate (2 ^ k) 0"
    using fft_row_poly [OF f k, of r] fft_values [OF f k len] by simp
  have "peval ?p (element A (2 ^ k) i) = 0" if "i < 2 ^ k" for i
    using arg_cong [OF fft0, of "\<lambda>l. l ! i"] that by simp
  then have "coeff ?p (length ?p - 1) = 0"
    using len card by (intro vanishing_coeffs [OF pl, of ?S]) auto
  with \<open>?p \<noteq> []\<close> last show False
    by (simp add: coeff_def last_conv_nth)
qed

lemma batch_of_zero:
  assumes d: "domain_laws A K" and f: "fft_laws A K"
    and batch: "fk20_batch_generate_elements_proofs A [] gp cache = Some ps"
  shows "length ps = 1"
proof -
  have "domain_new A 0 = Some (2 ^ 0)" using d by (simp add: domain_laws_def)
  then show ?thesis
    using batch length_g_fft [OF f, of 0]
    by (auto simp: fk20_batch_generate_elements_proofs_def Option.bind_eq_Some_conv)
qed

text \<open>
  C39. Data with a row of zeros cannot be dispersed: the polynomial of such a row has no
  coefficients, so that the encoder computes a single proof for it, and taking any share but the
  first from the encoded data panics.
\<close>

theorem zero_row_share_panics:
  assumes "domain_laws A K" and "fft_laws A K" and "poly_laws A" and "bytes_laws A" and "hash_laws H"
    and "k \<le> K" and "column_count P = 2 ^ k" and "da_encode A H P data = Ok e"
    and "r \<in> set (ed_chunked_data e)" and "\<forall>c \<in> set r. c = replicate 32 0"
    and "0 < i" and "i < 2 ^ k"
  shows "to_da_share e i = None"
proof -
  note facts = encoded_facts [OF assms(1,2,4-8)]
  obtain j where j: "j < length (ed_chunked_data e)" "ed_chunked_data e ! j = r"
    using assms(9) by (auto simp: in_set_conv_nth)
  have "row_poly A (2 ^ k) r = []"
    using assms(10) by (intro row_poly_zero [OF assms(1-4,6)]) (simp add: zero_chunk_def)
  with map_eq_map_nth [OF facts(4)] j
  have batch: "fk20_batch_generate_elements_proofs A [] (encoder_parameters P) (toeplitz1cache P) =
      Some (ed_rows_proofs e ! j)" and mem: "ed_rows_proofs e ! j \<in> set (ed_rows_proofs e)"
    by auto
  have "nth_opt (ed_rows_proofs e ! j) i = None"
    using batch_of_zero [OF assms(1,2) batch] assms(11) by (simp add: nth_opt_def)
  then have "None \<in> set (map (\<lambda>ps. nth_opt ps i) (ed_rows_proofs e))"
    using mem by (metis image_eqI list.set_map)
  then have none: "those (map (\<lambda>ps. nth_opt ps i) (ed_rows_proofs e)) = None"
    by (rule those_None)
  have "data \<noteq> []"
    using assms(9) facts(1) by (auto simp: chunkify_Some_iff)
  then have "i < length (columns (ed_extended_data e))"
    using assms(12) by (simp add: encoded_columns(1) [OF assms(1,2,4-7) _ assms(8)])
  with none show ?thesis
    by (simp add: to_da_share_def nth_opt_def split: option.splits)
qed

subsection \<open>What the verifier does not check\<close>

lemma verify_column_same_bytes:
  assumes "as_bytes col' = as_bytes col" and "length col' = length col"
  shows "verify_column A H gp col' cc agg pf i N = verify_column A H gp col cc agg pf i N"
  by (simp add: verify_column_def assms)

text \<open>
  C40. A peer can stop the verifier. From any share that verifies, moving the bytes of the second
  chunk of its column into the first gives a share of the same blob whose column has the same
  number of chunks and the same bytes: the commitment of the column and its proof are accepted, and
  then reading the first chunk, of more than 32 bytes, as a field element panics in the service.
\<close>

theorem oversized_chunk_panics:
  assumes ok: "kzgrs_verify A H v (snd (into_share_and_commitments share)) (fst (into_share_and_commitments share)) = Ok ()"
    and col: "ds_column share = c1 # c2 # cs" and long: "32 < length c1 + length c2"
    and new: "storage (share_blob_id H share, be_bytes 2 (ds_share_idx share)) = None"
  shows "share_blob_id H (share \<lparr> ds_column := (c1 @ c2) # [] # cs \<rparr>) = share_blob_id H share \<and>
    verifier_step A H v storage (NetworkShare (share \<lparr> ds_column := (c1 @ c2) # [] # cs \<rparr>) (True, w)) = None"
proof -
  let ?share = "share \<lparr> ds_column := (c1 @ c2) # [] # cs \<rparr>"
  obtain light commitments where split: "into_share_and_commitments share = (light, commitments)"
    by (meson surj_pair)
  then have split': "into_share_and_commitments ?share = (light \<lparr> dl_column := (c1 @ c2) # [] # cs \<rparr>, commitments)"
    and light: "dl_column light = c1 # c2 # cs"
    using col by (auto simp: into_share_and_commitments_def)
  have id: "share_blob_id H ?share = share_blob_id H share"
    by (simp add: share_blob_id_def)
  have "da_verify A H (kv_parameters v) commitments light (kv_domain_size v) = Some True"
    using ok split by (auto simp: kzgrs_verify_def expect_def split: option.splits if_splits)
  then obtain N where N: "domain_new A (kv_domain_size v) = Some N"
    and column: "verify_column A H (kv_parameters v) (c1 # c2 # cs) (dl_column_commitment light)
        (dc_aggregated_column_commitment commitments) (dl_aggregated_column_proof light)
        (unat (dl_share_idx light)) N = Some True"
    and chunks: "verify_chunks A (kv_parameters v) (c1 # c2 # cs) (dc_rows_commitments commitments)
        (dl_rows_proofs light) (unat (dl_share_idx light)) N = Some True"
    using light by (auto simp: da_verify_def Let_def Option.bind_eq_Some_conv split: if_splits)
  have lens: "length (dc_rows_commitments commitments) = Suc (Suc (length cs))"
    "length (dl_rows_proofs light) = Suc (Suc (length cs))"
    using chunks by (auto simp: verify_chunks_def split: if_splits)
  obtain C Cs where "dc_rows_commitments commitments = C # Cs"
    using lens(1) by (cases "dc_rows_commitments commitments") auto
  moreover obtain p ps where "dl_rows_proofs light = p # ps"
    using lens(2) by (cases "dl_rows_proofs light") auto
  ultimately have "verify_chunks A (kv_parameters v) ((c1 @ c2) # [] # cs) (dc_rows_commitments commitments)
      (dl_rows_proofs light) (unat (dl_share_idx light)) N = None"
    using long lens by (simp add: verify_chunks_def verify_chunk_def field_element_from_bytes_le_def
        BYTES_PER_FIELD_ELEMENT_def)
  moreover have "verify_column A H (kv_parameters v) ((c1 @ c2) # [] # cs) (dl_column_commitment light)
      (dc_aggregated_column_commitment commitments) (dl_aggregated_column_proof light)
      (unat (dl_share_idx light)) N = Some True"
    by (subst verify_column_same_bytes [of _ "c1 # c2 # cs"]) (simp_all add: as_bytes_def column)
  ultimately have "da_verify A H (kv_parameters v) commitments (light \<lparr> dl_column := (c1 @ c2) # [] # cs \<rparr>)
      (kv_domain_size v) = None"
    using N by (simp add: da_verify_def)
  then show ?thesis
    using new id split' by (simp add: verifier_step_def handle_new_share_def kzgrs_verify_def)
qed

lemma element_wraps:
  assumes "domain_laws A K" and "k \<le> K"
  shows "element A (2 ^ k) (i + 2 ^ k) = element A (2 ^ k) i"
  using assms by (simp add: element_def power_add domain_laws_def)

lemma da_verify_wraps:
  assumes "domain_laws A K" and "k \<le> K" and idx: "unat idx = unat (dl_share_idx light) + 2 ^ k"
  shows "da_verify A H gp commitments (light \<lparr> dl_share_idx := idx \<rparr>) (2 ^ k) =
    da_verify A H gp commitments light (2 ^ k)"
proof -
  have elem: "verify_element_proof A (i + 2 ^ k) v c p (2 ^ k) gp = verify_element_proof A i v c p (2 ^ k) gp"
    for i v c p
    by (simp add: verify_element_proof_def element_wraps [OF assms(1,2)])
  have "verify_chunk_loop A gp xs (i + 2 ^ k) (2 ^ k) = verify_chunk_loop A gp xs i (2 ^ k)" for xs i
    by (induction xs) (auto simp: verify_chunk_def elem cong: if_cong)
  then have chunks: "verify_chunks A gp cs Cs Ps (i + 2 ^ k) (2 ^ k) = verify_chunks A gp cs Cs Ps i (2 ^ k)"
    for cs Cs Ps i
    by (simp only: verify_chunks_def)
  have column: "verify_column A H gp col cc agg pf (i + 2 ^ k) (2 ^ k) =
      verify_column A H gp col cc agg pf i (2 ^ k)" for col cc agg pf i
    by (simp only: verify_column_def elem)
  show ?thesis
    by (simp add: da_verify_def Let_def domain_new_power [OF assms(1,2)] idx column chunks cong: if_cong)
qed

text \<open>
  The index of a share is not bound to its column: a share that verifies as column \<open>i\<close> also
  verifies as column \<open>i + N\<close>, \<open>N\<close> the number of columns, as the powers of the root repeat. The
  service keeps it a second time, as another share of the blob.
\<close>

theorem share_index_wraps:
  assumes "domain_laws A K" and "k \<le> K" and "kv_domain_size v = 2 ^ k"
    and "unat idx = unat (ds_share_idx share) + 2 ^ k"
    and "into_share_and_commitments share = (light, commitments)"
    and "into_share_and_commitments (share \<lparr> ds_share_idx := idx \<rparr>) = (light', commitments')"
    and "kzgrs_verify A H v commitments light = Ok ()"
  shows "kzgrs_verify A H v commitments' light' = Ok () \<and>
    be_bytes 2 idx \<noteq> be_bytes 2 (ds_share_idx share)"
proof -
  have "light' = light \<lparr> dl_share_idx := idx \<rparr>" and "commitments' = commitments"
    and "dl_share_idx light = ds_share_idx share"
    using assms(5,6) by (auto simp: into_share_and_commitments_def)
  then have "kzgrs_verify A H v commitments' light' = Ok ()"
    using da_verify_wraps [OF assms(1,2), of idx light H "kv_parameters v" commitments] assms(3,4,7)
    by (simp add: kzgrs_verify_def)
  moreover have "idx \<noteq> ds_share_idx share" using assms(4) by auto
  ultimately show ?thesis
    using be_bytes_inject [of 2 idx "ds_share_idx share"] by auto
qed

subsection \<open>What the service keeps\<close>

primrec verifier_run ::
    "('f::field, 'g::ab_group_add, 'h::ab_group_add, 't) ark \<Rightarrow> 'g da_hashes \<Rightarrow> ('g, 'h) kzgrs_da_verifier \<Rightarrow>
     'g verifier_event list \<Rightarrow> 'g share_store \<Rightarrow> 'g share_store option" where
  "verifier_run A H v [] storage = Some storage"
| "verifier_run A H v (ev # evs) storage =
     Option.bind (verifier_step A H v storage ev) (\<lambda>(reply, storage'). verifier_run A H v evs storage')"

text \<open>What is stored was verified, and stands under the identifiers it has.\<close>

definition store_ok ::
    "('f::field, 'g::ab_group_add, 'h::ab_group_add, 't) ark \<Rightarrow> 'g da_hashes \<Rightarrow> ('g, 'h) kzgrs_da_verifier \<Rightarrow>
     'g share_store \<Rightarrow> bool" where
  "store_ok A H v storage \<longleftrightarrow> (\<forall>key light commitments. storage key = Some (light, commitments) \<longrightarrow>
     kzgrs_verify A H v commitments light = Ok () \<and>
     key = (build_blob_id H (dc_aggregated_column_commitment commitments) (dc_rows_commitments commitments),
            be_bytes 2 (dl_share_idx light)))"

lemma handle_new_share_store:
  assumes "handle_new_share A H v io storage share = (r, storage')"
  shows "storage \<subseteq>\<^sub>m storage'" and "store_ok A H v storage \<Longrightarrow> store_ok A H v storage'"
proof -
  let ?key = "(share_blob_id H share, be_bytes 2 (ds_share_idx share))"
  have cases: "storage' = storage \<or> (\<exists>light commitments. storage ?key = None \<and>
      into_share_and_commitments share = (light, commitments) \<and>
      kzgrs_verify A H v commitments light = Ok () \<and> storage' = storage(?key \<mapsto> (light, commitments)))"
    using assms by (auto simp: handle_new_share_def Let_def split: if_splits prod.splits outcome.splits)
  then show "storage \<subseteq>\<^sub>m storage'"
    by (auto simp: map_le_def)
  have "?key = (build_blob_id H (dc_aggregated_column_commitment commitments) (dc_rows_commitments commitments),
      be_bytes 2 (dl_share_idx light))"
    if "into_share_and_commitments share = (light, commitments)" for light commitments
    using that by (auto simp: into_share_and_commitments_def share_blob_id_def)
  with cases show "store_ok A H v storage'" if "store_ok A H v storage"
    using that unfolding store_ok_def by (elim disjE exE conjE) (simp_all split: if_splits)
qed

lemma verifier_step_store:
  assumes "verifier_step A H v storage ev = Some (reply, storage')"
  shows "storage \<subseteq>\<^sub>m storage' \<and> (store_ok A H v storage \<longrightarrow> store_ok A H v storage')"
proof (cases ev)
  case (NetworkShare share io)
  obtain r st where h: "handle_new_share A H v io storage share = (r, st)" by (meson surj_pair)
  with assms NetworkShare have "storage' = st"
    by (auto simp: verifier_step_def split: outcome.splits)
  with handle_new_share_store [OF h] show ?thesis by blast
next
  case (AddShare share io)
  obtain r st where h: "handle_new_share A H v io storage share = (r, st)" by (meson surj_pair)
  with assms AddShare have "storage' = st"
    by (auto simp: verifier_step_def split: outcome.splits)
  with handle_new_share_store [OF h] show ?thesis by blast
next
  case (VerifyShare commitments light)
  with assms show ?thesis by (auto simp: verifier_step_def split: outcome.splits)
qed

text \<open>
  C22. The service stores only shares it has verified. After any sequence of shares from the network,
  from the API and of checks, with storage failing at any time, every stored share verifies against
  the commitments it is stored with, under the blob that these commitments and the column that its
  index name, and no stored share was ever replaced.
\<close>

theorem stored_shares_verified:
  assumes "verifier_run A H v (evs @ evs') Map.empty = Some storage'"
    and "verifier_run A H v evs Map.empty = Some storage"
    and "storage key = Some (light, commitments)"
  shows "kzgrs_verify A H v commitments light = Ok () \<and>
    key = (build_blob_id H (dc_aggregated_column_commitment commitments) (dc_rows_commitments commitments),
      be_bytes 2 (dl_share_idx light)) \<and>
    storage' key = Some (light, commitments)"
proof -
  have run: "st \<subseteq>\<^sub>m st' \<and> (store_ok A H v st \<longrightarrow> store_ok A H v st')"
    if "verifier_run A H v es st = Some st'" for es st st'
    using that
  proof (induction es arbitrary: st)
    case (Cons ev es)
    then obtain reply mid where "verifier_step A H v st ev = Some (reply, mid)"
      "verifier_run A H v es mid = Some st'"
      by (auto simp: Option.bind_eq_Some_conv)
    with Cons.IH [of mid] verifier_step_store [of A H v st ev reply mid] show ?case
      by (meson map_le_trans)
  qed simp
  have "verifier_run A H v (es @ es') st = Option.bind (verifier_run A H v es st) (verifier_run A H v es')"
    for es es' st
    by (induction es arbitrary: st) (auto simp: Option.bind_assoc intro!: Option.bind_cong)
  with assms(1,2) have "verifier_run A H v evs' storage = Some storage'" by simp
  then have "storage \<subseteq>\<^sub>m storage'" using run by blast
  then have "storage' key = Some (light, commitments)"
    using assms(3) by (metis domI map_le_def)
  moreover have "store_ok A H v storage"
    using run [OF assms(2)] by (simp add: store_ok_def)
  ultimately show ?thesis
    using assms(3) unfolding store_ok_def by blast
qed

subsection \<open>Reconstruction\<close>

lemma sorted_product:
  fixes xs ys :: "nat list"
  assumes "sorted xs" and "distinct xs" and "sorted ys"
  shows "sorted (List.product xs ys)"
  using assms(1,2)
proof (induction xs)
  case (Cons x xs)
  have "sorted (map (Pair x) ys)"
    using assms(3) by (simp add: sorted_map less_eq_prod_def)
  moreover have "x < x'" if "x' \<in> set xs" for x'
    using Cons.prems that by (auto simp: order_le_less)
  ultimately show ?case
    using Cons by (auto simp: sorted_append)
qed simp

lemma mset_concat_map: "mset (concat (map f xs)) = (\<Sum>x\<in>#mset xs. mset (f x))"
  by (induction xs) simp_all

definition share_entries :: "'g da_share \<Rightarrow> ((nat \<times> nat) \<times> chunk) list" where
  "share_entries s = map (\<lambda>(row, d). ((row, unat (ds_share_idx s)), d)) (enumerate 0 (ds_column s))"

lemma to_da_share_Some:
  assumes "to_da_share e i = Some (Some s)"
  shows "ds_column s = columns (ed_extended_data e) ! i" and "i < length (columns (ed_extended_data e))"
    and "unat (ds_share_idx s) = i"
  using assms by (auto simp: to_da_share_def nth_opt_def Option.bind_eq_Some_conv unsigned_of_nat
      take_bit_nat_eq_self split: option.splits if_splits)

lemma sorted_entries:
  assumes perm: "mset shares = mset ss"
    and ss: "\<And>i. i < length ss \<Longrightarrow> unat (ds_share_idx (ss ! i)) = i \<and> length (ds_column (ss ! i)) = R"
  shows "sort_key fst (concat (map share_entries shares)) =
    concat (map (\<lambda>j. map (\<lambda>i. ((j, i), ds_column (ss ! i) ! j)) [0..<length ss]) [0..<R])" (is "_ = ?L")
proof -
  let ?D = "concat (map share_entries ss)"
  have entries: "share_entries (ss ! i) = map (\<lambda>j. ((j, i), ds_column (ss ! i) ! j)) [0..<R]"
    if "i < length ss" for i
    using ss [OF that] by (auto simp: share_entries_def enumerate_eq_zip intro!: nth_equalityI)
  have D: "?D = concat (map (\<lambda>i. map (\<lambda>j. ((j, i), ds_column (ss ! i) ! j)) [0..<R]) [0..<length ss])"
    by (intro arg_cong [of _ _ concat] nth_equalityI) (simp_all add: entries)
  have "map fst ?D = map prod.swap (List.product [0..<length ss] [0..<R])"
    unfolding D by (simp add: product_concat_map map_concat o_def)
  then have dD: "distinct (map fst ?D)"
    by (simp add: distinct_map distinct_product)
  have fstL: "map fst ?L = List.product [0..<R] [0..<length ss]"
    by (simp add: product_concat_map map_concat o_def)
  then have dL: "distinct (map fst ?L)" and sL: "sorted (map fst ?L)"
    by (simp_all add: distinct_product sorted_product)
  have sets: "set ?D = set ?L"
    unfolding D by (auto simp: image_iff)
  have "distinct ?D" using dD unfolding distinct_map by (rule conjunct1)
  moreover have "distinct ?L" using dL unfolding distinct_map by (rule conjunct1)
  ultimately have "mset ?D = mset ?L"
    using set_eq_iff_mset_eq_distinct sets by blast
  moreover have mD: "mset (concat (map share_entries shares)) = mset ?D"
    by (simp only: mset_concat_map perm)
  ultimately have "mset (concat (map share_entries shares)) = mset ?L" by simp
  moreover have "inj_on fst (set (concat (map share_entries shares)))"
    using dD mset_eq_setD [OF mD] by (simp only: distinct_map)
  ultimately show ?thesis
    using sL by (rule sort_key_inj_key_eq)
qed

lemma reconstruct_sorted:
  assumes "sort_key fst (concat (map share_entries shares)) =
      concat (map (\<lambda>j. map (\<lambda>i. ((j, i), f j i)) [0..<h]) [0..<R])"
    and len: "\<And>i j. j < R \<Longrightarrow> i < h \<Longrightarrow> length (f j i) = 32"
  shows "reconstruct_without_missing_data shares =
    Some (concat (map (\<lambda>j. concat (map (\<lambda>i. butlast (f j i)) [0..<h])) [0..<R]))"
proof -
  let ?L = "concat (map (\<lambda>j. map (\<lambda>i. ((j, i), f j i)) [0..<h]) [0..<R])"
  have "map (\<lambda>(_, d). if length d = 32 then Some (butlast d) else None) ?L = map Some (map (\<lambda>(_, d). butlast d) ?L)"
    unfolding map_map by (rule map_cong) (auto simp: len)
  then have "those (map (\<lambda>(_, d). if length d = 32 then Some (butlast d) else None) ?L) =
      Some (map (\<lambda>(_, d). butlast d) ?L)"
    by (simp only: those_Some_iff)
  moreover have "concat (map (\<lambda>(_, d). butlast d) ?L) =
      concat (map (\<lambda>j. concat (map (\<lambda>i. butlast (f j i)) [0..<h])) [0..<R])"
    by (induction R) (simp_all add: o_def)
  ultimately show ?thesis
    using assms(1) by (simp add: reconstruct_without_missing_data_def share_entries_def [abs_def]
        BYTES_PER_FIELD_ELEMENT_def Let_def)
qed

lemma concat_padded_chunks:
  assumes "0 < n"
  shows "concat (map (\<lambda>d. d @ replicate (n - length d) z) (chunks n xs)) =
    xs @ replicate (length (chunks n xs) * n - length xs) z"
  using assms
proof (induction n xs rule: chunks.induct)
  case (1 n xs)
  show ?case
  proof (cases "length xs \<le> n")
    case True
    then show ?thesis using 1(2) by (cases "xs = []") (simp_all add: chunks.simps [of n xs])
  next
    case False
    then have "xs \<noteq> []" and "length (take n xs) = n" by auto
    with 1 False show ?thesis
      by (simp add: chunks.simps [of n xs]) (simp flip: append_assoc add: diff_diff_left)
  qed
qed

lemma butlast_zero: "butlast (replicate 32 z) = replicate 31 z"
  by (simp add: butlast_conv_take)

lemma concat_replicate_replicate: "concat (replicate a (replicate b z)) = replicate (a * b) z"
  by (induction a) (simp_all add: replicate_add)

lemma map_nth_take: "n \<le> length xs \<Longrightarrow> map (\<lambda>i. f (xs ! i)) [0..<n] = map f (take n xs)"
  by (rule nth_equalityI) simp_all

lemma row_bytes:
  assumes len: "\<And>c. c \<in> set (chunks 31 d) \<Longrightarrow> length c = 31" and h: "length d \<le> h * 31" "h \<le> N"
  defines "r \<equiv> map (\<lambda>c. c @ [0]) (chunks 31 d)"
  shows "concat (map (\<lambda>i. butlast (extended_row N r ! i)) [0..<h]) = d @ replicate (h * 31 - length d) 0"
proof -
  let ?n = "length (chunks 31 d)"
  have d: "length d = 31 * ?n"
    using length_concat_exact [of "chunks 31 d" 31] len concat_chunks [of 31 d] by simp
  have n: "length r = ?n" "?n \<le> h" using h d by (simp_all add: r_def)
  have "map (\<lambda>i. butlast (extended_row N r ! i)) [0..<h] = map butlast (take h (extended_row N r))"
    using n h by (intro map_nth_take) simp
  also have "take h (extended_row N r) = r @ replicate (h - ?n) zero_chunk"
    using n h by (simp add: extended_row_def min_absorb1)
  also have "map butlast \<dots> = chunks 31 d @ replicate (h - ?n) (replicate 31 0)"
    by (simp add: r_def o_def zero_chunk_def butlast_zero map_idI)
  finally have "concat (map (\<lambda>i. butlast (extended_row N r ! i)) [0..<h]) =
      d @ concat (replicate (h - ?n) (replicate 31 0))"
    by (simp add: concat_chunks)
  also have "concat (replicate (h - ?n) (replicate 31 (0 :: u8))) = replicate (h * 31 - length d) 0"
    by (simp add: d concat_replicate_replicate diff_mult_distrib mult.commute)
  finally show ?thesis .
qed

text \<open>
  C19. Data can be read back from the shares of the first half of the columns, in any order: the
  reconstruction returns the data, followed by the zeros that fill its last row.
\<close>

theorem reconstruct_roundtrip:
  assumes laws: "domain_laws A K" "fft_laws A K" "bytes_laws A" "hash_laws H" "k \<le> K" "column_count P = 2 ^ k"
    and enc: "da_encode A H P data = Ok e"
    and ss: "map (to_da_share e) [0..<2 ^ k div 2] = map (\<lambda>s. Some (Some s)) ss"
    and perm: "mset shares = mset ss"
  shows "reconstruct_without_missing_data shares =
    Some (data @ replicate (length (ed_chunked_data e) * (2 ^ k div 2 * 31) - length data) 0)"
proof -
  let ?h = "2 ^ k div 2 :: nat" and ?m = "ed_chunked_data e"
  have chunked: "chunkify P data = Some ?m" by (rule encoded_facts(1) [OF laws enc])
  then have h: "0 < ?h" and m: "?m = map (\<lambda>d. map (\<lambda>c. c @ [0]) (chunks 31 d)) (chunks (?h * 31) data)"
    and c31: "\<And>d c. d \<in> set (chunks (?h * 31) data) \<Longrightarrow> c \<in> set (chunks 31 d) \<Longrightarrow> length c = 31"
    by (simp_all add: chunkify_Some_iff laws(6))
  have hN: "?h \<le> 2 ^ k" by simp
  have len: "length ss = ?h" using ss by (metis diff_zero length_map length_upt)
  have share: "to_da_share e i = Some (Some (ss ! i))" if "i < ?h" for i
    using arg_cong [OF ss, of "\<lambda>l. l ! i"] that len by simp
  have "data \<noteq> []"
    using to_da_share_Some(2) [OF share [OF h]] encoded_facts(2) [OF laws enc] m by (auto simp: columns_def)
  note columns = encoded_columns [OF laws this enc]
  have col: "ds_column (ss ! i) = map (\<lambda>r. extended_row (2 ^ k) r ! i) ?m" "unat (ds_share_idx (ss ! i)) = i"
    if "i < ?h" for i
    using to_da_share_Some [OF share [OF that]] that hN by (simp_all add: columns(1))
  have "sort_key fst (concat (map share_entries shares)) =
      concat (map (\<lambda>j. map (\<lambda>i. ((j, i), ds_column (ss ! i) ! j)) [0..<length ss]) [0..<length ?m])"
    by (rule sorted_entries [OF perm]) (use col len in simp)
  also have "\<dots> = concat (map (\<lambda>j. map (\<lambda>i. ((j, i), extended_row (2 ^ k) (?m ! j) ! i)) [0..<?h]) [0..<length ?m])"
    using len col by (auto intro!: arg_cong [of _ _ concat])
  finally have "reconstruct_without_missing_data shares =
      Some (concat (map (\<lambda>j. concat (map (\<lambda>i. butlast (extended_row (2 ^ k) (?m ! j) ! i)) [0..<?h])) [0..<length ?m]))"
  proof (rule reconstruct_sorted)
    show "length (extended_row (2 ^ k) (?m ! j) ! i) = 32" if "j < length ?m" "i < ?h" for i j
      using columns(2) [of i "extended_row (2 ^ k) (?m ! j) ! i"] hN that by (simp add: columns(1))
  qed
  also have "map (\<lambda>j. concat (map (\<lambda>i. butlast (extended_row (2 ^ k) (?m ! j) ! i)) [0..<?h])) [0..<length ?m] =
      map (\<lambda>r. concat (map (\<lambda>i. butlast (extended_row (2 ^ k) r ! i)) [0..<?h])) ?m"
    by (rule nth_equalityI) simp_all
  also have "\<dots> = map (\<lambda>d. d @ replicate (?h * 31 - length d) 0) (chunks (?h * 31) data)"
    unfolding m map_map o_def
    by (rule map_cong [OF refl], rule row_bytes [OF c31 _ hN]) (use chunks_bound in blast)+
  also have "concat \<dots> = data @ replicate (length ?m * (?h * 31) - length data) 0"
    using concat_padded_chunks [of "?h * 31" 0 data] h m by simp
  finally show ?thesis .
qed

end
