(* ===== verification/Da_Instance.thy ===== *)
theory Da_Instance
  imports Da_Encoding
begin

text \<open>
  The encoder, the verifier and the reconstruction over the complex numbers of \<open>Ark_Complex\<close>, with
  two columns: the theorems of \<open>Da_Encoding\<close> applied to data that is encoded there.
\<close>

definition c_params :: "(complex, complex) global_parameters" where
  "c_params = \<lparr> powers_of_g = [1, 3, 9, 27], param_h = 2, beta_h = 6 \<rparr>"

definition c_hashes :: "complex da_hashes" where
  "c_hashes = \<lparr> serialize_uncompressed = (\<lambda>c. if c = 0 then [] else [1]),
     blake2b_var = (\<lambda>n b. take n (b @ replicate n 0)), sha3_256 = (\<lambda>b. b) \<rparr>"

definition c_encoder :: "(complex, complex) da_encoder_params" where
  "c_encoder = \<lparr> column_count = 2, toeplitz1cache = None, encoder_parameters = c_params \<rparr>"

definition c_verifier :: "(complex, complex) kzgrs_da_verifier" where
  "c_verifier = \<lparr> kv_parameters = c_params, kv_domain_size = 2 \<rparr>"

definition one_data :: bytes where "one_data = 1 # replicate 30 0"

definition one_encoded :: "complex encoded_data" where
  "one_encoded = \<lparr> ed_data = one_data, ed_chunked_data = [[one_data @ [0]]],
     ed_extended_data = [[one_data @ [0], zero_chunk]], ed_row_commitments = [2],
     ed_rows_proofs = [[1 / 2, 1 / 2]], ed_column_commitments = [1, 0],
     ed_aggregated_column_commitment = 2, ed_aggregated_column_proofs = [1 / 2, 1 / 2] \<rparr>"

definition zero_encoded :: "complex encoded_data" where
  "zero_encoded = \<lparr> ed_data = replicate 31 0, ed_chunked_data = [[zero_chunk]],
     ed_extended_data = [[zero_chunk, zero_chunk]], ed_row_commitments = [0],
     ed_rows_proofs = [[0]], ed_column_commitments = [0, 0],
     ed_aggregated_column_commitment = 0, ed_aggregated_column_proofs = [0] \<rparr>"

definition zero_share :: "complex da_share" where
  "zero_share = \<lparr> ds_column = [zero_chunk, zero_chunk], ds_share_idx = 0, ds_column_commitment = 0,
     ds_aggregated_column_commitment = 0, ds_aggregated_column_proof = 0,
     ds_rows_commitments = [0, 0], ds_rows_proofs = [0, 0] \<rparr>"

subsection \<open>The laws\<close>

lemma hash_laws_c: "hash_laws c_hashes"
  by (auto simp: hash_laws_def c_hashes_def)

lemma setup_c: "setup_with ark_complex 3 c_params"
  unfolding c_params_def by (rule setup_complex)

lemmas c_laws = domain_laws_complex fft_laws_complex poly_laws_complex group_laws_complex
  pairing_laws_complex

subsection \<open>Field elements and polynomials\<close>

lemma c_from_le:
  "fr_from_le ark_complex (one_data @ [0]) = 1" "fr_from_le ark_complex one_data = 1"
  "fr_from_le ark_complex zero_chunk = 0" "fr_from_le ark_complex (replicate 31 0) = 0"
proof -
  have "le_value (replicate n 0) = 0" for n
    by (induction n) (simp_all add: le_value_def)
  moreover have "le_value (x # b) = unat x + 256 * le_value b" for x b
    by (simp add: le_value_def)
  moreover have "one_data @ [0] = 1 # replicate 31 0"
    using replicate_app_Cons_same [of 30 "0 :: u8" "[]"] by (simp add: one_data_def flip: replicate_Suc)
  ultimately show "fr_from_le ark_complex (one_data @ [0]) = 1" "fr_from_le ark_complex one_data = 1"
    "fr_from_le ark_complex zero_chunk = 0" "fr_from_le ark_complex (replicate 31 0) = 0"
    by (simp_all add: ark_complex_def one_data_def zero_chunk_def)
qed

lemma c_to_le: "fr_to_le ark_complex 1 = one_data @ [0]" "fr_to_le ark_complex 0 = zero_chunk"
proof -
  have "fr_to_le ark_complex (fr_from_le ark_complex b) = b @ [0]" if "length b = 31" for b
    using bytes_laws_complex that by (simp add: bytes_laws_def)
  from this [of one_data] this [of "replicate 31 0"]
  show "fr_to_le ark_complex 1 = one_data @ [0]" "fr_to_le ark_complex 0 = zero_chunk"
    by (simp_all add: c_from_le) (simp_all add: one_data_def zero_chunk_def replicate_append_same flip: replicate_Suc)
qed

lemma c_domain: "domain_new ark_complex (Suc 0) = Some 1" "domain_new ark_complex 2 = Some 2"
  "domain_new ark_complex 0 = Some 1"
  by (simp_all add: ark_complex_def)

lemma c_interpolate:
  "interpolate ark_complex 2 [1] = [1 / 2, 1 / 2]" "interpolate ark_complex 2 [1, 0] = [1 / 2, 1 / 2]"
  "interpolate ark_complex (Suc 0) [1] = [1]" "interpolate ark_complex (Suc 0) [0] = []"
  "interpolate ark_complex 2 [0] = []" "interpolate ark_complex 2 [0, 0] = []"
  by (simp_all add: ark_complex_def c_ifft_def c_gen_def resize_def upt_rec strip_while_def)

lemma c_commit:
  "commit_polynomial ark_complex [1 / 2, 1 / 2] c_params = Ok 2"
  "commit_polynomial ark_complex [1] c_params = Ok 1"
  "commit_polynomial ark_complex [] c_params = Ok 0"
  by (simp_all add: commit_polynomial_def ark_complex_def c_params_def map_err_def)

lemma c_encode:
  "rs_encode ark_complex [1 / 2, 1 / 2] 2 = [1, 0]" "rs_encode ark_complex [] 2 = [0, 0]"
  by (simp_all add: rs_encode_def ark_complex_def c_fft_def c_gen_def resize_def upt_rec numeral_2_eq_2)

lemma c_batch: "fk20_batch_generate_elements_proofs ark_complex [1 / 2, 1 / 2] c_params None = Some [1 / 2, 1 / 2]"
proof -
  have "{0<..<2} = {Suc 0}" "{Suc 0<..<2} = {}" by auto
  then show ?thesis
    using fk20_value [OF _ domain_laws_complex fft_laws_complex, of 1 "[1 / 2, 1 / 2]" c_params None]
      group_laws_complex
    by (simp add: group_laws_def h_entry_def c_params_def upt_rec numeral_2_eq_2)
      (simp add: ark_complex_def)
qed

lemma c_batch_zero: "fk20_batch_generate_elements_proofs ark_complex [] c_params None = Some [0]"
  by (simp add: fk20_batch_generate_elements_proofs_def toeplitz1_def toeplitz2_def toeplitz3_def
      ark_complex_def c_fft_def c_ifft_def resize_def)

subsection \<open>Encoded data\<close>

lemma length_sample: "length one_data = 31" "length zero_chunk = 32"
  by (simp_all add: one_data_def zero_chunk_def)

lemma chunks_one: "length c = n \<Longrightarrow> 0 < n \<Longrightarrow> chunks n c = [c]"
  by (subst chunks.simps) auto

lemma chunks_two: "length c = n \<Longrightarrow> length c' = n \<Longrightarrow> 0 < n \<Longrightarrow> chunks n (c @ c') = [c, c']"
  by (subst chunks.simps) (auto simp: chunks_one)

lemma c_hash:
  "hash_commitment c_hashes 31 1 = Some one_data" "hash_commitment c_hashes 31 0 = Some (replicate 31 0)"
  by (simp_all add: hash_commitment_def commitment_to_bytes_def c_hashes_def one_data_def)

lemmas encoder_defs = da_encode_def chunkify_def c_encoder_def MAX_BLS12_381_ENCODING_CHUNK_SIZE_def
  BYTES_PER_FIELD_ELEMENT_def compute_kzg_row_commitments_def compute_kzg_column_commitments_def
  compute_aggregated_column_commitment_def compute_rows_proofs_def as_bytes_def
  bytes_to_polynomial_unchecked_def bytes_to_polynomial_def bytes_to_evaluations_def
  field_element_from_bytes_le_def rs_encode_rows_def evals_to_chunk_matrix_def transposed_def columns_def
  expect_def

lemmas c_values = c_domain c_from_le c_to_le c_interpolate c_commit c_encode c_batch c_batch_zero c_hash
  length_sample chunks_one chunks_two

lemma encode_one: "da_encode ark_complex c_hashes c_encoder one_data = Ok one_encoded"
  by (simp add: encoder_defs c_values upt_rec one_encoded_def)

lemma encode_zero: "da_encode ark_complex c_hashes c_encoder (replicate 31 0) = Ok zero_encoded"
proof -
  have "replicate 31 0 @ [0] = zero_chunk" by (simp add: zero_chunk_def replicate_append_same flip: replicate_Suc)
  then show ?thesis
    by (simp add: encoder_defs c_values upt_rec zero_encoded_def)
qed

lemma full_degree_one: "full_degree ark_complex c_hashes 2 one_encoded"
  using c_hash hash_commitment_Some [OF hash_laws_c]
  by (simp add: full_degree_def one_encoded_def row_poly_def c_from_le c_interpolate)

lemma zero_share_verifies:
  "kzgrs_verify ark_complex c_hashes c_verifier (snd (into_share_and_commitments zero_share))
     (fst (into_share_and_commitments zero_share)) = Ok ()"
proof -
  have element: "verify_element_proof ark_complex 0 0 0 0 2 c_params = Some True"
    by (simp add: verify_element_proof_def c_params_def ark_complex_def)
  have "verify_column ark_complex c_hashes c_params [zero_chunk, zero_chunk] 0 0 0 0 2 = Some True"
    by (simp add: verify_column_def encoder_defs c_values element numeral_2_eq_2 [symmetric])
  moreover have "verify_chunks ark_complex c_params [zero_chunk, zero_chunk] [0, 0] [0, 0] 0 2 = Some True"
    by (simp add: verify_chunks_def verify_chunk_def encoder_defs c_values element)
  ultimately show ?thesis
    by (simp add: kzgrs_verify_def da_verify_def into_share_and_commitments_def zero_share_def
        c_verifier_def c_domain expect_def)
qed

subsection \<open>The theorems at this instance\<close>

theorem encoded_shares_verify_witness:
  "\<exists>share light commitments. to_da_share one_encoded 1 = Some (Some share) \<and>
    into_share_and_commitments share = (light, commitments) \<and>
    da_verify ark_complex c_hashes (encoder_parameters c_encoder) commitments light (2 ^ 1) = Some True"
  by (rule encoded_shares_verify [OF c_laws _ bytes_laws_complex hash_laws_c])
    (use setup_c encode_one full_degree_one in \<open>simp_all add: c_encoder_def\<close>, auto simp: one_data_def)

theorem extension_is_zero_witness:
  "columns (ed_extended_data one_encoded) ! 1 =
     replicate (length (ed_chunked_data one_encoded)) (replicate 32 0)"
  by (rule extension_is_zero [OF domain_laws_complex fft_laws_complex bytes_laws_complex hash_laws_c,
        of 1 c_encoder one_data])
    (use encode_one in \<open>simp_all add: c_encoder_def one_data_def\<close>)

theorem zero_row_share_panics_witness: "to_da_share zero_encoded 1 = None"
  by (rule zero_row_share_panics [OF domain_laws_complex fft_laws_complex poly_laws_complex bytes_laws_complex
        hash_laws_c, of 1 c_encoder "replicate 31 0" _ "[zero_chunk]"])
    (use encode_zero in \<open>simp_all add: c_encoder_def zero_encoded_def zero_chunk_def\<close>)

theorem oversized_chunk_panics_witness:
  "share_blob_id c_hashes (zero_share \<lparr> ds_column := [zero_chunk @ zero_chunk, []] \<rparr>) =
     share_blob_id c_hashes zero_share \<and>
   verifier_step ark_complex c_hashes c_verifier Map.empty
     (NetworkShare (zero_share \<lparr> ds_column := [zero_chunk @ zero_chunk, []] \<rparr>) (True, True)) = None"
  by (rule oversized_chunk_panics [OF zero_share_verifies])
    (simp_all add: zero_share_def zero_chunk_def)

theorem share_index_wraps_witness:
  "\<exists>light commitments. into_share_and_commitments (zero_share \<lparr> ds_share_idx := 2 \<rparr>) = (light, commitments) \<and>
     kzgrs_verify ark_complex c_hashes c_verifier commitments light = Ok () \<and>
     be_bytes 2 (2 :: u16) \<noteq> be_bytes 2 (ds_share_idx zero_share)"
proof -
  let ?old = "into_share_and_commitments zero_share"
  let ?new = "into_share_and_commitments (zero_share \<lparr> ds_share_idx := 2 \<rparr>)"
  have "kzgrs_verify ark_complex c_hashes c_verifier (snd ?new) (fst ?new) = Ok () \<and>
      be_bytes 2 (2 :: u16) \<noteq> be_bytes 2 (ds_share_idx zero_share)"
    by (rule share_index_wraps [OF domain_laws_complex, of 1 _ _ _ "fst ?old" "snd ?old"])
      (use zero_share_verifies in \<open>simp_all add: c_verifier_def zero_share_def\<close>)
  then show ?thesis by (metis prod.collapse)
qed

theorem stored_shares_verified_witness:
  "\<exists>storage. verifier_run ark_complex c_hashes c_verifier [NetworkShare zero_share (True, True)] Map.empty =
       Some storage \<and>
     storage (share_blob_id c_hashes zero_share, be_bytes 2 (0 :: u16)) = Some (into_share_and_commitments zero_share) \<and>
     kzgrs_verify ark_complex c_hashes c_verifier (snd (into_share_and_commitments zero_share))
       (fst (into_share_and_commitments zero_share)) = Ok ()"
proof -
  let ?key = "(share_blob_id c_hashes zero_share, be_bytes 2 (0 :: u16))"
  let ?ev = "NetworkShare zero_share (True, True)"
  let ?st = "Map.empty (?key \<mapsto> into_share_and_commitments zero_share)"
  have run: "verifier_run ark_complex c_hashes c_verifier [?ev] Map.empty = Some ?st"
    using zero_share_verifies
    by (simp add: verifier_step_def handle_new_share_def split_beta zero_share_def)
  have "kzgrs_verify ark_complex c_hashes c_verifier (snd (into_share_and_commitments zero_share))
      (fst (into_share_and_commitments zero_share)) = Ok ()"
    using stored_shares_verified [of ark_complex c_hashes c_verifier "[?ev]" "[]" ?st ?st ?key
        "fst (into_share_and_commitments zero_share)" "snd (into_share_and_commitments zero_share)"] run
    by simp
  with run show ?thesis by (intro exI [of _ ?st]) simp
qed

theorem reconstruct_roundtrip_witness:
  "\<exists>share. to_da_share one_encoded 0 = Some (Some share) \<and>
     reconstruct_without_missing_data [share] = Some one_data"
proof -
  obtain share where share: "to_da_share one_encoded 0 = Some (Some share)"
    by (simp add: to_da_share_def one_encoded_def columns_def nth_opt_def)
  have "reconstruct_without_missing_data [share] = Some (one_data @
      replicate (length (ed_chunked_data one_encoded) * (2 ^ 1 div 2 * 31) - length one_data) 0)"
    by (rule reconstruct_roundtrip [OF domain_laws_complex fft_laws_complex bytes_laws_complex hash_laws_c,
          of 1 c_encoder _ _ "[share]"])
      (use encode_one share in \<open>simp_all add: c_encoder_def\<close>)
  with share show ?thesis by (simp add: one_encoded_def length_sample)
qed

end
