(* ===== verification/Spec2Isabelle.thy ===== *)
theory Spec2Isabelle
  imports Consensus Bundles Mempool Sampling Sdp_Ledger Da_Replication Blend_Network Da_Instance
begin

text \<open>
  A verification development for the Nomos node, the Rust workspace under \<open>src/\<close>.

  \<^bold>\<open>The program.\<close> A node runs a proof of stake consensus on blocks that carry references to data blobs.
  Slots and epochs come from the time service; the engine keeps the tree of headers and chooses a
  fork; the ledger keeps for every header the note trees, the nullifiers and the epoch snapshots, and
  checks the proof of leadership of each block. The consensus service pairs the engine with the
  ledger, takes transactions and blobs from two mempools, asks the sampling service which blobs are
  available, and recovers from its saved state. Blobs are encoded into columns of chunks with
  polynomial commitments; the columns travel as shares through the subnetworks of the data
  availability network, where nodes verify, store and replicate them. New blocks leave the node through the
  blend network, which hides their origin behind layers of encryption, delays and cover traffic. The
  service declaration protocol records providers of services.

  \<^bold>\<open>The theories\<close>, with the files they model:

  \<^item> \<open>Prelude\<close>: words for Rust's integers, the type \<open>outcome\<close> of calls that may panic, checked and
    saturating operations, iteration of hash maps.
  \<^item> \<open>Slots\<close>: \<open>consensus/cryptarchia-engine/src/config.rs\<close> and \<open>time.rs\<close>, \<open>ledger/nomos-ledger/src/config.rs\<close>, the
    system time backend of \<open>nomos-services/time\<close>.
  \<^item> \<open>Engine\<close>: \<open>consensus/cryptarchia-engine/src/lib.rs\<close>. \<open>Branches\<close> and \<open>Cryptarchia\<close> are the records
    \<open>branches\<close> and \<open>cryptarchia\<close>; \<open>receive_block\<close>, \<open>fork_choice\<close>, \<open>maxvalid_bg\<close>, \<open>lca\<close> keep their names.
  \<^item> \<open>Merkle\<close>, \<open>Notes\<close>, \<open>Transactions\<close>: \<open>nomos-core/cl/src\<close>; \<open>Note_Tree\<close>: \<open>ledger/nomos-ledger/src/notetree.rs\<close>.
  \<^item> \<open>Leadership\<close>: \<open>nomos-core/proof_statements\<close>, the guest programs of \<open>nomos-core/risc0_proofs\<close> and
    \<open>leadership.rs\<close> of the consensus service; \<open>Bundles\<close>: \<open>nomos-core/chain-defs/src/tx/bundle.rs\<close> and \<open>proofs\<close>.
  \<^item> \<open>Header_Store\<close>, \<open>Ledger\<close>: the interface of what grows by headers, and
    \<open>ledger/nomos-ledger/src/lib.rs\<close> with \<open>LedgerState\<close> and its update \<open>state_try_update\<close>.
  \<^item> \<open>Blocks\<close>: headers, block builder and selection of \<open>nomos-core/chain-defs/src\<close>.
  \<^item> \<open>Consensus\<close>: \<open>nomos-services/cryptarchia-consensus/src/lib.rs\<close> and \<open>states.rs\<close>.
  \<^item> \<open>Mempool\<close>: \<open>nomos-services/mempool/src\<close>. \<open>Sampling\<close>: \<open>nomos-services/data-availability/sampling/src\<close>.
  \<^item> \<open>Sdp_State\<close>, \<open>Sdp_Ledger\<close>: \<open>nomos-sdp/src\<close>.
  \<^item> \<open>Subnetworks\<close>, \<open>Da_Connections\<close>, \<open>Da_Messages\<close>, \<open>Da_Replication\<close>: \<open>nomos-da/network\<close>, that is the
    assignment of peers to subnetworks, the balancer and the monitor of connections, message framing,
    and the replication protocol with its scheduler.
  \<^item> \<open>Kzgrs\<close>: \<open>nomos-da/kzgrs/src\<close>; \<open>Ark_Complex\<close>: a model of the laws it assumes; \<open>Da_Encoding\<close>:
    \<open>nomos-da/kzgrs-backend/src\<close> and \<open>nomos-services/data-availability/verifier/src\<close>; \<open>Da_Instance\<close>:
    its theorems at encoded data.
  \<^item> \<open>Blend_Message\<close>, \<open>Layered_Cipher\<close>, \<open>Sphinx\<close>: \<open>nomos-blend/message/src\<close>; \<open>Blend_Core\<close>: \<open>nomos-blend/core/src\<close>
    and the loop of \<open>nomos-services/blend\<close>; \<open>Blend_Network\<close>: \<open>nomos-blend/network/src\<close>,
    \<open>conn_maintenance.rs\<close> and the swarm of the blend service.

  A struct is a record, an enum a datatype, a method a function on the record that returns the new
  one. A call that may panic returns an option or an \<open>outcome\<close>; \<open>None\<close> and \<open>Abort\<close> are the panic. What other
  services, futures, random generators and the clock answer are arguments of the step that uses
  them, so a run is a list of events. Third-party code (hashes, the virtual machine of the proofs, 256 bit
  integers, \<open>sphinx_packet\<close>, arkworks, caches with time-outs, the wire format) is a parameter, and what is relied on is
  a predicate on it, such as \<open>u256_laws\<close>, \<open>zkvm_sound\<close> or \<open>fft_laws\<close>.

  \<^bold>\<open>What is shown.\<close>

  \<^item> Engine: every operation on a well-formed tree returns; the fork choice is the rule of Ouroboros
    Genesis on whole chains; blocks deeper than the security parameter stay, under the density condition.
  \<^item> Ledger: an accepted chain spends no note twice; an update returns, with the invariant kept; an accepted leader won
    the lottery with a note of the tree; the epoch state changes only at epoch boundaries, as
    stated; a slot too far ahead panics.
  \<^item> Values and trees: paths lead to the root and, without collisions, start where they say; an accepted bundle creates no value.
  \<^item> Consensus: queries report the chain that the ledger rules accept; recovery comes back to the
    local chain, to its tip unless a stored block cannot be replayed.
  \<^item> Declarations: a block changes providers only by the steps of their life cycle, a reward is sent
    once, and an error leaves nothing behind.
  \<^item> Mempools refine a list of items with a status, in order of arrival; sampling validates a blob exactly when its
    samples have arrived and were verified.
  \<^item> Encoding: the batch of proofs is that of single proofs; decoding recovers from enough points; every
    share that is encoded verifies; data comes back from the first half of the shares; the service stores only verified
    shares. Three theorems describe failures: the second half of the columns is always zero, a row
    of zeros cannot be shared, and an oversized chunk stops the verifier.
  \<^item> Network: assignments are balanced; the balancer asks for exactly what is missing; a peer with
    few failures is denied only on command; replication sends each message once to each member, panics only where
    stated, and its scheduler is fair while no peer disconnects.
  \<^item> Blend: a wrapped payload arrives through its layers; delays are bounded; the choice of slots
    terminates exactly when it can; handlers write in order; messages are
    forwarded once, drop messages only as published.

  \<^bold>\<open>Interfaces.\<close> The locales \<open>header_store\<close> and \<open>paired_stores\<close> (ledger, engine and their pair), \<open>mempool\<close>,
  \<open>declarations_repository\<close>, \<open>membership_handler\<close> (both versions of the assignment) and \<open>blend_message\<close> (the mock
  and the Sphinx messages) are the traits of the source with the laws their users need; each is
  interpreted on the definitions that implement it.

  \<^bold>\<open>Loops and bounds.\<close> There is no fuel. Loops over the header tree and the choice of slots are
  partial functions into option, and their theorems say when they return; all other loops recur on
  lists or have a termination proof. Integers keep their width where they can wrap; chain lengths are
  natural numbers, bounded by the number of stored headers.

  \<^bold>\<open>Not modelled.\<close> Binaries, configuration, the HTTP API and the command line tools only forward
  requests. The adapters of the services, the storage and the network service are input and output; their answers are
  arguments here. The libp2p swarms and the dispersal and sampling behaviours are futures on
  streams. The dispersal and indexer services chain calls of adapters. Tracing, signals, key
  management, the NTP client, serde code, benchmarks and tests are left out. Floating point
  quotients and logarithms are parameters.
\<close>

end
